(* ===== verification/Prelude.thy ===== *)
theory Prelude
  imports "HOL-Library.Word" "HOL-Library.Monad_Syntax"
begin

text \<open>
  Shared ground of the development: machine types, byte order, buffers.

  The programs run on little-endian x86-64 hosts.  A C buffer is a list of bytes of
  the declared length.  An access outside the buffer is undefined behaviour; here it
  is the value \<^term>\<open>None\<close>, so that "the program never reads or writes outside its
  buffers" is the theorem that a definition returns \<^term>\<open>Some\<close>.  The locale
  \<open>fixed_codec\<close> is the interface between buffers and typed fields: what an encoder and a
  decoder of a fixed number of bytes promise, and what follows for stores and loads.
\<close>

section \<open>Machine types\<close>

type_synonym byte = "8 word"
type_synonym u16 = "16 word"
type_synonym u32 = "32 word"
type_synonym u64 = "64 word"

text \<open>A C \<open>int\<close> is kept as a 32-bit word where it may wrap; \<^const>\<open>sint\<close> reads it.\<close>

type_synonym s32 = "32 word"

named_theorems layout_simps \<open>offsets and sizes of packed structures\<close>
named_theorems step_defs \<open>definitions of the handlers a receive loop runs\<close>

section \<open>Byte order\<close>

fun nat_of_le :: "byte list \<Rightarrow> nat" where
  "nat_of_le [] = 0"
| "nat_of_le (b # bs) = unat b + 256 * nat_of_le bs"

primrec le_of_nat :: "nat \<Rightarrow> nat \<Rightarrow> byte list" where
  "le_of_nat 0 v = []"
| "le_of_nat (Suc n) v = of_nat v # le_of_nat n (v div 256)"

definition word_of_le :: "byte list \<Rightarrow> 'a::len word" where
  "word_of_le bs = of_nat (nat_of_le bs)"

definition le_of_word :: "nat \<Rightarrow> 'a::len word \<Rightarrow> byte list" where
  "le_of_word n w = le_of_nat n (unat w)"

text \<open>\<open>htons\<close>/\<open>ntohs\<close> and \<open>htonl\<close>/\<open>ntohl\<close> on a little-endian host reverse the bytes.\<close>

definition bswap16 :: "u16 \<Rightarrow> u16" where
  "bswap16 w = word_of_le (rev (le_of_word 2 w))"

definition bswap32 :: "u32 \<Rightarrow> u32" where
  "bswap32 w = word_of_le (rev (le_of_word 4 w))"

definition ntohs :: "u16 \<Rightarrow> u16" where "ntohs w = bswap16 w"
definition htons :: "u16 \<Rightarrow> u16" where "htons w = bswap16 w"
definition ntohl :: "u32 \<Rightarrow> u32" where "ntohl w = bswap32 w"
definition htonl :: "u32 \<Rightarrow> u32" where "htonl w = bswap32 w"

section \<open>Buffers\<close>

definition load :: "nat \<Rightarrow> 'b list \<Rightarrow> nat \<Rightarrow> 'b list option" where
  "load n buf off = (if off + n \<le> length buf then Some (take n (drop off buf)) else None)"

definition store :: "'b list \<Rightarrow> nat \<Rightarrow> 'b list \<Rightarrow> 'b list option" where
  "store buf off bs =
     (if off + length bs \<le> length buf
      then Some (take off buf @ bs @ drop (off + length bs) buf) else None)"

definition load8 :: "byte list \<Rightarrow> nat \<Rightarrow> byte option" where
  "load8 buf off = map_option hd (load 1 buf off)"

definition load16 :: "byte list \<Rightarrow> nat \<Rightarrow> u16 option" where
  "load16 buf off = map_option word_of_le (load 2 buf off)"

definition load32 :: "byte list \<Rightarrow> nat \<Rightarrow> u32 option" where
  "load32 buf off = map_option word_of_le (load 4 buf off)"

definition load64 :: "byte list \<Rightarrow> nat \<Rightarrow> u64 option" where
  "load64 buf off = map_option word_of_le (load 8 buf off)"

definition store64 :: "byte list \<Rightarrow> nat \<Rightarrow> u64 \<Rightarrow> byte list option" where
  "store64 buf off w = store buf off (le_of_word 8 w)"

text \<open>
  What a receive call leaves in the caller's buffer: the first bytes of the packet, as
  many as fit, followed by whatever the buffer held before.
\<close>

definition fill_buffer :: "'b list \<Rightarrow> 'b list \<Rightarrow> 'b list" where
  "fill_buffer buf bs = take (length buf) bs @ drop (length bs) buf"

section \<open>Lemmas\<close>

lemma le_of_nat_numeral [simp]:
  "le_of_nat (numeral k) v = of_nat v # le_of_nat (pred_numeral k) (v div 256)"
  by (rule le_of_nat.simps(2) [of "pred_numeral k" v, folded numeral_eq_Suc [of k]])

lemma length_le_of_nat [simp]: "length (le_of_nat n v) = n"
  by (induction n arbitrary: v) auto

lemma length_le_of_word [simp]: "length (le_of_word n w) = n"
  by (simp add: le_of_word_def)

lemma nat_of_le_bound: "nat_of_le bs < 256 ^ length bs"
proof (induction bs)
  case (Cons b bs)
  have "unat b < 256" using unsigned_less [where w = b] by simp
  with Cons show ?case by simp
qed simp

lemma unat_byte_of_nat: "unat (of_nat v :: byte) = v mod 256"
  by (simp add: unat_of_nat)

lemma nat_of_le_of_nat: "nat_of_le (le_of_nat n v) = v mod 256 ^ n"
proof (induction n arbitrary: v)
  case (Suc n)
  have "nat_of_le (le_of_nat (Suc n) v) = v mod 256 + 256 * (v div 256 mod 256 ^ n)"
    by (simp add: Suc unat_byte_of_nat)
  also have "\<dots> = v mod (256 * 256 ^ n)"
    by (simp add: mod_mult2_eq)
  finally show ?case by simp
qed simp

lemma le_of_nat_of_le: "le_of_nat (length bs) (nat_of_le bs) = bs"
proof (induction bs)
  case (Cons b bs)
  have b: "unat b < 256" using unsigned_less [where w = b] by simp
  have "of_nat (unat b + 256 * nat_of_le bs) = b"
  proof (rule word_unat_eq_iff [THEN iffD2])
    show "unat (of_nat (unat b + 256 * nat_of_le bs) :: byte) = unat b"
      using b by (simp only: unat_byte_of_nat) simp
  qed
  moreover have "(unat b + 256 * nat_of_le bs) div 256 = nat_of_le bs"
    using b by simp
  ultimately show ?case using Cons by simp
qed simp

lemma word_of_le_of_word:
  fixes w :: "'a::len word"
  assumes "LENGTH('a) = 8 * n"
  shows "word_of_le (le_of_word n w) = w"
proof -
  have "unat w < 256 ^ n"
    using unsigned_less [where w = w] assms by (simp add: power_mult)
  then show ?thesis
    by (simp add: word_of_le_def le_of_word_def nat_of_le_of_nat)
qed

lemma le_of_word_of_le:
  assumes "LENGTH('a::len) = 8 * n" and "length bs = n"
  shows "le_of_word n (word_of_le bs :: 'a word) = bs"
proof -
  have "nat_of_le bs < 2 ^ LENGTH('a)"
    using nat_of_le_bound [of bs] assms by (simp add: power_mult)
  then have "unat (word_of_le bs :: 'a word) = nat_of_le bs"
    by (simp add: word_of_le_def unat_of_nat)
  then show ?thesis
    using le_of_nat_of_le [of bs] assms(2) by (simp add: le_of_word_def)
qed

lemma bswap16_bswap16 [simp]: "bswap16 (bswap16 w) = w"
  by (simp add: bswap16_def le_of_word_of_le word_of_le_of_word)

lemma bswap32_bswap32 [simp]: "bswap32 (bswap32 w) = w"
  by (simp add: bswap32_def le_of_word_of_le word_of_le_of_word)

lemma ntohs_htons [simp]: "ntohs (htons w) = w"
  by (simp add: ntohs_def htons_def)

lemma ntohl_htonl [simp]: "ntohl (htonl w) = w"
  by (simp add: ntohl_def htonl_def)

lemma load_length: "load n buf off = Some bs \<Longrightarrow> length bs = n"
  by (auto simp: load_def split: if_splits)

lemma load_Some_iff: "(\<exists>bs. load n buf off = Some bs) \<longleftrightarrow> off + n \<le> length buf"
  by (simp add: load_def)

lemma store_length: "store buf off bs = Some buf' \<Longrightarrow> length buf' = length buf"
  by (auto simp: store_def split: if_splits)

lemma load_store_same:
  "store buf off bs = Some buf' \<Longrightarrow> load (length bs) buf' off = Some bs"
  by (auto simp: store_def load_def split: if_splits)

lemma load_store_disjoint:
  assumes st: "store buf off bs = Some buf'"
    and dis: "off' + n \<le> off \<or> off + length bs \<le> off'"
  shows "load n buf' off' = load n buf off'"
proof -
  from st have buf': "buf' = take off buf @ bs @ drop (off + length bs) buf"
    and le: "off + length bs \<le> length buf"
    by (auto simp: store_def split: if_splits)
  have len: "length buf' = length buf"
    using store_length [OF st] .
  have nth: "buf' ! k = buf ! k" if "k < length buf" "k < off \<or> off + length bs \<le> k" for k
    using that le by (auto simp: buf' nth_append)
  show ?thesis
    unfolding load_def len
    by (auto intro!: nth_equalityI nth dest: order.trans simp: len) (use dis in auto)
qed

lemma length_fill_buffer [simp]: "length (fill_buffer buf bs) = length buf"
  by (simp add: fill_buffer_def)

lemma fill_buffer_nth:
  "i < length buf \<Longrightarrow> fill_buffer buf bs ! i = (if i < length bs then bs ! i else buf ! i)"
  by (auto simp: fill_buffer_def nth_append min_def)

lemma load_fill_buffer:
  assumes "off + n \<le> length bs" "off + n \<le> length buf"
  shows "load n (fill_buffer buf bs) off = load n bs off"
  using assms by (auto simp: load_def fill_buffer_nth intro!: nth_equalityI)

section \<open>Typed fields of a buffer\<close>

locale fixed_codec =
  fixes enc :: "'v \<Rightarrow> byte list" and dec :: "byte list \<Rightarrow> 'v" and width :: nat
  assumes length_enc: "length (enc v) = width"
    and dec_enc: "dec (enc v) = v"
    and enc_dec: "length bs = width \<Longrightarrow> enc (dec bs) = bs"
begin

lemma read_back:
  assumes "store buf off (enc v) = Some buf'"
  shows "map_option dec (load width buf' off) = Some v"
  using load_store_same [OF assms] by (simp add: length_enc dec_enc)

lemma read_other:
  assumes "store buf off (enc v) = Some buf'" and "off' + n \<le> off \<or> off + width \<le> off'"
  shows "load n buf' off' = load n buf off'"
  using load_store_disjoint [OF assms(1)] assms(2) by (simp add: length_enc)

lemma write_back:
  assumes "map_option dec (load width buf off) = Some v"
  shows "store buf off (enc v) = Some buf"
proof -
  from assms have le: "off + width \<le> length buf"
    and v: "v = dec (take width (drop off buf))"
    by (auto simp: load_def split: if_splits)
  then have "enc v = take width (drop off buf)"
    by (simp add: enc_dec)
  moreover have "take off buf @ take width (drop off buf) @ drop (off + width) buf = buf"
    by (metis add.commute append_take_drop_id drop_drop)
  ultimately show ?thesis
    using le by (simp add: store_def)
qed

lemma dec_inject:
  "length xs = width \<Longrightarrow> length ys = width \<Longrightarrow> dec xs = dec ys \<Longrightarrow> xs = ys"
  by (metis enc_dec)

end

interpretation u16f: fixed_codec "le_of_word 2 :: u16 \<Rightarrow> byte list" "word_of_le" 2
  by unfold_locales (simp_all add: word_of_le_of_word le_of_word_of_le)

interpretation u32f: fixed_codec "le_of_word 4 :: u32 \<Rightarrow> byte list" "word_of_le" 4
  by unfold_locales (simp_all add: word_of_le_of_word le_of_word_of_le)

interpretation u64f: fixed_codec "le_of_word 8 :: u64 \<Rightarrow> byte list" "word_of_le" 8
  by unfold_locales (simp_all add: word_of_le_of_word le_of_word_of_le)

lemma load64_store64_same: "store64 buf off w = Some buf' \<Longrightarrow> load64 buf' off = Some w"
  unfolding store64_def load64_def by (rule u64f.read_back)

lemma load_store64_disjoint:
  "store64 buf off w = Some buf' \<Longrightarrow> off' + n \<le> off \<or> off + 8 \<le> off' \<Longrightarrow>
   load n buf' off' = load n buf off'"
  unfolding store64_def by (rule u64f.read_other)

lemma store64_length: "store64 buf off w = Some buf' \<Longrightarrow> length buf' = length buf"
  unfolding store64_def by (rule store_length)

lemma load8_Some [simp]: "off < length buf \<Longrightarrow> load8 buf off = Some (buf ! off)"
  by (simp add: load8_def load_def hd_drop_conv_nth)

lemma load16_total: "off + 2 \<le> length buf \<Longrightarrow> \<exists>w. load16 buf off = Some w"
  by (simp add: load16_def load_def)

lemma load32_total: "off + 4 \<le> length buf \<Longrightarrow> \<exists>w. load32 buf off = Some w"
  by (simp add: load32_def load_def)

lemma load64_total: "off + 8 \<le> length buf \<Longrightarrow> \<exists>w. load64 buf off = Some w"
  by (simp add: load64_def load_def)

lemma store64_total: "off + 8 \<le> length buf \<Longrightarrow> \<exists>b. store64 buf off w = Some b"
  by (simp add: store64_def store_def)

section \<open>Ring arithmetic on 32-bit counters\<close>

unbundle bit_operations_syntax

lemma unat_and_mask_mod:
  fixes x :: u32
  shows "unat (x AND mask n) = unat x mod 2 ^ n"
  by (simp flip: take_bit_eq_mask take_bit_eq_mod add: unsigned_take_bit_eq)

lemma unat_add_mod_pow2:
  fixes x :: u32
  assumes "n \<le> 32"
  shows "unat (x + of_nat k) mod 2 ^ n = (unat x + k) mod 2 ^ n"
proof -
  have d: "(2::nat) ^ n dvd 2 ^ 32" using assms by (rule le_imp_power_dvd)
  have "unat (x + of_nat k) = (unat x + k mod 2 ^ 32) mod 2 ^ 32"
    by (simp add: unat_word_ariths unat_of_nat)
  then have "unat (x + of_nat k) mod 2 ^ n = (unat x + k mod 2 ^ 32) mod 2 ^ n"
    using d by (simp add: mod_mod_cancel)
  also have "\<dots> = (unat x + k) mod 2 ^ n"
    using d by (metis mod_add_right_eq mod_mod_cancel)
  finally show ?thesis .
qed

lemma unat_mask32: "n < 32 \<Longrightarrow> unat (mask n :: u32) = 2 ^ n - 1"
proof -
  assume "n < 32"
  then have "uint (mask n :: u32) = mask n" by (simp add: uint_mask_eq)
  then show ?thesis by (metis unat_eq_nat_uint mask_nat_def nat_mask_eq)
qed

lemma mod_add_inj:
  fixes m :: nat
  assumes "(a + i) mod m = (a + j) mod m" "i < m" "j < m"
  shows "i = j"
proof (rule ccontr)
  assume "i \<noteq> j"
  then consider "i < j" | "j < i" by linarith
  then show False
  proof cases
    case 1
    then have "m dvd j - i" using assms(1) mod_eq_dvd_iff_nat [of "a + i" "a + j" m] by simp
    with 1 assms(3) show False by (auto dest: dvd_imp_le)
  next
    case 2
    then have "m dvd i - j" using assms(1) mod_eq_dvd_iff_nat [of "a + j" "a + i" m] by simp
    with 2 assms(2) show False by (auto dest: dvd_imp_le)
  qed
qed

text \<open>Arithmetic on the C type \<open>int\<close>: a result outside its range is undefined.\<close>

definition c_int :: "int \<Rightarrow> int option" where
  "c_int v = (if - (2 ^ 31) \<le> v \<and> v < 2 ^ 31 then Some v else None)"

lemma sint_small: assumes "unat w < 2 ^ 31" shows "sint (w :: u32) = int (unat w)"
proof -
  have a: "unat w < 2147483648" using assms by simp
  have "uint w < 2147483648" "- 2147483648 \<le> uint w" using uint_nat [of w] a by linarith+
  then have "signed_take_bit 31 (uint w) = uint w" by (intro signed_take_bit_int_eq_self) simp_all
  then show ?thesis by (simp add: sint_uint)
qed

lemma unat_Suc_small: "unat (w :: u32) < 2 ^ 30 \<Longrightarrow> unat (w + 1) = unat w + 1"
  by (simp add: unat_word_ariths)

end
