(* ===== verification/C_Format.thy ===== *)
theory C_Format
  imports Prelude Complex_Main
begin

text \<open>
  The part of the C language and of \<open>printf\<close> the programs use: IEEE-754 doubles (held as
  their 64 bits, decoded to sign, mantissa and exponent), the comparison of a double with
  an integer constant, and the conversions \<open>%d\<close>, \<open>%5d\<close>, \<open>%s\<close>, \<open>%8s\<close>, \<open>%12s\<close>,
  \<open>%.1f\<close> and \<open>%.2f\<close> with exact decimal rounding (round half to even, as glibc does).
\<close>

section \<open>IEEE-754 doubles\<close>

type_synonym double = u64

datatype dval = DNan bool | DInf bool | DFin bool nat int

definition dbl_sign :: "double \<Rightarrow> bool" where
  "dbl_sign w \<longleftrightarrow> 2 ^ 63 \<le> unat w"

definition dbl_exp :: "double \<Rightarrow> nat" where
  "dbl_exp w = unat w div 2 ^ 52 mod 2 ^ 11"

definition dbl_man :: "double \<Rightarrow> nat" where
  "dbl_man w = unat w mod 2 ^ 52"

definition dval_of :: "double \<Rightarrow> dval" where
  "dval_of w =
     (if dbl_exp w = 2047
      then (if dbl_man w = 0 then DInf (dbl_sign w) else DNan (dbl_sign w))
      else if dbl_exp w = 0 then DFin (dbl_sign w) (dbl_man w) (- 1074)
      else DFin (dbl_sign w) (2 ^ 52 + dbl_man w) (int (dbl_exp w) - 1075))"

text \<open>The C comparison \<open>x > c\<close> of a double with an integer constant.\<close>

fun dval_gt :: "dval \<Rightarrow> int \<Rightarrow> bool" where
  "dval_gt (DNan s) c = False"
| "dval_gt (DInf s) c = (\<not> s)"
| "dval_gt (DFin s m e) c =
     (let v = (if s then - int m else int m)
      in if 0 \<le> e then c < v * 2 ^ nat e else c * 2 ^ nat (- e) < v)"

definition dbl_gt :: "double \<Rightarrow> int \<Rightarrow> bool" where
  "dbl_gt w c = dval_gt (dval_of w) c"

text \<open>The number a finite double stands for.\<close>

fun dval_real :: "dval \<Rightarrow> real option" where
  "dval_real (DFin s m e) = Some ((if s then - real m else real m) * 2 powi e)"
| "dval_real _ = None"

section \<open>Decimal output\<close>

definition digit :: "nat \<Rightarrow> char" where
  "digit d = char_of (48 + d)"

fun show_nat :: "nat \<Rightarrow> string" where
  "show_nat n = (if n < 10 then [digit n] else show_nat (n div 10) @ [digit (n mod 10)])"

declare show_nat.simps [simp del]

definition show_int :: "int \<Rightarrow> string" where
  "show_int i = (if i < 0 then CHR ''-'' # show_nat (nat (- i)) else show_nat (nat i))"

definition pad_left :: "nat \<Rightarrow> string \<Rightarrow> string" where
  "pad_left w s = replicate (w - length s) CHR '' '' @ s"

text \<open>\<open>%d\<close> reads its argument as a signed 32-bit \<open>int\<close>, whatever was passed.\<close>

definition fmt_d :: "u32 \<Rightarrow> string" where
  "fmt_d w = show_int (sint w)"

text \<open>\<open>%s\<close> on a pointer into a buffer: the bytes up to the first zero byte.\<close>

fun cstring :: "byte list \<Rightarrow> string option" where
  "cstring [] = None"
| "cstring (b # bs) =
     (if b = 0 then Some [] else map_option (\<lambda>s. char_of (unat b) # s) (cstring bs))"

definition fmt_s :: "byte list \<Rightarrow> nat \<Rightarrow> string option" where
  "fmt_s buf off = cstring (drop off buf)"

text \<open>\<open>%.pf\<close>: the exact value rounded to \<open>p\<close> decimals, ties to even.\<close>

definition round_half_even :: "nat \<Rightarrow> nat \<Rightarrow> nat" where
  "round_half_even num den =
     (let q = num div den; r = num mod den
      in if 2 * r < den then q else if den < 2 * r then q + 1
         else if even q then q else q + 1)"

definition show_fixed :: "nat \<Rightarrow> nat \<Rightarrow> string" where
  "show_fixed p q =
     (let f = show_nat (q mod 10 ^ p)
      in show_nat (q div 10 ^ p) @ CHR ''.'' # replicate (p - length f) CHR ''0'' @ f)"

definition scaled :: "nat \<Rightarrow> nat \<Rightarrow> int \<Rightarrow> nat" where
  "scaled p m e =
     (if 0 \<le> e then m * 2 ^ nat e * 10 ^ p else round_half_even (m * 10 ^ p) (2 ^ nat (- e)))"

fun fmt_dval :: "nat \<Rightarrow> dval \<Rightarrow> string" where
  "fmt_dval p (DNan s) = (if s then ''-nan'' else ''nan'')"
| "fmt_dval p (DInf s) = (if s then ''-inf'' else ''inf'')"
| "fmt_dval p (DFin s m e) = (if s then ''-'' else []) @ show_fixed p (scaled p m e)"

definition fmt_f :: "nat \<Rightarrow> double \<Rightarrow> string" where
  "fmt_f p w = fmt_dval p (dval_of w)"

section \<open>Doubles: the comparison is the one on real numbers\<close>

lemma powi_neg_as_div: "(2::real) powi e = 1 / 2 ^ nat (- e)" if "e \<le> 0"
proof (cases "e = 0")
  case False
  then have "(2::real) powi e = inverse 2 ^ nat (- e)"
    using that by (simp add: power_int_def)
  also have "\<dots> = 1 / 2 ^ nat (- e)"
    by (simp only: inverse_eq_divide power_one_over)
  finally show ?thesis .
qed simp

lemma dval_gt_real:
  assumes "dval_real d = Some x"
  shows "dval_gt d c \<longleftrightarrow> real_of_int c < x"
proof -
  from assms obtain s m e where d: "d = DFin s m e" by (cases d) auto
  let ?v = "if s then - int m else int m"
  have x: "x = real_of_int ?v * 2 powi e"
    using assms d by (auto split: if_splits)
  show ?thesis
  proof (cases "0 \<le> e")
    case True
    have "real_of_int (?v * 2 ^ nat e) = x"
      using True by (simp add: x power_int_def)
    then have "real_of_int c < x \<longleftrightarrow> c < ?v * 2 ^ nat e" by (metis of_int_less_iff)
    with True show ?thesis by (simp add: d Let_def)
  next
    case False
    have "real_of_int c < x \<longleftrightarrow> real_of_int (c * 2 ^ nat (- e)) < real_of_int ?v"
      using False by (simp add: x powi_neg_as_div pos_less_divide_eq)
    then have "real_of_int c < x \<longleftrightarrow> c * 2 ^ nat (- e) < ?v" by linarith
    with False show ?thesis by (simp add: d Let_def)
  qed
qed

lemma dbl_fields:
  assumes "\<not> dbl_sign w"
  shows "unat w = dbl_exp w * 2 ^ 52 + dbl_man w"
proof -
  have "unat w div 2 ^ 52 < 2 ^ 11"
    using assms by (simp add: dbl_sign_def not_le div_less_iff_less_mult)
  then have "dbl_exp w = unat w div 2 ^ 52" by (simp add: dbl_exp_def)
  then show ?thesis by (simp add: dbl_man_def div_mult_mod_eq)
qed

lemma dbl_man_bound: "dbl_man w < 2 ^ 52"
  by (simp add: dbl_man_def)

lemma dbl_exp_bound: "dbl_exp w < 2 ^ 11"
  by (simp add: dbl_exp_def)

text \<open>
  Above \<open>0xffff\<close> as a double is a range of bit patterns: everything past the encoding of
  \<open>65535.0\<close> up to and including plus infinity.
\<close>

definition price_limit_bits :: nat where
  "price_limit_bits = 0x40EFFFE000000000"

definition infinity_bits :: nat where
  "infinity_bits = 0x7FF0000000000000"

lemma normal_gt_65535:
  assumes "0 < e" "e < 2047" "m < (2::nat) ^ 52"
  shows "dval_gt (DFin False (2 ^ 52 + m) (int e - 1075)) 65535 \<longleftrightarrow>
         price_limit_bits < e * 2 ^ 52 + m"
proof (cases "e < 1075")
  case True
  have ne: "nat (1075 - int e) = 1075 - e" using True by simp
  have gt: "dval_gt (DFin False (2 ^ 52 + m) (int e - 1075)) 65535 \<longleftrightarrow>
            65535 * 2 ^ (1075 - e) < (2 ^ 52 + int m)"
    using True by (simp add: ne)
  consider "e < 1038" | "e = 1038" | "1038 < e" by linarith
  then show ?thesis
  proof cases
    case 1
    have "(2::int) ^ 38 \<le> 2 ^ (1075 - e)"
      by (rule power_increasing) (use 1 in auto)
    then have "\<not> 65535 * 2 ^ (1075 - e) < (2 ^ 52 + int m)"
      using assms(3) by simp
    moreover have "\<not> price_limit_bits < e * 2 ^ 52 + m"
      using 1 assms(3) by (simp add: price_limit_bits_def)
    ultimately show ?thesis using gt by blast
  next
    case 2
    then show ?thesis by (simp add: price_limit_bits_def)
  next
    case 3
    have "(2::int) ^ (1075 - e) \<le> 2 ^ 36"
      by (rule power_increasing) (use 3 in auto)
    then have "65535 * 2 ^ (1075 - e) < (2 ^ 52 + int m)" by simp
    moreover have "price_limit_bits < e * 2 ^ 52 + m"
      using 3 by (simp add: price_limit_bits_def)
    ultimately show ?thesis using gt by blast
  qed
next
  case False
  have "(1::int) \<le> 2 ^ nat (int e - 1075)" by simp
  then have "(2 ^ 52 + int m) * 1 \<le> (2 ^ 52 + int m) * 2 ^ nat (int e - 1075)"
    by (intro mult_left_mono) auto
  moreover have "65535 < (2 ^ 52 + int m) * 1" by simp
  ultimately have "65535 < (2 ^ 52 + int m) * 2 ^ nat (int e - 1075)"
    by (rule less_le_trans [rotated])
  moreover have "price_limit_bits < e * 2 ^ 52 + m"
    using False by (simp add: price_limit_bits_def)
  ultimately show ?thesis using False by (simp add: Let_def)
qed

lemma subnormal_not_gt: "m < 2 ^ 52 \<Longrightarrow> \<not> dval_gt (DFin False m (- 1074)) 65535"
proof -
  assume m: "m < 2 ^ 52"
  have "int m < 2 ^ 52" using m by simp
  moreover have "(2::int) ^ 52 \<le> 2 ^ 1074" by (rule power_increasing) auto
  ultimately have "int m \<le> 65535 * 2 ^ 1074" by linarith
  then show ?thesis by (simp add: Let_def not_less)
qed

lemma negative_not_gt: "\<not> dval_gt (DFin True m e) 65535"
proof -
  have "0 \<le> int m * 2 ^ nat e" by simp
  moreover have "0 \<le> (65535::int) * 2 ^ nat (- e)" by simp
  ultimately have "- (int m * 2 ^ nat e) \<le> 65535" "- int m \<le> 65535 * 2 ^ nat (- e)"
    by linarith+
  then show ?thesis by (simp add: Let_def not_less)
qed

lemma dbl_gt_65535_bits:
  "dbl_gt w 65535 \<longleftrightarrow> price_limit_bits < unat w \<and> unat w \<le> infinity_bits"
proof (cases "dbl_sign w")
  case True
  have "infinity_bits < unat w"
    using True by (simp add: dbl_sign_def infinity_bits_def)
  with True show ?thesis
    by (simp add: dbl_gt_def dval_of_def negative_not_gt del: dval_gt.simps(3))
next
  case False
  note w = dbl_fields [OF False] and m = dbl_man_bound [of w] and e = dbl_exp_bound [of w]
  consider "dbl_exp w = 2047" | "dbl_exp w = 0" | "0 < dbl_exp w" "dbl_exp w < 2047"
    using e by fastforce
  then show ?thesis
  proof cases
    case 1
    with False w m show ?thesis
      by (auto simp: dbl_gt_def dval_of_def price_limit_bits_def infinity_bits_def)
  next
    case 2
    with False w m subnormal_not_gt [OF m] show ?thesis
      by (auto simp: dbl_gt_def dval_of_def price_limit_bits_def)
  next
    case 3
    have "unat w \<le> infinity_bits"
      using w m 3 by (simp add: infinity_bits_def)
    with 3 False w m normal_gt_65535 [OF 3 m] show ?thesis
      by (simp add: dbl_gt_def dval_of_def)
  qed
qed

section \<open>Rounding and printing\<close>

lemma round_half_even_error:
  assumes "0 < den"
  shows "\<bar>2 * (int (round_half_even num den) * int den - int num)\<bar> \<le> int den"
proof -
  define q r where "q = num div den" and "r = num mod den"
  have num: "num = q * den + r" and r: "r < den"
    using assms by (simp_all add: q_def r_def div_mult_mod_eq)
  have "round_half_even num den = q \<and> 2 * r \<le> den \<or>
        round_half_even num den = q + 1 \<and> den \<le> 2 * r"
    by (auto simp: round_half_even_def q_def r_def Let_def)
  then show ?thesis
    using r by (auto simp: num algebra_simps)
qed

lemma scaled_error:
  "\<bar>real (scaled p m e) - real m * 2 powi e * 10 ^ p\<bar> \<le> 1 / 2"
proof (cases "0 \<le> e")
  case True
  then show ?thesis by (simp add: scaled_def power_int_def)
next
  case False
  define den where "den = (2::nat) ^ nat (- e)"
  have den: "0 < den" by (simp add: den_def)
  let ?n = "m * 10 ^ p"
  let ?q = "round_half_even ?n den"
  have val: "real m * 2 powi e * 10 ^ p = real ?n / real den"
    using False by (simp add: powi_neg_as_div den_def)
  have "real_of_int \<bar>2 * (int ?q * int den - int ?n)\<bar> \<le> real_of_int (int den)"
    using round_half_even_error [OF den, of ?n] by (simp only: of_int_le_iff)
  then have "\<bar>2 * (real ?q * real den - real ?n)\<bar> \<le> real den" by simp
  then have "\<bar>real ?q - real ?n / real den\<bar> \<le> 1 / 2"
    using den unfolding abs_le_iff by (simp add: field_simps)
  with False show ?thesis
    by (simp add: scaled_def val den_def)
qed

lemma length_show_nat_pos: "show_nat n \<noteq> []"
  by (subst show_nat.simps) simp

lemma cstring_total: "0 \<in> set bs \<Longrightarrow> \<exists>s. cstring bs = Some s"
  by (induction bs) auto

lemma cstring_takeWhile:
  "0 \<in> set bs \<Longrightarrow> cstring bs = Some (map (\<lambda>b. char_of (unat b)) (takeWhile (\<lambda>b. b \<noteq> 0) bs))"
  by (induction bs) auto

lemma cstring_None: "0 \<notin> set bs \<Longrightarrow> cstring bs = None"
  by (induction bs) auto

lemma cstring_append: "cstring xs = Some s \<Longrightarrow> cstring (xs @ ys) = Some s"
  by (induction xs arbitrary: s) (auto split: if_splits)

lemma cstring_run_on:
  "0 \<notin> set xs \<Longrightarrow>
   cstring (xs @ ys) = map_option (\<lambda>s. map (\<lambda>b. char_of (unat b)) xs @ s) (cstring ys)"
  by (cases "cstring ys"; induction xs) auto

lemma fmt_s_prefix:
  assumes "cstring (take n (drop off buf)) = Some s"
  shows "fmt_s buf off = Some s"
  using cstring_append [OF assms, of "drop n (drop off buf)"]
  by (simp only: fmt_s_def append_take_drop_id)

section \<open>Evaluating formats\<close>

lemma replicate_numeral: "replicate (numeral k) x = x # replicate (pred_numeral k) x"
  by (rule replicate_Suc [of "pred_numeral k" x, folded numeral_eq_Suc [of k]])

lemmas fmt_eval = fmt_f_def dval_of_def dbl_exp_def dbl_man_def dbl_sign_def scaled_def
  round_half_even_def show_fixed_def Let_def show_nat.simps digit_def char_of_eq_iff
  fmt_d_def show_int_def pad_left_def replicate_numeral

end
