(* ===== verification/NormalUdp.thy ===== *)
theory NormalUdp
  imports C_Format
begin

text \<open>
  The two message structures of \<open>normal_udp.h\<close> (the same header in all four programs).
  The header packs them (\<open>#pragma pack(1)\<close>), so a member's offset is the sum of the sizes
  before it.  A pointer cast of \<open>output_data\<close> to a structure is the decoder of that layout;
  the price filter of the receive loops works on the same bytes in place.
\<close>

section \<open>Packed layouts\<close>

datatype ctype = CharArray nat | Double | UInt32

fun sizeof_ctype :: "ctype \<Rightarrow> nat" where
  "sizeof_ctype (CharArray n) = n"
| "sizeof_ctype Double = 8"
| "sizeof_ctype UInt32 = 4"

fun offsetof :: "('f \<times> ctype) list \<Rightarrow> 'f \<Rightarrow> nat" where
  "offsetof [] f = 0"
| "offsetof ((g, t) # fs) f = (if f = g then 0 else sizeof_ctype t + offsetof fs f)"

fun sizeof_struct :: "('f \<times> ctype) list \<Rightarrow> nat" where
  "sizeof_struct [] = 0"
| "sizeof_struct ((g, t) # fs) = sizeof_ctype t + sizeof_struct fs"

section \<open>The structures\<close>

datatype best_field =
    Bq_contract_id | Bq_gen_time | Bq_last_price | Bq_match_tot_qty
  | Bq_turnover | Bq_open_interest | Bq_bid_price | Bq_bid_qty
  | Bq_ask_price | Bq_ask_qty | Bq_last_match_qty

definition best_layout :: "(best_field \<times> ctype) list" where
  "best_layout =
    [(Bq_contract_id, CharArray 8),
     (Bq_gen_time, CharArray 12),
     (Bq_last_price, Double),
     (Bq_match_tot_qty, UInt32),
     (Bq_turnover, Double),
     (Bq_open_interest, UInt32),
     (Bq_bid_price, Double),
     (Bq_bid_qty, UInt32),
     (Bq_ask_price, Double),
     (Bq_ask_qty, UInt32),
     (Bq_last_match_qty, UInt32)]"

datatype depth_field =
    Du_contract_id | Du_gen_time | Du_bid1_price | Du_bid1_qty
  | Du_bid2_price | Du_bid2_qty | Du_bid3_price | Du_bid3_qty
  | Du_bid4_price | Du_bid4_qty | Du_bid5_price | Du_bid5_qty
  | Du_ask1_price | Du_ask1_qty | Du_ask2_price | Du_ask2_qty
  | Du_ask3_price | Du_ask3_qty | Du_ask4_price | Du_ask4_qty
  | Du_ask5_price | Du_ask5_qty

definition depth_layout :: "(depth_field \<times> ctype) list" where
  "depth_layout =
    [(Du_contract_id, CharArray 8),
     (Du_gen_time, CharArray 12),
     (Du_bid1_price, Double),
     (Du_bid1_qty, UInt32),
     (Du_bid2_price, Double),
     (Du_bid2_qty, UInt32),
     (Du_bid3_price, Double),
     (Du_bid3_qty, UInt32),
     (Du_bid4_price, Double),
     (Du_bid4_qty, UInt32),
     (Du_bid5_price, Double),
     (Du_bid5_qty, UInt32),
     (Du_ask1_price, Double),
     (Du_ask1_qty, UInt32),
     (Du_ask2_price, Double),
     (Du_ask2_qty, UInt32),
     (Du_ask3_price, Double),
     (Du_ask3_qty, UInt32),
     (Du_ask4_price, Double),
     (Du_ask4_qty, UInt32),
     (Du_ask5_price, Double),
     (Du_ask5_qty, UInt32)]"

record normal_best_quote =
  bq_contract_id :: "byte list"
  bq_gen_time :: "byte list"
  bq_last_price :: "double"
  bq_match_tot_qty :: "u32"
  bq_turnover :: "double"
  bq_open_interest :: "u32"
  bq_bid_price :: "double"
  bq_bid_qty :: "u32"
  bq_ask_price :: "double"
  bq_ask_qty :: "u32"
  bq_last_match_qty :: "u32"

record normal_depth_update =
  du_contract_id :: "byte list"
  du_gen_time :: "byte list"
  du_bid1_price :: "double"
  du_bid1_qty :: "u32"
  du_bid2_price :: "double"
  du_bid2_qty :: "u32"
  du_bid3_price :: "double"
  du_bid3_qty :: "u32"
  du_bid4_price :: "double"
  du_bid4_qty :: "u32"
  du_bid5_price :: "double"
  du_bid5_qty :: "u32"
  du_ask1_price :: "double"
  du_ask1_qty :: "u32"
  du_ask2_price :: "double"
  du_ask2_qty :: "u32"
  du_ask3_price :: "double"
  du_ask3_qty :: "u32"
  du_ask4_price :: "double"
  du_ask4_qty :: "u32"
  du_ask5_price :: "double"
  du_ask5_qty :: "u32"

definition best_decode :: "byte list \<Rightarrow> normal_best_quote option" where
  "best_decode buf = do {
     x0 \<leftarrow> load 8 buf (offsetof best_layout Bq_contract_id);
     x1 \<leftarrow> load 12 buf (offsetof best_layout Bq_gen_time);
     x2 \<leftarrow> load64 buf (offsetof best_layout Bq_last_price);
     x3 \<leftarrow> load32 buf (offsetof best_layout Bq_match_tot_qty);
     x4 \<leftarrow> load64 buf (offsetof best_layout Bq_turnover);
     x5 \<leftarrow> load32 buf (offsetof best_layout Bq_open_interest);
     x6 \<leftarrow> load64 buf (offsetof best_layout Bq_bid_price);
     x7 \<leftarrow> load32 buf (offsetof best_layout Bq_bid_qty);
     x8 \<leftarrow> load64 buf (offsetof best_layout Bq_ask_price);
     x9 \<leftarrow> load32 buf (offsetof best_layout Bq_ask_qty);
     x10 \<leftarrow> load32 buf (offsetof best_layout Bq_last_match_qty);
     Some \<lparr>bq_contract_id = x0,
       bq_gen_time = x1,
       bq_last_price = x2,
       bq_match_tot_qty = x3,
       bq_turnover = x4,
       bq_open_interest = x5,
       bq_bid_price = x6,
       bq_bid_qty = x7,
       bq_ask_price = x8,
       bq_ask_qty = x9,
       bq_last_match_qty = x10\<rparr>
   }"

definition depth_decode :: "byte list \<Rightarrow> normal_depth_update option" where
  "depth_decode buf = do {
     x0 \<leftarrow> load 8 buf (offsetof depth_layout Du_contract_id);
     x1 \<leftarrow> load 12 buf (offsetof depth_layout Du_gen_time);
     x2 \<leftarrow> load64 buf (offsetof depth_layout Du_bid1_price);
     x3 \<leftarrow> load32 buf (offsetof depth_layout Du_bid1_qty);
     x4 \<leftarrow> load64 buf (offsetof depth_layout Du_bid2_price);
     x5 \<leftarrow> load32 buf (offsetof depth_layout Du_bid2_qty);
     x6 \<leftarrow> load64 buf (offsetof depth_layout Du_bid3_price);
     x7 \<leftarrow> load32 buf (offsetof depth_layout Du_bid3_qty);
     x8 \<leftarrow> load64 buf (offsetof depth_layout Du_bid4_price);
     x9 \<leftarrow> load32 buf (offsetof depth_layout Du_bid4_qty);
     x10 \<leftarrow> load64 buf (offsetof depth_layout Du_bid5_price);
     x11 \<leftarrow> load32 buf (offsetof depth_layout Du_bid5_qty);
     x12 \<leftarrow> load64 buf (offsetof depth_layout Du_ask1_price);
     x13 \<leftarrow> load32 buf (offsetof depth_layout Du_ask1_qty);
     x14 \<leftarrow> load64 buf (offsetof depth_layout Du_ask2_price);
     x15 \<leftarrow> load32 buf (offsetof depth_layout Du_ask2_qty);
     x16 \<leftarrow> load64 buf (offsetof depth_layout Du_ask3_price);
     x17 \<leftarrow> load32 buf (offsetof depth_layout Du_ask3_qty);
     x18 \<leftarrow> load64 buf (offsetof depth_layout Du_ask4_price);
     x19 \<leftarrow> load32 buf (offsetof depth_layout Du_ask4_qty);
     x20 \<leftarrow> load64 buf (offsetof depth_layout Du_ask5_price);
     x21 \<leftarrow> load32 buf (offsetof depth_layout Du_ask5_qty);
     Some \<lparr>du_contract_id = x0,
       du_gen_time = x1,
       du_bid1_price = x2,
       du_bid1_qty = x3,
       du_bid2_price = x4,
       du_bid2_qty = x5,
       du_bid3_price = x6,
       du_bid3_qty = x7,
       du_bid4_price = x8,
       du_bid4_qty = x9,
       du_bid5_price = x10,
       du_bid5_qty = x11,
       du_ask1_price = x12,
       du_ask1_qty = x13,
       du_ask2_price = x14,
       du_ask2_qty = x15,
       du_ask3_price = x16,
       du_ask3_qty = x17,
       du_ask4_price = x18,
       du_ask4_qty = x19,
       du_ask5_price = x20,
       du_ask5_qty = x21\<rparr>
   }"

definition best_encode :: "normal_best_quote \<Rightarrow> byte list" where
  "best_encode q =
     bq_contract_id q @
     bq_gen_time q @
     le_of_word 8 (bq_last_price q) @
     le_of_word 4 (bq_match_tot_qty q) @
     le_of_word 8 (bq_turnover q) @
     le_of_word 4 (bq_open_interest q) @
     le_of_word 8 (bq_bid_price q) @
     le_of_word 4 (bq_bid_qty q) @
     le_of_word 8 (bq_ask_price q) @
     le_of_word 4 (bq_ask_qty q) @
     le_of_word 4 (bq_last_match_qty q)"

definition depth_encode :: "normal_depth_update \<Rightarrow> byte list" where
  "depth_encode q =
     du_contract_id q @
     du_gen_time q @
     le_of_word 8 (du_bid1_price q) @
     le_of_word 4 (du_bid1_qty q) @
     le_of_word 8 (du_bid2_price q) @
     le_of_word 4 (du_bid2_qty q) @
     le_of_word 8 (du_bid3_price q) @
     le_of_word 4 (du_bid3_qty q) @
     le_of_word 8 (du_bid4_price q) @
     le_of_word 4 (du_bid4_qty q) @
     le_of_word 8 (du_bid5_price q) @
     le_of_word 4 (du_bid5_qty q) @
     le_of_word 8 (du_ask1_price q) @
     le_of_word 4 (du_ask1_qty q) @
     le_of_word 8 (du_ask2_price q) @
     le_of_word 4 (du_ask2_qty q) @
     le_of_word 8 (du_ask3_price q) @
     le_of_word 4 (du_ask3_qty q) @
     le_of_word 8 (du_ask4_price q) @
     le_of_word 4 (du_ask4_qty q) @
     le_of_word 8 (du_ask5_price q) @
     le_of_word 4 (du_ask5_qty q)"

definition best_wf :: "normal_best_quote \<Rightarrow> bool" where
  "best_wf q \<longleftrightarrow> length (bq_contract_id q) = 8 \<and> length (bq_gen_time q) = 12"

definition depth_wf :: "normal_depth_update \<Rightarrow> bool" where
  "depth_wf q \<longleftrightarrow> length (du_contract_id q) = 8 \<and> length (du_gen_time q) = 12"

section \<open>Offsets\<close>

lemma offsetof_best [simp, layout_simps]:
  "offsetof best_layout Bq_contract_id = 0"
  "offsetof best_layout Bq_gen_time = 8"
  "offsetof best_layout Bq_last_price = 20"
  "offsetof best_layout Bq_match_tot_qty = 28"
  "offsetof best_layout Bq_turnover = 32"
  "offsetof best_layout Bq_open_interest = 40"
  "offsetof best_layout Bq_bid_price = 44"
  "offsetof best_layout Bq_bid_qty = 52"
  "offsetof best_layout Bq_ask_price = 56"
  "offsetof best_layout Bq_ask_qty = 64"
  "offsetof best_layout Bq_last_match_qty = 68"
  by (simp_all add: best_layout_def)

lemma offsetof_depth [simp, layout_simps]:
  "offsetof depth_layout Du_contract_id = 0"
  "offsetof depth_layout Du_gen_time = 8"
  "offsetof depth_layout Du_bid1_price = 20"
  "offsetof depth_layout Du_bid1_qty = 28"
  "offsetof depth_layout Du_bid2_price = 32"
  "offsetof depth_layout Du_bid2_qty = 40"
  "offsetof depth_layout Du_bid3_price = 44"
  "offsetof depth_layout Du_bid3_qty = 52"
  "offsetof depth_layout Du_bid4_price = 56"
  "offsetof depth_layout Du_bid4_qty = 64"
  "offsetof depth_layout Du_bid5_price = 68"
  "offsetof depth_layout Du_bid5_qty = 76"
  "offsetof depth_layout Du_ask1_price = 80"
  "offsetof depth_layout Du_ask1_qty = 88"
  "offsetof depth_layout Du_ask2_price = 92"
  "offsetof depth_layout Du_ask2_qty = 100"
  "offsetof depth_layout Du_ask3_price = 104"
  "offsetof depth_layout Du_ask3_qty = 112"
  "offsetof depth_layout Du_ask4_price = 116"
  "offsetof depth_layout Du_ask4_qty = 124"
  "offsetof depth_layout Du_ask5_price = 128"
  "offsetof depth_layout Du_ask5_qty = 136"
  by (simp_all add: depth_layout_def)

lemma sizeof_best [simp, layout_simps]: "sizeof_struct best_layout = 72"
  by (simp add: best_layout_def)

lemma sizeof_depth [simp, layout_simps]: "sizeof_struct depth_layout = 140"
  by (simp add: depth_layout_def)

section \<open>Members do not overlap; encoding and decoding\<close>

lemma offsetof_disjoint:
  assumes "distinct (map fst L)" "(f, s) \<in> set L" "(g, t) \<in> set L" "f \<noteq> g"
  shows "offsetof L f + sizeof_ctype s \<le> offsetof L g \<or>
         offsetof L g + sizeof_ctype t \<le> offsetof L f"
  using assms
proof (induction L)
  case (Cons h L)
  obtain h1 h2 where h: "h = (h1, h2)" by (cases h)
  have notin: "h1 \<notin> fst ` set L" using Cons.prems(1) h by simp
  have "f = h1 \<and> s = h2 \<or> g = h1 \<and> t = h2 \<or> f \<noteq> h1 \<and> g \<noteq> h1"
    using Cons.prems(2,3) h notin by (auto simp: image_iff)
  then show ?case
    using Cons.prems Cons.IH notin h by (auto simp: image_iff)
qed simp

lemma offsetof_bound:
  "(f, t) \<in> set L \<Longrightarrow> distinct (map fst L) \<Longrightarrow> offsetof L f + sizeof_ctype t \<le> sizeof_struct L"
  by (induction L) (auto simp: image_iff)


lemmas load_defs = load_def load16_def load32_def load64_def

lemma best_roundtrip: "best_wf q \<Longrightarrow> best_decode (best_encode q @ pad) = Some q"
  by (simp add: best_wf_def best_decode_def best_encode_def load_defs word_of_le_of_word)

lemma depth_roundtrip: "depth_wf q \<Longrightarrow> depth_decode (depth_encode q @ pad) = Some q"
  by (simp add: depth_wf_def depth_decode_def depth_encode_def load_defs word_of_le_of_word)

lemma best_decode_total: "72 \<le> length buf \<Longrightarrow> \<exists>q. best_decode buf = Some q"
  by (simp add: best_decode_def load_defs)

lemma depth_decode_total: "140 \<le> length buf \<Longrightarrow> \<exists>q. depth_decode buf = Some q"
  by (simp add: depth_decode_def load_defs)

lemma best_decode_wf: "best_decode buf = Some q \<Longrightarrow> best_wf q"
  by (auto simp: best_decode_def best_wf_def load_defs bind_eq_Some_conv split: if_splits)

lemma best_encode_decode:
  assumes "best_decode buf = Some q"
  shows "best_encode q = take 72 buf"
proof -
  have le: "72 \<le> length buf"
    using assms by (auto simp: best_decode_def load_defs bind_eq_Some_conv split: if_splits)
  have "best_encode q = take 8 buf @ take 12 (drop 8 buf) @ take 8 (drop 20 buf) @
     take 4 (drop 28 buf) @ take 8 (drop 32 buf) @ take 4 (drop 40 buf) @ take 8 (drop 44 buf) @
     take 4 (drop 52 buf) @ take 8 (drop 56 buf) @ take 4 (drop 64 buf) @ take 4 (drop 68 buf)"
    using assms le by (auto simp: best_decode_def best_encode_def load_defs le_of_word_of_le)
  also have "\<dots> = take (8 + (12 + (8 + (4 + (8 + (4 + (8 + (4 + (8 + (4 + 4)))))))))) buf"
    unfolding take_add drop_drop by simp
  finally show ?thesis by simp
qed

lemma depth_decode_wf: "depth_decode buf = Some q \<Longrightarrow> depth_wf q"
  by (auto simp: depth_decode_def depth_wf_def load_defs bind_eq_Some_conv split: if_splits)

lemma depth_encode_decode:
  assumes "depth_decode buf = Some q"
  shows "depth_encode q = take 140 buf"
proof -
  have le: "140 \<le> length buf"
    using assms by (auto simp: depth_decode_def load_defs bind_eq_Some_conv split: if_splits)
  have "depth_encode q = take 8 buf @ take 12 (drop 8 buf) @
     take 8 (drop 20 buf) @ take 4 (drop 28 buf) @
     take 8 (drop 32 buf) @ take 4 (drop 40 buf) @
     take 8 (drop 44 buf) @ take 4 (drop 52 buf) @
     take 8 (drop 56 buf) @ take 4 (drop 64 buf) @
     take 8 (drop 68 buf) @ take 4 (drop 76 buf) @
     take 8 (drop 80 buf) @ take 4 (drop 88 buf) @
     take 8 (drop 92 buf) @ take 4 (drop 100 buf) @
     take 8 (drop 104 buf) @ take 4 (drop 112 buf) @
     take 8 (drop 116 buf) @ take 4 (drop 124 buf) @
     take 8 (drop 128 buf) @ take 4 (drop 136 buf)"
    using assms le by (auto simp: depth_decode_def depth_encode_def load_defs le_of_word_of_le)
  also have "\<dots> = take (8 + (12 + (8 + (4 + (8 + (4 + (8 + (4 + (8 + (4 + (8 + (4 +
      (8 + (4 + (8 + (4 + (8 + (4 + (8 + (4 + (8 + 4))))))))))))))))))))) buf"
    unfolding take_add drop_drop by simp
  finally show ?thesis by simp
qed

section \<open>Properties\<close>

text \<open>
  The best-quote structure and its 72 wire bytes determine each other: a buffer reads
  as \<open>q\<close> exactly when it starts with the encoding of \<open>q\<close>, whose arrays have their
  declared lengths.
\<close>

theorem best_struct_roundtrip:
  "best_decode buf = Some q \<longleftrightarrow> (\<exists>pad. best_wf q \<and> buf = best_encode q @ pad)"
proof
  assume d: "best_decode buf = Some q"
  have "buf = best_encode q @ drop 72 buf"
    using best_encode_decode [OF d] by simp
  with best_decode_wf [OF d] show "\<exists>pad. best_wf q \<and> buf = best_encode q @ pad" by blast
qed (use best_roundtrip in blast)

text \<open>
  The depth structure and its 140 wire bytes determine each other, in the same way.
\<close>

theorem depth_struct_roundtrip:
  "depth_decode buf = Some q \<longleftrightarrow> (\<exists>pad. depth_wf q \<and> buf = depth_encode q @ pad)"
proof
  assume d: "depth_decode buf = Some q"
  have "buf = depth_encode q @ drop 140 buf"
    using depth_encode_decode [OF d] by simp
  with depth_decode_wf [OF d] show "\<exists>pad. depth_wf q \<and> buf = depth_encode q @ pad" by blast
qed (use depth_roundtrip in blast)

text \<open>
  An identifier of eight characters leaves no room for a terminating zero: read as a string it
  runs on into the generation time behind it.
\<close>

lemma fmt_s_run_on:
  assumes "0 \<notin> set cid" "cstring tm = Some t"
  shows "fmt_s (cid @ tm @ rest) 0 = Some (map (\<lambda>b. char_of (unat b)) cid @ t)"
  using assms(1) cstring_append [OF assms(2)] by (simp add: fmt_s_def cstring_run_on)

definition long_id_quote :: normal_best_quote where
  "long_id_quote = \<lparr>bq_contract_id = replicate 8 65, bq_gen_time = 57 # replicate 11 0,
     bq_last_price = 0, bq_match_tot_qty = 0, bq_turnover = 0, bq_open_interest = 0,
     bq_bid_price = 0, bq_bid_qty = 0, bq_ask_price = 0, bq_ask_qty = 0, bq_last_match_qty = 0\<rparr>"

end
