(* ===== verification/Report.thy ===== *)
theory Report
  imports NormalUdp
begin

text \<open>
  What every receive loop does with a decoded message: the decoder fills \<open>output_data\<close>,
  prices above \<open>0xffff\<close> are reset to zero in place, and one line is printed.  The decoder
  (\<open>packet_handler_full\<close>, \<open>packet_handler_payload\<close>) is a binary library without
  source; it is a parameter, and \<open>handler_ok\<close> says what the callers rely on.  The four
  programs differ in their line formats; the locale \<open>report_format\<close> is what they share.
\<close>

section \<open>The message decoder\<close>

text \<open>
  A decoder takes the input buffer and the output buffer and returns its result code and
  both buffers as it leaves them.
\<close>

type_synonym handler = "byte list \<Rightarrow> byte list \<Rightarrow> int \<times> byte list \<times> byte list"

abbreviation (input) BEST_QUOTE_MSG :: int where "BEST_QUOTE_MSG \<equiv> 1"
abbreviation (input) DEPTH_UPDATE_MSG :: int where "DEPTH_UPDATE_MSG \<equiv> 2"

text \<open>
  The callers pass a zeroed buffer of 256 bytes and read it as one of the two structures,
  the longer of which has 140 bytes: the decoder writes no further than that.
\<close>

definition handler_ok :: "handler \<Rightarrow> bool" where
  "handler_ok h \<longleftrightarrow>
     (\<forall>inp out. case h inp out of (r, inp', out') \<Rightarrow>
        length inp' = length inp \<and> length out' = length out \<and>
        drop 140 out' = drop 140 out)"

section \<open>The price filter\<close>

definition clip_field :: "byte list \<Rightarrow> nat \<Rightarrow> byte list option" where
  "clip_field buf off = do {
     p \<leftarrow> load64 buf off;
     if dbl_gt p 0xffff then store64 buf off 0 else Some buf
   }"

fun clip_offsets :: "nat list \<Rightarrow> byte list \<Rightarrow> byte list option" where
  "clip_offsets [] buf = Some buf"
| "clip_offsets (off # offs) buf = do {
     buf \<leftarrow> clip_field buf off;
     clip_offsets offs buf
   }"

definition clip_best :: "byte list \<Rightarrow> byte list option" where
  "clip_best = clip_offsets (map (offsetof best_layout)
     [Bq_bid_price, Bq_ask_price, Bq_last_price])"

definition clip_depth :: "byte list \<Rightarrow> byte list option" where
  "clip_depth = clip_offsets (map (offsetof depth_layout)
     [Du_bid1_price, Du_bid2_price, Du_bid3_price, Du_bid4_price, Du_bid5_price,
      Du_ask1_price, Du_ask2_price, Du_ask3_price, Du_ask4_price, Du_ask5_price])"

section \<open>Parts of a printed line\<close>

text \<open>\<open>%d_%.1f x %.1f_%d\<close>: the best bid and ask with their quantities.\<close>

definition best_book :: "normal_best_quote \<Rightarrow> string" where
  "best_book q =
     fmt_d (bq_bid_qty q) @ ''_'' @ fmt_f 1 (bq_bid_price q) @ '' x '' @
     fmt_f 1 (bq_ask_price q) @ ''_'' @ fmt_d (bq_ask_qty q)"

text \<open>\<open>%.1f/%d\<close>: the last price and the quantity of the last match.\<close>

definition best_last :: "normal_best_quote \<Rightarrow> string" where
  "best_last q = fmt_f 1 (bq_last_price q) @ ''/'' @ fmt_d (bq_last_match_qty q)"

definition bid_level :: "u32 \<Rightarrow> double \<Rightarrow> string" where
  "bid_level qty price = fmt_d qty @ ''_'' @ fmt_f 1 price"

definition ask_level :: "double \<Rightarrow> u32 \<Rightarrow> string" where
  "ask_level price qty = fmt_f 1 price @ ''_'' @ fmt_d qty"

text \<open>The ten levels: bids from the fifth to the first, asks from the first to the fifth.\<close>

definition deep_book :: "normal_depth_update \<Rightarrow> string" where
  "deep_book q =
     bid_level (du_bid5_qty q) (du_bid5_price q) @ ''|'' @
     bid_level (du_bid4_qty q) (du_bid4_price q) @ ''|'' @
     bid_level (du_bid3_qty q) (du_bid3_price q) @ ''|'' @
     bid_level (du_bid2_qty q) (du_bid2_price q) @ ''|'' @
     bid_level (du_bid1_qty q) (du_bid1_price q) @ '' x '' @
     ask_level (du_ask1_price q) (du_ask1_qty q) @ ''|'' @
     ask_level (du_ask2_price q) (du_ask2_qty q) @ ''|'' @
     ask_level (du_ask3_price q) (du_ask3_qty q) @ ''|'' @
     ask_level (du_ask4_price q) (du_ask4_qty q) @ ''|'' @
     ask_level (du_ask5_price q) (du_ask5_qty q)"

section \<open>Dispatch on the result code\<close>

definition newline :: string where
  "newline = [CHR 0x0A]"

definition decode_err_line :: "int \<Rightarrow> string" where
  "decode_err_line sz = ''<ERROR> packet_decode_err: '' @ show_int sz @ newline"

definition dispatch ::
  "(byte list \<Rightarrow> string option) \<Rightarrow> (byte list \<Rightarrow> string option) \<Rightarrow>
   handler \<Rightarrow> byte list \<Rightarrow> int \<Rightarrow> (byte list \<times> string) option" where
  "dispatch best_line deep_line h inp sz =
     (case h inp (replicate 256 0) of (result, inp', out) \<Rightarrow>
        if result = BEST_QUOTE_MSG then do {
          out \<leftarrow> clip_best out;
          line \<leftarrow> best_line out;
          Some (inp', line)
        }
        else if result = DEPTH_UPDATE_MSG then do {
          out \<leftarrow> clip_depth out;
          line \<leftarrow> deep_line out;
          Some (inp', line)
        }
        else Some (inp', decode_err_line sz))"

section \<open>The filter on decoded structures\<close>

definition clip_price :: "double \<Rightarrow> double" where
  "clip_price p = (if dbl_gt p 0xffff then 0 else p)"

definition clip_best_quote :: "normal_best_quote \<Rightarrow> normal_best_quote" where
  "clip_best_quote q = q\<lparr>bq_bid_price := clip_price (bq_bid_price q),
     bq_ask_price := clip_price (bq_ask_price q),
     bq_last_price := clip_price (bq_last_price q)\<rparr>"

definition clip_depth_update :: "normal_depth_update \<Rightarrow> normal_depth_update" where
  "clip_depth_update q = q\<lparr>
     du_bid1_price := clip_price (du_bid1_price q), du_bid2_price := clip_price (du_bid2_price q),
     du_bid3_price := clip_price (du_bid3_price q), du_bid4_price := clip_price (du_bid4_price q),
     du_bid5_price := clip_price (du_bid5_price q),
     du_ask1_price := clip_price (du_ask1_price q), du_ask2_price := clip_price (du_ask2_price q),
     du_ask3_price := clip_price (du_ask3_price q), du_ask4_price := clip_price (du_ask4_price q),
     du_ask5_price := clip_price (du_ask5_price q)\<rparr>"

section \<open>Lemmas about the filter\<close>

lemma dval_of_0: "dval_of 0 = DFin False 0 (- 1074)"
  by (simp add: dval_of_def dbl_exp_def dbl_man_def dbl_sign_def)

lemma not_dbl_gt_0: "\<not> dbl_gt 0 0xffff"
  by (simp add: dbl_gt_65535_bits price_limit_bits_def)

lemma clip_price_not_gt: "\<not> dbl_gt (clip_price p) 0xffff"
  by (simp add: clip_price_def not_dbl_gt_0)

lemma clip_price_idem [simp]: "clip_price (clip_price p) = clip_price p"
  using clip_price_not_gt [of p] by (simp add: clip_price_def [of "clip_price p"])

lemma clip_field_spec:
  assumes "off + 8 \<le> length buf"
  obtains buf' where "clip_field buf off = Some buf'" "length buf' = length buf"
    "load64 buf' off = map_option clip_price (load64 buf off)"
    "\<And>n off'. off' + n \<le> off \<or> off + 8 \<le> off' \<Longrightarrow> load n buf' off' = load n buf off'"
proof -
  obtain p where p: "load64 buf off = Some p" using load64_total [OF assms] by blast
  obtain b where b: "store64 buf off 0 = Some b" using store64_total [OF assms] by blast
  show thesis
  proof (cases "dbl_gt p 0xffff")
    case True
    show thesis
      by (rule that [of b])
        (use True p b in \<open>auto simp: clip_field_def clip_price_def store64_length
           load64_store64_same load_store64_disjoint\<close>)
  next
    case False
    show thesis
      by (rule that [of buf]) (use False p in \<open>auto simp: clip_field_def clip_price_def\<close>)
  qed
qed

lemma clip_offsets_total:
  "(\<forall>o'\<in>set offs. o' + 8 \<le> length buf) \<Longrightarrow>
   \<exists>buf'. clip_offsets offs buf = Some buf' \<and> length buf' = length buf"
proof (induction offs arbitrary: buf)
  case (Cons off offs)
  then have "off + 8 \<le> length buf" by simp
  then obtain b where b: "clip_field buf off = Some b" "length b = length buf"
    by (rule clip_field_spec)
  then show ?case using Cons.IH [of b] Cons.prems by simp
qed simp

lemma clip_offsets_frame:
  assumes "clip_offsets offs buf = Some buf'" "\<forall>o'\<in>set offs. o' + 8 \<le> length buf"
    "\<forall>o'\<in>set offs. off' + n \<le> o' \<or> o' + 8 \<le> off'"
  shows "load n buf' off' = load n buf off'"
  using assms
proof (induction offs arbitrary: buf)
  case (Cons off offs)
  then have "off + 8 \<le> length buf" by simp
  then obtain b where b: "clip_field buf off = Some b" "length b = length buf"
    "\<And>n off'. off' + n \<le> off \<or> off + 8 \<le> off' \<Longrightarrow> load n b off' = load n buf off'"
    by (rule clip_field_spec) blast
  have "load n buf' off' = load n b off'"
    by (rule Cons.IH) (use Cons.prems b in auto)
  also have "\<dots> = load n buf off'" by (rule b(3)) (use Cons.prems in auto)
  finally show ?case .
qed simp

text \<open>Offsets that are at least eight bytes apart.\<close>

fun spaced :: "nat list \<Rightarrow> bool" where
  "spaced [] = True"
| "spaced (off # offs) = ((\<forall>o'\<in>set offs. off + 8 \<le> o' \<or> o' + 8 \<le> off) \<and> spaced offs)"

lemma clip_offsets_hit:
  assumes "clip_offsets offs buf = Some buf'" "\<forall>o'\<in>set offs. o' + 8 \<le> length buf"
    "spaced offs" "off \<in> set offs"
  shows "load64 buf' off = map_option clip_price (load64 buf off)"
  using assms
proof (induction offs arbitrary: buf)
  case (Cons o1 offs)
  then have "o1 + 8 \<le> length buf" by simp
  then obtain b where b: "clip_field buf o1 = Some b" "length b = length buf"
    "load64 b o1 = map_option clip_price (load64 buf o1)"
    "\<And>n off'. off' + n \<le> o1 \<or> o1 + 8 \<le> off' \<Longrightarrow> load n b off' = load n buf off'"
    by (rule clip_field_spec) blast
  have rest: "clip_offsets offs b = Some buf'" using Cons.prems(1) b(1) by simp
  have rng: "\<forall>o'\<in>set offs. o' + 8 \<le> length b" using Cons.prems(2) b(2) by simp
  show ?case
  proof (cases "off = o1")
    case True
    have "load 8 buf' o1 = load 8 b o1"
      by (rule clip_offsets_frame [OF rest rng]) (use Cons.prems(3) in auto)
    with True b(3) show ?thesis by (simp add: load64_def)
  next
    case False
    then have mem: "off \<in> set offs" using Cons.prems(4) by simp
    have "load64 buf' off = map_option clip_price (load64 b off)"
      by (rule Cons.IH [OF rest rng]) (use Cons.prems(3) mem in auto)
    moreover have "load 8 b off = load 8 buf off"
      by (rule b(4)) (use Cons.prems(3) mem in auto)
    ultimately show ?thesis by (simp add: load64_def)
  qed
qed simp

lemma clip_best_offsets: "clip_best = clip_offsets [44, 56, 20]"
  by (simp add: clip_best_def)

lemma clip_depth_offsets:
  "clip_depth = clip_offsets [20, 32, 44, 56, 68, 80, 92, 104, 116, 128]"
  by (simp add: clip_depth_def)

lemma clip_offsets_drop:
  assumes "clip_offsets offs buf = Some buf'" "\<forall>o'\<in>set offs. o' + 8 \<le> k" "k \<le> length buf"
  shows "drop k buf' = drop k buf"
proof -
  have rng: "\<forall>o'\<in>set offs. o' + 8 \<le> length buf" using assms(2,3) by auto
  have len: "length buf' = length buf"
    using clip_offsets_total [OF rng] assms(1) by auto
  have "load (length buf - k) buf' k = load (length buf - k) buf k"
    by (rule clip_offsets_frame [OF assms(1) rng]) (use assms(2) in auto)
  then show ?thesis using assms(3) by (simp add: load_def len)
qed

lemma clip_best_refines:
  assumes "best_decode buf = Some q"
  obtains buf' where "clip_best buf = Some buf'" "length buf' = length buf"
    "best_decode buf' = Some (clip_best_quote q)" "drop 72 buf' = drop 72 buf"
proof -
  have len: "72 \<le> length buf"
    using assms by (auto simp: best_decode_def load_defs bind_eq_Some_conv split: if_splits)
  have rng: "\<forall>o'\<in>set [44, 56, 20]. o' + 8 \<le> length buf" using len by simp
  obtain b where b: "clip_offsets [44, 56, 20] buf = Some b" "length b = length buf"
    using clip_offsets_total [OF rng] by blast
  note hit = clip_offsets_hit [OF b(1) rng] and frame = clip_offsets_frame [OF b(1) rng]
  have "best_decode b = Some (clip_best_quote q)"
    using assms unfolding best_decode_def load32_def
    by (auto simp: hit frame load64_def [of b 32] load64_def [of buf 32] bind_eq_Some_conv
        clip_best_quote_def)
  moreover have "drop 72 b = drop 72 buf"
    by (rule clip_offsets_drop [OF b(1)]) (use len in auto)
  ultimately show thesis using b that by (simp add: clip_best_offsets)
qed

lemma clip_depth_refines:
  assumes "depth_decode buf = Some q"
  obtains buf' where "clip_depth buf = Some buf'" "length buf' = length buf"
    "depth_decode buf' = Some (clip_depth_update q)" "drop 140 buf' = drop 140 buf"
proof -
  let ?offs = "[20, 32, 44, 56, 68, 80, 92, 104, 116, 128]"
  have len: "140 \<le> length buf"
    using assms by (auto simp: depth_decode_def load_defs bind_eq_Some_conv split: if_splits)
  have rng: "\<forall>o'\<in>set ?offs. o' + 8 \<le> length buf" using len by simp
  obtain b where b: "clip_offsets ?offs buf = Some b" "length b = length buf"
    using clip_offsets_total [OF rng] by blast
  note hit = clip_offsets_hit [OF b(1) rng] and frame = clip_offsets_frame [OF b(1) rng]
  have "depth_decode b = Some (clip_depth_update q)"
    using assms unfolding depth_decode_def load32_def
    by (auto simp: hit frame bind_eq_Some_conv clip_depth_update_def)
  moreover have "drop 140 b = drop 140 buf"
    by (rule clip_offsets_drop [OF b(1)]) (use len in auto)
  ultimately show thesis using b that by (simp add: clip_depth_offsets)
qed

lemma clip_offsets_take:
  assumes "clip_offsets offs buf = Some buf'" "\<forall>o'\<in>set offs. o' + 8 \<le> length buf"
    "\<forall>o'\<in>set offs. k \<le> o'" "k \<le> length buf"
  shows "take k buf' = take k buf"
proof -
  have len: "length buf' = length buf"
    using clip_offsets_total [OF assms(2)] assms(1) by auto
  have "load k buf' 0 = load k buf 0"
    by (rule clip_offsets_frame [OF assms(1,2)]) (use assms(3) in auto)
  then show ?thesis using assms(4) by (simp add: load_def len)
qed

text \<open>A recognised message is printed from the filtered structure.\<close>

lemma dispatch_best:
  assumes h: "h inp (replicate 256 0) = (BEST_QUOTE_MSG, inp', out)"
    and q: "best_decode out = Some q"
  obtains out' where "best_decode out' = Some (clip_best_quote q)" "take 20 out' = take 20 out"
    "dispatch bl dl h inp sz = map_option (\<lambda>line. (inp', line)) (bl out')"
proof -
  obtain b where b: "clip_best out = Some b" "best_decode b = Some (clip_best_quote q)"
    using q by (rule clip_best_refines)
  have len: "72 \<le> length out"
    using q by (auto simp: best_decode_def load_defs bind_eq_Some_conv split: if_splits)
  have "take 20 b = take 20 out"
    using b(1) len by (intro clip_offsets_take [of "[44, 56, 20]"]) (auto simp: clip_best_offsets)
  moreover have "dispatch bl dl h inp sz = map_option (\<lambda>line. (inp', line)) (bl b)"
    using h b(1) by (cases "bl b") (simp_all add: dispatch_def)
  ultimately show thesis using b(2) that by blast
qed

lemma dispatch_deep:
  assumes h: "h inp (replicate 256 0) = (DEPTH_UPDATE_MSG, inp', out)"
    and q: "depth_decode out = Some q"
  obtains out' where "depth_decode out' = Some (clip_depth_update q)" "take 20 out' = take 20 out"
    "dispatch bl dl h inp sz = map_option (\<lambda>line. (inp', line)) (dl out')"
proof -
  obtain b where b: "clip_depth out = Some b" "depth_decode b = Some (clip_depth_update q)"
    using q by (rule clip_depth_refines)
  have len: "140 \<le> length out"
    using q by (auto simp: depth_decode_def load_defs bind_eq_Some_conv split: if_splits)
  have "take 20 b = take 20 out"
    using b(1) len
    by (intro clip_offsets_take [of "[20, 32, 44, 56, 68, 80, 92, 104, 116, 128]"])
      (auto simp: clip_depth_offsets)
  moreover have "dispatch bl dl h inp sz = map_option (\<lambda>line. (inp', line)) (dl b)"
    using h b(1) by (cases "dl b") (simp_all add: dispatch_def)
  ultimately show thesis using b(2) that by blast
qed

section \<open>Line formats\<close>

definition terminated :: "byte list \<Rightarrow> bool" where
  "terminated out \<longleftrightarrow> length out = 256 \<and> out ! 255 = 0"

locale report_format =
  fixes best_line deep_line :: "byte list \<Rightarrow> string option"
  assumes best_line_total: "terminated out \<Longrightarrow> \<exists>s. best_line out = Some s"
    and deep_line_total: "terminated out \<Longrightarrow> \<exists>s. deep_line out = Some s"
begin

lemma dispatch_total:
  assumes ok: "handler_ok h"
  shows "\<exists>inp' line. dispatch best_line deep_line h inp sz = Some (inp', line) \<and>
           length inp' = length inp"
proof -
  obtain r inp' out where h: "h inp (replicate 256 0) = (r, inp', out)"
    by (metis prod_cases3)
  with ok have len: "length inp' = length inp" "length out = 256"
    and tl: "drop 140 out = replicate 116 0"
    unfolding handler_ok_def by (fastforce dest: spec [of _ inp] spec [of _ "replicate 256 0"])+
  obtain qb where "best_decode out = Some qb" using best_decode_total [of out] len by auto
  then obtain ob where ob: "clip_best out = Some ob" "length ob = length out"
    "drop 72 ob = drop 72 out" by (rule clip_best_refines)
  obtain qd where "depth_decode out = Some qd" using depth_decode_total [of out] len by auto
  then obtain od where od: "clip_depth out = Some od" "length od = length out"
    "drop 140 od = drop 140 out" by (rule clip_depth_refines)
  have last: "out ! 255 = 0"
    using arg_cong [OF tl, of "\<lambda>xs. xs ! 115"] len by simp
  have "ob ! 255 = 0"
    using arg_cong [OF ob(3), of "\<lambda>xs. xs ! 183"] ob(2) len last by simp
  moreover have "od ! 255 = 0"
    using arg_cong [OF od(3), of "\<lambda>xs. xs ! 115"] od(2) len last by simp
  ultimately have "terminated ob" "terminated od"
    using ob(2) od(2) len by (simp_all add: terminated_def)
  then obtain sb sd where "best_line ob = Some sb" "deep_line od = Some sd"
    using best_line_total deep_line_total by blast
  with h len ob od show ?thesis by (simp add: dispatch_def)
qed

end

lemma fmt_s_total:
  assumes "terminated out" "off < 256"
  shows "\<exists>s. fmt_s out off = Some s"
proof -
  have "drop off out ! (255 - off) = 0" "255 - off < length (drop off out)"
    using assms by (simp_all add: terminated_def)
  then have "0 \<in> set (drop off out)" by (metis nth_mem)
  then show ?thesis unfolding fmt_s_def by (rule cstring_total)
qed

lemma terminated_parts:
  assumes "terminated out"
  obtains q d cid tm where "best_decode out = Some q" "depth_decode out = Some d"
    "fmt_s out 0 = Some cid" "fmt_s out 8 = Some tm"
proof -
  have "length out = 256" using assms by (simp add: terminated_def)
  then obtain q d where "best_decode out = Some q" "depth_decode out = Some d"
    using best_decode_total [of out] depth_decode_total [of out] by auto
  moreover obtain cid tm where "fmt_s out 0 = Some cid" "fmt_s out 8 = Some tm"
    using fmt_s_total [OF assms, of 0] fmt_s_total [OF assms, of 8] by auto
  ultimately show thesis by (rule that)
qed

lemmas clip_eval = clip_best_quote_def clip_depth_update_def clip_price_def dbl_gt_65535_bits
  price_limit_bits_def infinity_bits_def

section \<open>Properties\<close>

text \<open>
  C11.  Filtering the prices of a best quote in place is the filter on the decoded
  structure: the three prices above 65535 become zero, every other member and every byte
  behind the structure keeps its value, and no access leaves the buffer.
\<close>

theorem best_filter_refines:
  assumes "best_decode buf = Some q"
  shows "\<exists>buf'. clip_best buf = Some buf' \<and> length buf' = length buf \<and>
    best_decode buf' = Some (clip_best_quote q) \<and> drop 72 buf' = drop 72 buf"
  using assms by (rule clip_best_refines) blast

theorem best_filter_refines_witness:
  "\<exists>buf'. clip_best (best_encode long_id_quote @ [9]) = Some buf' \<and>
    best_decode buf' = Some (clip_best_quote long_id_quote) \<and> drop 72 buf' = [9]"
proof -
  have wf: "best_wf long_id_quote" by (simp add: long_id_quote_def best_wf_def)
  have len: "length (best_encode long_id_quote) = 72"
    using wf by (simp add: best_encode_def best_wf_def)
  show ?thesis
    using best_filter_refines [OF best_roundtrip [OF wf, of "[9]"]] len by auto
qed

text \<open>
  C20.  Filtering the ten prices of a depth update in place is the filter on the decoded
  structure: each price above 65535 becomes zero, every other member and every byte behind
  the structure keeps its value, and no access leaves the buffer.
\<close>

theorem depth_filter_refines:
  assumes "depth_decode buf = Some q"
  shows "\<exists>buf'. clip_depth buf = Some buf' \<and> length buf' = length buf \<and>
    depth_decode buf' = Some (clip_depth_update q) \<and> drop 140 buf' = drop 140 buf"
  using assms by (rule clip_depth_refines) blast

theorem depth_filter_refines_witness:
  "\<exists>q buf'. depth_decode (replicate 140 0x7E @ [9]) = Some q \<and> clip_depth (replicate 140 0x7E @ [9]) = Some buf' \<and>
    depth_decode buf' = Some (clip_depth_update q) \<and> drop 140 buf' = [9]"
proof -
  let ?buf = "replicate 140 0x7E @ [9] :: byte list"
  obtain q where q: "depth_decode ?buf = Some q" using depth_decode_total [of ?buf] by auto
  from depth_filter_refines [OF q] q show ?thesis by auto
qed

text \<open>
  After the filter a price that is a number is at most 65535, and a number that was
  at most 65535 is kept bit by bit.
\<close>

theorem filtered_price_bound:
  assumes "clip_field buf off = Some buf'" "load64 buf off = Some p" "dval_real (dval_of p) = Some x"
  shows "\<exists>p' x'. load64 buf' off = Some p' \<and> dval_real (dval_of p') = Some x' \<and>
    x' \<le> 65535 \<and> (x \<le> 65535 \<longrightarrow> p' = p)"
proof (cases "dbl_gt p 0xffff")
  case True
  then have "load64 buf' off = Some 0"
    using assms(1,2) load64_store64_same by (simp add: clip_field_def)
  moreover have "65535 < x" using True dval_gt_real [OF assms(3)] by (simp add: dbl_gt_def)
  ultimately show ?thesis by (simp add: dval_of_0)
next
  case False
  then have "buf' = buf" using assms(1,2) by (simp add: clip_field_def)
  moreover have "x \<le> 65535" using False dval_gt_real [OF assms(3)] by (auto simp: dbl_gt_def)
  ultimately show ?thesis using assms(2,3) by auto
qed

end
