(* ===== verification/RxLoop.thy ===== *)
theory RxLoop
  imports Report
begin

text \<open>
  The frame path and the endless receive loop shared by the three single-threaded
  clients.  A loop body is a step from the program's state and the result of one receive
  call to the new state, the lines printed and whether the loop goes on; \<^term>\<open>None\<close> is
  undefined behaviour.  The locale \<open>rx_loop\<close> is the contract between a body and the
  loop: a body that never faults under an invariant it keeps gives a loop that never
  faults, whatever the network delivers.
\<close>

section \<open>The loop\<close>

text \<open>
  How a call or loop body leaves the program: it goes on, it exits with a status, or it
  dies in \<open>abort()\<close>.
\<close>

datatype flow = Continue | Exit int | Abort

text \<open>A line on standard output, one on standard error, a \<open>perror\<close> call.\<close>

datatype msg = Out string | Err string | Perror string

text \<open>The result of a receive call: its return value and the bytes it wrote.\<close>

datatype rx_result = Rx (rx_ret: int) (rx_data: "byte list")

type_synonym ('s, 'i) body = "'s \<Rightarrow> 'i \<Rightarrow> ('s \<times> msg list \<times> flow) option"

fun run_loop :: "('s, 'i) body \<Rightarrow> 's \<Rightarrow> 'i list \<Rightarrow> ('s \<times> msg list \<times> flow) option" where
  "run_loop step s [] = Some (s, [], Continue)"
| "run_loop step s (i # is) = do {
     (s', out, fl) \<leftarrow> step s i;
     if fl = Continue then do {
       (s'', out', fl') \<leftarrow> run_loop step s' is;
       Some (s'', out @ out', fl')
     }
     else Some (s', out, fl)
   }"

section \<open>The frame path\<close>

abbreviation (input) ETHTYPE_OFFSET :: nat where "ETHTYPE_OFFSET \<equiv> 12"
abbreviation (input) DOT1Q_ETHTYPE_OFFSET :: nat where "DOT1Q_ETHTYPE_OFFSET \<equiv> 16"
abbreviation (input) IP_ID_OFFSET :: nat where "IP_ID_OFFSET \<equiv> 18"
abbreviation (input) DST_IP_OFFSET :: nat where "DST_IP_OFFSET \<equiv> 30"
abbreviation (input) IPV4_PACKET :: u16 where "IPV4_PACKET \<equiv> 0x0008"
abbreviation (input) DOT1Q_FRAME :: u16 where "DOT1Q_FRAME \<equiv> 0x0081"
abbreviation (input) DST_IP_FILTER :: u32 where "DST_IP_FILTER \<equiv> 0xefefef08"

record rx_state =
  rx_buf :: "byte list"
  rx_prev_ip_id :: u16

text \<open>
  Where the IPv4 header starts: \<open>Some 0\<close> for an untagged frame, \<open>Some 4\<close> behind one
  802.1Q tag, \<open>None\<close> for any other frame.
\<close>

definition frame_shift :: "byte list \<Rightarrow> nat option option" where
  "frame_shift buf = do {
     ethtype \<leftarrow> load16 buf ETHTYPE_OFFSET;
     if ethtype = IPV4_PACKET then Some (Some 0)
     else if ethtype = DOT1Q_FRAME then do {
       dot1q_ethtype \<leftarrow> load16 buf DOT1Q_ETHTYPE_OFFSET;
       Some (if dot1q_ethtype = IPV4_PACKET then Some 4 else None)
     }
     else Some None
   }"

definition gap_line :: "u16 \<Rightarrow> u16 \<Rightarrow> string" where
  "gap_line prev latest =
     ''<WARN> IP_ID sequence number gap previous/latest: '' @
     show_nat (unat prev) @ ''/'' @ show_nat (unat latest) @ '' '' @ newline"

definition gap_check :: "u16 \<Rightarrow> u16 \<Rightarrow> msg list" where
  "gap_check prev latest = (if prev + 1 \<noteq> latest then [Out (gap_line prev latest)] else [])"

text \<open>What a frame of sufficient size goes through, from the filter to the printed line.\<close>

definition report_frame ::
  "(u16 \<Rightarrow> byte list \<Rightarrow> string option) \<Rightarrow> (u16 \<Rightarrow> byte list \<Rightarrow> string option) \<Rightarrow>
   handler \<Rightarrow> rx_state \<Rightarrow> int \<Rightarrow> (rx_state \<times> msg list) option" where
  "report_frame best_line deep_line h st sz = do {
     shift \<leftarrow> frame_shift (rx_buf st);
     case shift of
       None \<Rightarrow> Some (st, [])
     | Some dot1q_offset \<Rightarrow> do {
         dst \<leftarrow> load32 (rx_buf st) (dot1q_offset + DST_IP_OFFSET);
         if ntohl dst \<noteq> DST_IP_FILTER then Some (st, [])
         else do {
           ip_id \<leftarrow> load16 (rx_buf st) (dot1q_offset + IP_ID_OFFSET);
           let last_ip_id = ntohs ip_id;
           (buf', line) \<leftarrow>
             dispatch (best_line last_ip_id) (deep_line last_ip_id) h (rx_buf st) sz;
           Some (\<lparr>rx_buf = buf', rx_prev_ip_id = last_ip_id\<rparr>,
                 gap_check (rx_prev_ip_id st) last_ip_id @ [Out line])
         }
       }
   }"

definition process_frame ::
  "(u16 \<Rightarrow> byte list \<Rightarrow> string option) \<Rightarrow> (u16 \<Rightarrow> byte list \<Rightarrow> string option) \<Rightarrow>
   handler \<Rightarrow> rx_state \<Rightarrow> int \<Rightarrow> (rx_state \<times> msg list) option" where
  "process_frame best_line deep_line h st sz =
     (if 64 < sz then report_frame best_line deep_line h st sz else Some (st, []))"

section \<open>The loop contract\<close>

lemma run_loop_flow:
  assumes "run_loop step s rs = Some (s', out, fl)" "P Continue"
    and "\<And>s r s' out fl. step s r = Some (s', out, fl) \<Longrightarrow> P fl"
  shows "P fl"
  using assms(1)
proof (induction rs arbitrary: s out)
  case (Cons r rs)
  obtain s1 o1 f1 where st: "step s r = Some (s1, o1, f1)"
    using Cons.prems by (cases "step s r") auto
  then show ?case
    using Cons assms(3) [OF st] by (cases f1) (auto simp: bind_eq_Some_conv)
qed (use assms(2) in simp)

locale rx_loop =
  fixes step :: "'h \<Rightarrow> 's \<Rightarrow> 'i \<Rightarrow> ('s \<times> msg list \<times> flow) option"
    and ok :: "'h \<Rightarrow> bool" and inv :: "'s \<Rightarrow> bool"
  assumes step_ok: "ok h \<Longrightarrow> inv s \<Longrightarrow>
    \<exists>s' out fl. step h s i = Some (s', out, fl) \<and> (fl = Continue \<longrightarrow> inv s')"
begin

lemma run_ok:
  "ok h \<Longrightarrow> inv s \<Longrightarrow>
   \<exists>s' out fl. run_loop (step h) s is = Some (s', out, fl) \<and> (fl = Continue \<longrightarrow> inv s')"
proof (induction "is" arbitrary: s)
  case (Cons i "is")
  obtain s' out fl where s': "step h s i = Some (s', out, fl)" "fl = Continue \<longrightarrow> inv s'"
    using step_ok [OF Cons.prems] by blast
  show ?case
  proof (cases fl)
    case Continue
    with s' Cons.IH [OF Cons.prems(1), of s'] show ?thesis by auto
  qed (use s' in auto)
qed simp

end

text \<open>Frames of the filter's multicast group, by their bytes on the wire.\<close>

definition group_bytes :: "byte list" where
  "group_bytes = [239, 239, 239, 8]"

lemma ntohl_filter_iff:
  assumes "length bs = 4"
  shows "ntohl (word_of_le bs) = DST_IP_FILTER \<longleftrightarrow> bs = group_bytes"
proof
  assume "ntohl (word_of_le bs) = DST_IP_FILTER"
  then have "bswap32 (word_of_le bs) = 0xefefef08" by (simp add: ntohl_def)
  then have "word_of_le bs = bswap32 0xefefef08" by (metis bswap32_bswap32)
  also have "\<dots> = word_of_le group_bytes"
    by (simp add: bswap32_def le_of_word_def word_of_le_def group_bytes_def)
  finally show "bs = group_bytes"
    using u32f.dec_inject [of bs group_bytes] assms by (simp add: group_bytes_def)
next
  assume "bs = group_bytes"
  then show "ntohl (word_of_le bs) = DST_IP_FILTER"
    by (simp add: ntohl_def bswap32_def le_of_word_def word_of_le_def group_bytes_def)
qed

lemma frame_shift_total: "18 \<le> length buf \<Longrightarrow> \<exists>r. frame_shift buf = Some r"
  using load16_total [of 12 buf] load16_total [of 16 buf] by (auto simp: frame_shift_def)

lemma frame_shift_le: "frame_shift buf = Some (Some k) \<Longrightarrow> k = 0 \<or> k = 4"
  by (auto simp: frame_shift_def bind_eq_Some_conv split: if_splits)

lemma report_frame_total:
  assumes fmt: "\<And>i. report_format (best_line i) (deep_line i)"
    and ok: "handler_ok h" and len: "38 \<le> length (rx_buf st)"
  shows "\<exists>st' out. report_frame best_line deep_line h st sz = Some (st', out) \<and>
           length (rx_buf st') = length (rx_buf st)"
proof -
  obtain r where r: "frame_shift (rx_buf st) = Some r"
    using frame_shift_total [of "rx_buf st"] len by auto
  show ?thesis
  proof (cases r)
    case None
    with r show ?thesis by (simp add: report_frame_def)
  next
    case (Some k)
    have k: "k \<le> 4" using frame_shift_le [of "rx_buf st" k] r Some by auto
    obtain d where d: "load32 (rx_buf st) (k + 30) = Some d"
      using load32_total [of "k + 30" "rx_buf st"] k len by auto
    obtain w where w: "load16 (rx_buf st) (k + 18) = Some w"
      using load16_total [of "k + 18" "rx_buf st"] k len by auto
    obtain b line where "dispatch (best_line (ntohs w)) (deep_line (ntohs w)) h (rx_buf st) sz =
        Some (b, line)" "length b = length (rx_buf st)"
      using report_format.dispatch_total [OF fmt ok] by blast
    with r Some d w show ?thesis by (simp add: report_frame_def Let_def)
  qed
qed

lemma process_frame_total:
  assumes fmt: "\<And>i. report_format (best_line i) (deep_line i)"
    and ok: "handler_ok h" and len: "64 < length (rx_buf st)"
  shows "\<exists>st' out. process_frame best_line deep_line h st sz = Some (st', out) \<and>
           length (rx_buf st') = length (rx_buf st)"
  using report_frame_total [of best_line deep_line, OF fmt ok, of st sz] len
  by (simp add: process_frame_def)

text \<open>A frame passes the filter when its type and destination do.\<close>

definition in_group :: "byte list \<Rightarrow> nat \<Rightarrow> bool" where
  "in_group buf k \<longleftrightarrow> frame_shift buf = Some (Some k) \<and> load 4 buf (k + 30) = Some group_bytes"

lemma report_frame_skips:
  assumes "38 \<le> length (rx_buf st)" "\<forall>k. \<not> in_group (rx_buf st) k"
  shows "report_frame best_line deep_line h st sz = Some (st, [])"
proof -
  obtain r where r: "frame_shift (rx_buf st) = Some r"
    using frame_shift_total [of "rx_buf st"] assms by auto
  show ?thesis
  proof (cases r)
    case None
    with r show ?thesis by (simp add: report_frame_def)
  next
    case (Some k)
    have k: "k \<le> 4" using frame_shift_le [of "rx_buf st" k] r Some by auto
    obtain bs where bs: "load 4 (rx_buf st) (k + 30) = Some bs"
      using k assms(1) by (auto simp: load_def)
    have "bs \<noteq> group_bytes" using assms(2) r Some bs by (auto simp: in_group_def)
    with ntohl_filter_iff [OF load_length [OF bs]] r Some bs show ?thesis
      by (simp add: report_frame_def load32_def)
  qed
qed

lemma process_frame_skips:
  assumes "64 < length (rx_buf st)" "sz \<le> 64 \<or> (\<forall>k. \<not> in_group (rx_buf st) k)"
  shows "process_frame best_line deep_line h st sz = Some (st, [])"
  using assms report_frame_skips [of st best_line deep_line h sz]
  by (auto simp: process_frame_def)

lemma report_frame_accepts:
  assumes "in_group (rx_buf st) k"
    and ip_id: "load16 (rx_buf st) (k + 18) = Some w"
    and disp: "dispatch (best_line (ntohs w)) (deep_line (ntohs w)) h (rx_buf st) sz = Some (b, line)"
  shows "report_frame best_line deep_line h st sz =
    Some (\<lparr>rx_buf = b, rx_prev_ip_id = ntohs w\<rparr>,
          gap_check (rx_prev_ip_id st) (ntohs w) @ [Out line])"
proof -
  from assms(1) have "load32 (rx_buf st) (k + 30) = Some (word_of_le group_bytes)"
    and fs: "frame_shift (rx_buf st) = Some (Some k)"
    by (simp_all add: in_group_def load32_def)
  moreover have "ntohl (word_of_le group_bytes) = DST_IP_FILTER"
    by (subst ntohl_filter_iff) (simp_all add: group_bytes_def)
  ultimately show ?thesis
    using ip_id disp by (simp add: report_frame_def Let_def)
qed

lemma process_frame_accepts:
  assumes "64 < sz" "in_group (rx_buf st) k"
    and "load16 (rx_buf st) (k + 18) = Some w"
    and "dispatch (best_line (ntohs w)) (deep_line (ntohs w)) h (rx_buf st) sz = Some (b, line)"
  shows "process_frame best_line deep_line h st sz =
    Some (\<lparr>rx_buf = b, rx_prev_ip_id = ntohs w\<rparr>,
          gap_check (rx_prev_ip_id st) (ntohs w) @ [Out line])"
  using report_frame_accepts [where best_line = best_line and deep_line = deep_line, OF assms(2-4)] assms(1) by (simp add: process_frame_def)

end
