(* ===== verification/Wire.thy ===== *)
theory Wire
  imports RxLoop
begin

text \<open>
  The frames a client must report, described by their bytes on the wire and not by the
  loads of the code: an IPv4 packet to 239.239.239.8, untagged or behind one 802.1Q tag.
  The frame path of the clients meets this description.
\<close>

fun wire_shift :: "byte list \<Rightarrow> nat option" where
  "wire_shift bs =
     (if bs ! 12 = 0x08 \<and> bs ! 13 = 0x00 then Some 0
      else if bs ! 12 = 0x81 \<and> bs ! 13 = 0x00 \<and> bs ! 16 = 0x08 \<and> bs ! 17 = 0x00 then Some 4
      else None)"

definition wire_group :: "byte list \<Rightarrow> bool" where
  "wire_group bs \<longleftrightarrow> 64 < length bs \<and>
     (case wire_shift bs of None \<Rightarrow> False
      | Some k \<Rightarrow> take 4 (drop (k + 30) bs) = [239, 239, 239, 8])"

definition wire_ip_id :: "byte list \<Rightarrow> u16" where
  "wire_ip_id bs =
     (case wire_shift bs of None \<Rightarrow> 0
      | Some k \<Rightarrow> of_nat (256 * unat (bs ! (k + 18)) + unat (bs ! (k + 19))))"

text \<open>The messages of a run over frames of the group that reports one line per frame.\<close>

fun expected :: "u16 \<Rightarrow> byte list list \<Rightarrow> string list \<Rightarrow> msg list" where
  "expected prev (bs # frames) (line # lines) =
     (if wire_ip_id bs = prev + 1 then [] else [Out (gap_line prev (wire_ip_id bs))]) @
     Out line # expected (wire_ip_id bs) frames lines"
| "expected prev frames lines = []"

declare wire_shift.simps [simp del]

section \<open>Loads and wire bytes\<close>

lemma load2: "off + 2 \<le> length bs \<Longrightarrow> load 2 bs off = Some [bs ! off, bs ! (off + 1)]"
  by (simp add: load_def numeral_2_eq_2 Cons_nth_drop_Suc [symmetric] hd_drop_conv_nth)

lemma word_of_le2: "(word_of_le [a, b] :: u16) = of_nat (unat a + 256 * unat b)"
  by (simp add: word_of_le_def)

lemma load16_eq:
  assumes "off + 2 \<le> length bs"
  shows "load16 bs off = Some (word_of_le [a, b]) \<longleftrightarrow> bs ! off = a \<and> bs ! (off + 1) = b"
proof -
  have "(word_of_le [bs ! off, bs ! (off + 1)] :: u16) = word_of_le [a, b] \<longleftrightarrow>
        [bs ! off, bs ! (off + 1)] = [a, b]"
    using u16f.dec_inject [of "[bs ! off, bs ! (off + 1)]" "[a, b]"] by auto
  then show ?thesis using load2 [OF assms] by (simp add: load16_def)
qed

lemma load16_const:
  assumes "off + 2 \<le> length bs"
  shows "load16 bs off = Some (of_nat (unat a + 256 * unat b)) \<longleftrightarrow> bs ! off = a \<and> bs ! (off + 1) = b"
  using load16_eq [OF assms, of a b] by (simp add: word_of_le2)

lemma load16_types:
  assumes "off + 2 \<le> length bs"
  shows "load16 bs off = Some IPV4_PACKET \<longleftrightarrow> bs ! off = 0x08 \<and> bs ! (off + 1) = 0"
    and "load16 bs off = Some DOT1Q_FRAME \<longleftrightarrow> bs ! off = 0x81 \<and> bs ! (off + 1) = 0"
  using load16_const [of off bs "0x08" 0, OF assms] load16_const [of off bs "0x81" 0, OF assms]
  by simp_all

lemma frame_shift_wire:
  assumes "64 < length bs"
  shows "frame_shift bs = Some (wire_shift bs)"
proof -
  obtain a b where ab: "load16 bs 12 = Some a" "load16 bs 16 = Some b"
    using load16_total [of 12 bs] load16_total [of 16 bs] assms by auto
  show ?thesis
    using load16_types [of 12 bs] load16_types [of 16 bs] assms ab
    by (auto simp: frame_shift_def wire_shift.simps)
qed

lemma wire_shift_le: "wire_shift bs = Some k \<Longrightarrow> k = 0 \<or> k = 4"
  by (auto simp: wire_shift.simps split: if_splits)

lemma bswap16_bytes: "bswap16 (word_of_le [a, b]) = word_of_le [b, a]"
  by (simp add: bswap16_def le_of_word_of_le)

lemma in_group_wire:
  assumes "64 < length bs"
  shows "(\<exists>k. in_group bs k) \<longleftrightarrow> wire_group bs"
proof (cases "wire_shift bs")
  case None
  then show ?thesis by (simp add: in_group_def frame_shift_wire [OF assms] wire_group_def)
next
  case (Some k)
  then have "k + 34 \<le> length bs" using wire_shift_le [OF Some] assms by auto
  with Some show ?thesis
    by (simp add: in_group_def frame_shift_wire [OF assms] wire_group_def assms load_def
        group_bytes_def)
qed

lemma ip_id_wire:
  assumes "64 < length bs" "wire_shift bs = Some k"
  obtains w where "load16 bs (k + 18) = Some w" "ntohs w = wire_ip_id bs"
proof -
  have "k + 20 \<le> length bs" using wire_shift_le [OF assms(2)] assms(1) by auto
  then have "load16 bs (k + 18) = Some (word_of_le [bs ! (k + 18), bs ! (k + 19)])"
    using load2 [of "k + 18" bs] by (simp add: load16_def add.commute)
  moreover have "ntohs (word_of_le [bs ! (k + 18), bs ! (k + 19)]) = wire_ip_id bs"
    unfolding ntohs_def bswap16_bytes
    by (simp add: word_of_le2 wire_ip_id_def assms(2) algebra_simps)
  ultimately show thesis by (rule that)
qed

text \<open>A received packet is a prefix of the buffer; the rest of the buffer is older bytes.\<close>

lemma fill_buffer_wire:
  assumes "64 < length bs" "length bs \<le> length buf"
  shows "wire_shift (fill_buffer buf bs) = wire_shift bs"
    and "wire_ip_id (fill_buffer buf bs) = wire_ip_id bs"
    and "wire_group (fill_buffer buf bs) = wire_group bs"
proof -
  have nth: "i < length bs \<Longrightarrow> fill_buffer buf bs ! i = bs ! i" for i
    using assms(2) by (simp add: fill_buffer_nth)
  show ws: "wire_shift (fill_buffer buf bs) = wire_shift bs"
    using assms(1) by (simp add: wire_shift.simps nth)
  show "wire_ip_id (fill_buffer buf bs) = wire_ip_id bs"
    using wire_shift_le [of bs] assms(1) by (auto simp: wire_ip_id_def ws nth split: option.splits)
  have "take 4 (drop (k + 30) (fill_buffer buf bs)) = take 4 (drop (k + 30) bs)"
    if "wire_shift bs = Some k" for k
    using load_fill_buffer [of "k + 30" 4 bs buf] wire_shift_le [OF that] assms
    by (auto simp: load_def)
  then show "wire_group (fill_buffer buf bs) = wire_group bs"
    using assms by (auto simp: wire_group_def ws split: option.splits)
qed

section \<open>The frame path on wire bytes\<close>

lemma process_frame_wire_skips:
  assumes "64 < length (rx_buf st)" "sz \<le> 64 \<or> \<not> wire_group (rx_buf st)"
  shows "process_frame bl dl h st sz = Some (st, [])"
  using process_frame_skips [OF assms(1)] in_group_wire [OF assms(1)] assms(2) by blast

lemma process_frame_wire_line:
  assumes grp: "wire_group (rx_buf st)" and sz: "64 < sz"
    and disp: "dispatch (bl (wire_ip_id (rx_buf st))) (dl (wire_ip_id (rx_buf st))) h (rx_buf st) sz =
      Some (b, line)"
  shows "process_frame bl dl h st sz =
      Some (\<lparr>rx_buf = b, rx_prev_ip_id = wire_ip_id (rx_buf st)\<rparr>,
            gap_check (rx_prev_ip_id st) (wire_ip_id (rx_buf st)) @ [Out line])"
proof -
  have len: "64 < length (rx_buf st)" using grp by (simp add: wire_group_def)
  obtain k where k: "in_group (rx_buf st) k" using in_group_wire [OF len] grp by blast
  then have "wire_shift (rx_buf st) = Some k"
    using frame_shift_wire [OF len] by (simp add: in_group_def)
  then obtain w where w: "load16 (rx_buf st) (k + 18) = Some w" "ntohs w = wire_ip_id (rx_buf st)"
    by (rule ip_id_wire [OF len])
  show ?thesis
    using process_frame_accepts [where best_line = bl and deep_line = dl, OF sz k w(1)]
      disp w(2) by simp
qed

section \<open>Clients that report the frames of the group\<close>

text \<open>
  What a frame client promises of one received frame, and what follows for a run: the
  output is determined by the frames of the group, in order.
\<close>

abbreviation rx_frame :: "byte list \<Rightarrow> rx_result" where
  "rx_frame bs \<equiv> Rx (int (length bs)) bs"

locale frame_client =
  fixes step :: "handler \<Rightarrow> rx_state \<Rightarrow> rx_result \<Rightarrow> (rx_state \<times> msg list \<times> flow) option"
    and cap :: nat
  assumes step_group: "handler_ok h \<Longrightarrow> length (rx_buf st) = cap \<Longrightarrow> wire_group bs \<Longrightarrow>
      length bs \<le> cap \<Longrightarrow>
      \<exists>b line. step h st (rx_frame bs) =
        Some (\<lparr>rx_buf = b, rx_prev_ip_id = wire_ip_id bs\<rparr>,
              gap_check (rx_prev_ip_id st) (wire_ip_id bs) @ [Out line], Continue) \<and>
        length b = cap"
    and step_other: "length (rx_buf st) = cap \<Longrightarrow> \<not> wire_group bs \<Longrightarrow> length bs \<le> cap \<Longrightarrow>
      step h st (rx_frame bs) =
        Some (st\<lparr>rx_buf := fill_buffer (rx_buf st) bs\<rparr>, [], Continue)"
begin

lemma run_frames:
  assumes "handler_ok h" "length (rx_buf st) = cap" "\<forall>bs\<in>set frames. length bs \<le> cap"
  shows "\<exists>st' lines. length lines = length (filter wire_group frames) \<and>
    run_loop (step h) st (map rx_frame frames) =
      Some (st', expected (rx_prev_ip_id st) (filter wire_group frames) lines, Continue)"
  using assms(2,3)
proof (induction frames arbitrary: st)
  case (Cons bs frames)
  show ?case
  proof (cases "wire_group bs")
    case True
    then obtain b line where s: "step h st (rx_frame bs) =
        Some (\<lparr>rx_buf = b, rx_prev_ip_id = wire_ip_id bs\<rparr>,
              gap_check (rx_prev_ip_id st) (wire_ip_id bs) @ [Out line], Continue)"
      "length b = cap"
      using step_group [OF assms(1)] Cons.prems by (metis list.set_intros(1))
    let ?st = "\<lparr>rx_buf = b, rx_prev_ip_id = wire_ip_id bs\<rparr>"
    obtain st' lines where "length lines = length (filter wire_group frames)"
      "run_loop (step h) ?st (map rx_frame frames) =
        Some (st', expected (wire_ip_id bs) (filter wire_group frames) lines, Continue)"
      using Cons.IH [of ?st] s(2) Cons.prems by auto
    with s True show ?thesis
      by (intro exI [of _ st'] exI [of _ "line # lines"]) (auto simp: gap_check_def)
  next
    case False
    let ?st = "st\<lparr>rx_buf := fill_buffer (rx_buf st) bs\<rparr>"
    have s: "step h st (rx_frame bs) = Some (?st, [], Continue)"
      using step_other False Cons.prems by simp
    obtain st' lines where "length lines = length (filter wire_group frames)"
      "run_loop (step h) ?st (map rx_frame frames) =
        Some (st', expected (rx_prev_ip_id st) (filter wire_group frames) lines, Continue)"
      using Cons.IH [of ?st] Cons.prems by auto
    with s False show ?thesis by auto
  qed
qed simp

end

text \<open>Both frame clients call the same frame path on the filled buffer.\<close>

lemma frame_step_line:
  assumes grp: "wire_group bs" and len: "length bs \<le> length (rx_buf st)"
    and disp: "dispatch (bl (wire_ip_id bs)) (dl (wire_ip_id bs)) h
      (fill_buffer (rx_buf st) bs) (int (length bs)) = Some (b, line)"
  shows "process_frame bl dl h (st\<lparr>rx_buf := fill_buffer (rx_buf st) bs\<rparr>) (int (length bs)) =
      Some (\<lparr>rx_buf = b, rx_prev_ip_id = wire_ip_id bs\<rparr>,
            gap_check (rx_prev_ip_id st) (wire_ip_id bs) @ [Out line])"
proof -
  let ?st = "st\<lparr>rx_buf := fill_buffer (rx_buf st) bs\<rparr>"
  have bs: "64 < length bs" using grp by (simp add: wire_group_def)
  note wire = fill_buffer_wire [OF bs len]
  show ?thesis
    using process_frame_wire_line [of ?st "int (length bs)" bl dl h b line] disp grp bs wire by simp
qed

lemma frame_step_group:
  assumes fmt: "\<And>i. report_format (bl i) (dl i)" and ok: "handler_ok h"
    and grp: "wire_group bs" and len: "length bs \<le> length (rx_buf st)"
  obtains b line where
    "process_frame bl dl h (st\<lparr>rx_buf := fill_buffer (rx_buf st) bs\<rparr>) (int (length bs)) =
      Some (\<lparr>rx_buf = b, rx_prev_ip_id = wire_ip_id bs\<rparr>,
            gap_check (rx_prev_ip_id st) (wire_ip_id bs) @ [Out line])"
    "length b = length (rx_buf st)"
proof -
  obtain b line where "dispatch (bl (wire_ip_id bs)) (dl (wire_ip_id bs)) h
      (fill_buffer (rx_buf st) bs) (int (length bs)) = Some (b, line)"
    "length b = length (fill_buffer (rx_buf st) bs)"
    using report_format.dispatch_total [OF fmt ok] by blast
  with frame_step_line [where bl = bl and dl = dl, OF grp len] that show thesis by simp
qed

lemma frame_step_other:
  assumes "\<not> wire_group bs" "length bs \<le> length (rx_buf st)" "64 < length (rx_buf st)"
  shows "process_frame bl dl h (st\<lparr>rx_buf := fill_buffer (rx_buf st) bs\<rparr>) (int (length bs)) =
    Some (st\<lparr>rx_buf := fill_buffer (rx_buf st) bs\<rparr>, [])"
proof (rule process_frame_wire_skips)
  show "64 < length (rx_buf (st\<lparr>rx_buf := fill_buffer (rx_buf st) bs\<rparr>))" using assms(3) by simp
  show "int (length bs) \<le> 64 \<or> \<not> wire_group (rx_buf (st\<lparr>rx_buf := fill_buffer (rx_buf st) bs\<rparr>))"
    using fill_buffer_wire(3) [of bs "rx_buf st"] assms by (cases "64 < length bs") auto
qed

section \<open>Sample inputs\<close>

text \<open>A decoder that recognises nothing, and a frame of the group with identification 7.\<close>

definition quiet_handler :: handler where
  "quiet_handler inp out = (0, inp, out)"

lemma quiet_handler_ok: "handler_ok quiet_handler"
  by (simp add: handler_ok_def quiet_handler_def)

definition sample_frame :: "byte list" where
  "sample_frame = replicate 12 0 @ [8, 0] @ replicate 4 0 @ [0, 7] @ replicate 10 0 @
     [239, 239, 239, 8] @ replicate 31 0"

lemma sample_frame_group: "wire_group sample_frame" and length_sample_frame: "length sample_frame = 65"
  by (simp_all add: sample_frame_def wire_group_def wire_shift.simps nth_append)

definition sample_quote :: normal_best_quote where
  "sample_quote = \<lparr>bq_contract_id = [109, 50, 52, 0, 0, 0, 0, 0], bq_gen_time = replicate 12 0,
     bq_last_price = 0x40A7700000000000, bq_match_tot_qty = 12, bq_turnover = 0,
     bq_open_interest = 30, bq_bid_price = 0x40A7760000000000, bq_bid_qty = 5,
     bq_ask_price = 0x7FEFFFFFFFFFFFFF, bq_ask_qty = 9, bq_last_match_qty = 1\<rparr>"

lemma sample_frame_ip_id: "wire_ip_id sample_frame = 7"
  by (simp add: wire_ip_id_def wire_shift.simps sample_frame_def nth_append)

lemma sample_quote_wf: "best_wf sample_quote" "cstring (bq_contract_id sample_quote) = Some ''m24''"
  by (simp_all add: best_wf_def sample_quote_def char_of_eq_iff)

lemma sample_quote_printed:
  "best_book (clip_best_quote sample_quote) = ''5_3003.0 x 0.0_9''"
  "best_last (clip_best_quote sample_quote) = ''3000.0/1''"
  "fmt_d (bq_match_tot_qty sample_quote) = ''12''"
  "fmt_f 2 (bq_turnover sample_quote) = ''0.00''"
  "fmt_d (bq_open_interest sample_quote) = ''30''"
  by (simp_all add: fmt_eval clip_eval sample_quote_def best_book_def best_last_def)

lemmas sample_facts = quiet_handler_ok sample_frame_group length_sample_frame
  sample_frame_ip_id sample_quote_wf sample_quote_printed

end
