(* ===== verification/RawSub.thy ===== *)
theory RawSub
  imports Wire
begin

text \<open>
  \<open>RAWSOCK/dce-sub-raw-socket.c\<close>: the client on a packet socket.  It asks for the
  interface's flags, means to switch it to promiscuous mode, binds to it and filters whole
  Ethernet frames itself.  The kernel's interface table is part of the model, so that what
  the \<open>ioctl\<close> calls change is visible.
\<close>

section \<open>Setting up the packet socket\<close>

abbreviation (input) IFNAMSIZ :: nat where "IFNAMSIZ \<equiv> 16"
abbreviation (input) IFF_PROMISC :: u16 where "IFF_PROMISC \<equiv> 0x100"

record ifreq =
  ifr_name :: string
  ifr_flags :: u16

datatype ioctl_req = SIOCGIFFLAGS | SIOCSIFFLAGS

text \<open>What the calls return: the interface flags by name, the index by name, results.\<close>

record raw_kernel =
  rk_socket :: int
  rk_flags :: "string \<Rightarrow> u16 option"
  rk_index :: "string \<Rightarrow> nat"
  rk_bind :: "nat \<Rightarrow> int"

text \<open>\<open>netdevice(7)\<close>: the first request reads the flags, the second one writes them.\<close>

definition ioctl :: "ioctl_req \<Rightarrow> raw_kernel \<Rightarrow> ifreq \<Rightarrow> int \<times> raw_kernel \<times> ifreq" where
  "ioctl req k r =
     (let name = take (IFNAMSIZ - 1) (ifr_name r)
      in case rk_flags k name of
           None \<Rightarrow> (- 1, k, r)
         | Some f \<Rightarrow>
             (case req of
                SIOCGIFFLAGS \<Rightarrow> (0, k, r\<lparr>ifr_flags := f\<rparr>)
              | SIOCSIFFLAGS \<Rightarrow> (0, k\<lparr>rk_flags := (rk_flags k)(name \<mapsto> ifr_flags r)\<rparr>, r)))"

text \<open>
  \<open>strncpy\<close> copies at most \<open>IFNAMSIZ\<close> characters and then leaves the name without its
  terminating zero: reading it as a string is undefined.
\<close>

definition ifr_string :: "ifreq \<Rightarrow> string option" where
  "ifr_string r = (if length (ifr_name r) < IFNAMSIZ then Some (ifr_name r) else None)"

definition raw_setup ::
  "raw_kernel \<Rightarrow> string list \<Rightarrow> (raw_kernel \<times> msg list \<times> flow) option" where
  "raw_setup k argv =
     (if length argv \<noteq> 2 then
        Some (k, [Out (''Usage: ./dce-sub-raw-socket ens1f[0:1]'' @ newline)], Exit 1)
      else if rk_socket k = - 1 then Some (k, [Out (''socket error!'' @ newline)], Exit 1)
      else case ioctl SIOCGIFFLAGS k \<lparr>ifr_name = take IFNAMSIZ (argv ! 1), ifr_flags = 0\<rparr> of
        (rc, k, req) \<Rightarrow>
          if rc = - 1 then Some (k, [Perror ''ioctl''], Exit (- 1))
          else case ioctl SIOCGIFFLAGS k (req\<lparr>ifr_flags := or (ifr_flags req) IFF_PROMISC\<rparr>) of
            (rc, k, req) \<Rightarrow>
              if rc = - 1 then Some (k, [Perror ''ioctl''], Exit (- 1))
              else do {
                name \<leftarrow> ifr_string req;
                let ifindex = rk_index k name;
                if ifindex = 0 then
                  Some (k, [Err (''Unknown interface: '' @ name @ newline)], Exit 1)
                else if rk_bind k ifindex < 0 then Some (k, [Perror ''bind''], Exit 1)
                else Some (k, [], Continue)
              })"

section \<open>The receive loop\<close>

definition raw_best_line :: "u16 \<Rightarrow> byte list \<Rightarrow> string option" where
  "raw_best_line last_ip_id out = do {
     q \<leftarrow> best_decode out;
     contract_id \<leftarrow> fmt_s out (offsetof best_layout Bq_contract_id);
     Some (pad_left 5 (show_nat (unat last_ip_id)) @ '', '' @ contract_id @ '', best, '' @
       best_book q @ '', '' @ fmt_d (bq_match_tot_qty q) @ ''/'' @
       fmt_d (bq_open_interest q) @ '', '' @ best_last q @ newline)
   }"

definition raw_deep_line :: "u16 \<Rightarrow> byte list \<Rightarrow> string option" where
  "raw_deep_line last_ip_id out = do {
     q \<leftarrow> depth_decode out;
     contract_id \<leftarrow> fmt_s out (offsetof depth_layout Du_contract_id);
     Some (pad_left 5 (show_nat (unat last_ip_id)) @ '', '' @ contract_id @ '', deep, '' @
       deep_book q @ newline)
   }"

definition raw_step ::
  "handler \<Rightarrow> rx_state \<Rightarrow> rx_result \<Rightarrow> (rx_state \<times> msg list \<times> flow) option" where
  "raw_step h st r =
     (let n = rx_ret r; st = st\<lparr>rx_buf := fill_buffer (rx_buf st) (rx_data r)\<rparr>
      in if n = - 1 then Some (st, [Out (''recv error!'' @ newline)], Exit 0)
         else if n = 0 then Some (st, [], Continue)
         else do {
           (st', out) \<leftarrow> process_frame raw_best_line raw_deep_line h st n;
           Some (st', out, Continue)
         })"

definition raw_main ::
  "raw_kernel \<Rightarrow> string list \<Rightarrow> handler \<Rightarrow> byte list \<Rightarrow> rx_result list \<Rightarrow>
   (msg list \<times> flow) option" where
  "raw_main k argv h buf rs = do {
     (k', out, fl) \<leftarrow> raw_setup k argv;
     if fl = Continue then do {
       (st, out', fl') \<leftarrow> run_loop (raw_step h) \<lparr>rx_buf = buf, rx_prev_ip_id = 0\<rparr> rs;
       Some (out @ out', fl')
     }
     else Some (out, fl)
   }"

section \<open>Lemmas\<close>

interpretation raw_fmt: report_format "raw_best_line i" "raw_deep_line i" for i
  by unfold_locales
    (auto elim!: terminated_parts simp: raw_best_line_def raw_deep_line_def)

interpretation raw_run: rx_loop raw_step handler_ok "\<lambda>st. length (rx_buf st) = 10240"
proof unfold_locales
  fix h r and st :: rx_state
  assume ok: "handler_ok h" and len: "length (rx_buf st) = 10240"
  let ?st = "st\<lparr>rx_buf := fill_buffer (rx_buf st) (rx_data r)\<rparr>"
  have "64 < length (rx_buf ?st)" using len by simp
  from process_frame_total [of raw_best_line raw_deep_line h _ "rx_ret r", OF raw_fmt.report_format_axioms ok this] len
  show "\<exists>s' out fl. raw_step h st r = Some (s', out, fl) \<and> (fl = Continue \<longrightarrow> length (rx_buf s') = 10240)"
    by (auto simp: raw_step_def Let_def)
qed

lemma ioctl_get_kernel: "ioctl SIOCGIFFLAGS k r = (rc, k', r') \<Longrightarrow> k' = k"
  by (auto simp: ioctl_def Let_def split: option.splits)

interpretation raw_client: frame_client raw_step 10240
proof unfold_locales
  fix h and st :: rx_state and bs
  assume ok: "handler_ok h" and len: "length (rx_buf st) = 10240"
    and grp: "wire_group bs" and le: "length bs \<le> 10240"
  have le': "length bs \<le> length (rx_buf st)" using len le by simp
  obtain b line where
    "process_frame raw_best_line raw_deep_line h
       (st\<lparr>rx_buf := fill_buffer (rx_buf st) bs\<rparr>) (int (length bs)) =
      Some (\<lparr>rx_buf = b, rx_prev_ip_id = wire_ip_id bs\<rparr>,
            gap_check (rx_prev_ip_id st) (wire_ip_id bs) @ [Out line])" "length b = 10240"
    using frame_step_group [where bl = raw_best_line and dl = raw_deep_line,
        OF raw_fmt.report_format_axioms ok grp le'] len by metis
  moreover have "bs \<noteq> []" using grp by (auto simp: wire_group_def)
  ultimately show "\<exists>b line. raw_step h st (rx_frame bs) =
      Some (\<lparr>rx_buf = b, rx_prev_ip_id = wire_ip_id bs\<rparr>,
        gap_check (rx_prev_ip_id st) (wire_ip_id bs) @ [Out line], Continue) \<and> length b = 10240"
    by (simp add: raw_step_def Let_def)
next
  fix h and st :: rx_state and bs
  assume "length (rx_buf st) = 10240" "\<not> wire_group bs" "length bs \<le> 10240"
  then show "raw_step h st (rx_frame bs) =
      Some (st\<lparr>rx_buf := fill_buffer (rx_buf st) bs\<rparr>, [], Continue)"
    using frame_step_other [of bs st raw_best_line raw_deep_line h]
    by (simp add: raw_step_def Let_def)
qed

section \<open>Properties\<close>

text \<open>
  C1.  Whatever frames arrive, the packet-socket client prints, in order of arrival,
  exactly one line for each IPv4 frame of more than 64 bytes to 239.239.239.8 (untagged or
  with one 802.1Q tag), preceded by a gap warning exactly when the frame's IP
  identification is not the successor, modulo 65536, of the previous reported frame's;
  all other frames are silent, and the loop keeps running.
\<close>

theorem raw_reports_group_frames:
  assumes "handler_ok h" "length (rx_buf st) = 10240" "\<forall>bs\<in>set frames. length bs \<le> 10240"
  shows "\<exists>st' lines. length lines = length (filter wire_group frames) \<and>
    run_loop (raw_step h) st (map rx_frame frames) =
      Some (st', expected (rx_prev_ip_id st) (filter wire_group frames) lines, Continue)"
  by (rule raw_client.run_frames [OF assms])

theorem raw_reports_group_frames_witness:
  "\<exists>st' line.
    run_loop (raw_step quiet_handler) \<lparr>rx_buf = replicate 10240 0, rx_prev_ip_id = 6\<rparr>
      [rx_frame sample_frame, rx_frame [1, 2, 3]] =
    Some (st', expected 6 [sample_frame] [line], Continue)"
  using raw_reports_group_frames [of quiet_handler
      "\<lparr>rx_buf = replicate 10240 0, rx_prev_ip_id = 6\<rparr>" "[sample_frame, [1, 2, 3]]"]
  by (auto simp: quiet_handler_ok sample_frame_group length_sample_frame wire_group_def [of "[1, 2, 3]"]
      length_Suc_conv)

text \<open>
  C12.  The packet-socket program has no undefined behaviour: for every argument vector
  with an interface name of fewer than sixteen characters, every kernel, every decoder
  that respects its buffers and every sequence of receive results, no access leaves a
  buffer and every \<open>%s\<close> finds its terminating zero.
\<close>

theorem raw_main_safe:
  assumes "handler_ok h" "length buf = 10240" "length argv = 2 \<longrightarrow> length (argv ! 1) < 16"
  shows "raw_main k argv h buf rs \<noteq> None"
proof -
  obtain st out fl where "run_loop (raw_step h) \<lparr>rx_buf = buf, rx_prev_ip_id = 0\<rparr> rs =
      Some (st, out, fl)"
    using raw_run.run_ok [OF assms(1), of "\<lparr>rx_buf = buf, rx_prev_ip_id = 0\<rparr>" rs] assms(2)
    by auto
  moreover have "raw_setup k argv \<noteq> None"
    using assms(3) by (auto simp: raw_setup_def ioctl_def Let_def ifr_string_def
        split: option.splits prod.splits)
  ultimately show ?thesis by (auto simp: raw_main_def split: if_splits)
qed

definition sample_kernel :: raw_kernel where
  "sample_kernel = \<lparr>rk_socket = 3, rk_flags = [''eth0'' \<mapsto> 0x1003],
     rk_index = (\<lambda>n. if n = ''eth0'' then 2 else 0), rk_bind = (\<lambda>_. 0)\<rparr>"

theorem raw_main_safe_witness:
  "raw_main sample_kernel [''dce'', ''eth0''] quiet_handler (replicate 10240 0)
     [rx_frame sample_frame] \<noteq> None"
  by (rule raw_main_safe) (simp_all add: quiet_handler_ok)

text \<open>
  C15.  The set-up never changes the interface's flags: both \<open>ioctl\<close> calls read them, so
  the kernel is left as it was and the interface is not put into promiscuous mode, which
  the comment on the second call says it should be.
\<close>

theorem raw_setup_keeps_flags:
  assumes "raw_setup k argv = Some (k', out, fl)"
  shows "k' = k"
  using assms
  by (auto simp: raw_setup_def Let_def bind_eq_Some_conv dest!: ioctl_get_kernel
      split: if_splits prod.splits)

theorem raw_setup_keeps_flags_witness:
  "raw_setup sample_kernel [''dce'', ''eth0''] = Some (sample_kernel, [], Continue) \<and>
   and (the (rk_flags sample_kernel ''eth0'')) IFF_PROMISC = 0"
proof -
  obtain k' out fl where s: "raw_setup sample_kernel [''dce'', ''eth0''] = Some (k', out, fl)"
    "out = []" "fl = Continue"
    by (simp add: raw_setup_def ioctl_def sample_kernel_def ifr_string_def Let_def)
  with raw_setup_keeps_flags [OF s(1)] show ?thesis by (simp add: sample_kernel_def)
qed

text \<open>
  C10.  When the decoder, called with the buffer the frame was received in and a zeroed output
  buffer, returns a best quote whose identifier is terminated, the packet-socket client
  prints that quote in one line: the IP identification right-aligned in five columns, the
  contract, bid, ask, totals and last price, with every price above 65535 shown as zero.
\<close>

theorem raw_prints_best_quote:
  assumes len: "length (rx_buf st) = 10240" and bs: "wire_group bs" "length bs \<le> 10240"
    and h: "h (fill_buffer (rx_buf st) bs) (replicate 256 0) = (BEST_QUOTE_MSG, inp', best_encode q @ rest)"
    and q: "best_wf q" "cstring (bq_contract_id q) = Some cid"
  shows "raw_step h st (rx_frame bs) = Some (\<lparr>rx_buf = inp', rx_prev_ip_id = wire_ip_id bs\<rparr>,
    gap_check (rx_prev_ip_id st) (wire_ip_id bs) @
    [Out (pad_left 5 (show_nat (unat (wire_ip_id bs))) @ '', '' @ cid @ '', best, '' @
      best_book (clip_best_quote q) @ '', '' @ fmt_d (bq_match_tot_qty q) @ ''/'' @
      fmt_d (bq_open_interest q) @ '', '' @ best_last (clip_best_quote q) @ newline)], Continue)"
proof -
  let ?i = "wire_ip_id bs" and ?b = "fill_buffer (rx_buf st) bs"
  obtain out where out: "best_decode out = Some (clip_best_quote q)"
    "take 20 out = take 20 (best_encode q @ rest)"
    "dispatch (raw_best_line ?i) (raw_deep_line ?i) h ?b (int (length bs)) =
      map_option (\<lambda>line. (inp', line)) (raw_best_line ?i out)"
    by (rule dispatch_best [where h = h and inp = ?b, OF h best_roundtrip [OF q(1), of rest]])
  have "take 8 out = take 8 (take 20 out)" by simp
  also have "\<dots> = bq_contract_id q"
    unfolding out(2) using q(1) by (simp add: best_encode_def best_wf_def)
  finally have "fmt_s out 0 = Some cid" using fmt_s_prefix [of 8 0 out cid] q(2) by simp
  with out(1) have "raw_best_line ?i out = Some (pad_left 5 (show_nat (unat ?i)) @ '', '' @ cid @
      '', best, '' @ best_book (clip_best_quote q) @ '', '' @ fmt_d (bq_match_tot_qty q) @ ''/'' @
      fmt_d (bq_open_interest q) @ '', '' @ best_last (clip_best_quote q) @ newline)"
    by (simp add: raw_best_line_def clip_best_quote_def)
  moreover have "bs \<noteq> []" using bs(1) by (auto simp: wire_group_def)
  ultimately show ?thesis
    using frame_step_line [of bs st raw_best_line raw_deep_line h] out(3) bs len
    by (simp add: raw_step_def Let_def)
qed

text \<open>A decoder that recognises the sample frame and nothing else.\<close>

definition frame_handler :: handler where
  "frame_handler inp out =
     (if take 65 inp = sample_frame then (BEST_QUOTE_MSG, inp, best_encode sample_quote @ replicate 184 0)
      else (0, inp, out))"

theorem raw_prints_best_quote_witness:
  "\<exists>st'. raw_step frame_handler \<lparr>rx_buf = replicate 10240 0, rx_prev_ip_id = 6\<rparr>
     (rx_frame sample_frame) = Some (st',
    [Out (''    7, m24, best, 5_3003.0 x 0.0_9, 12/30, 3000.0/1'' @ newline)], Continue)"
proof -
  let ?st = "\<lparr>rx_buf = replicate 10240 0, rx_prev_ip_id = 6\<rparr>"
  have "take 65 (fill_buffer (rx_buf ?st) sample_frame) = sample_frame"
    by (simp add: fill_buffer_def length_sample_frame)
  then have h: "frame_handler (fill_buffer (rx_buf ?st) sample_frame) (replicate 256 0) =
      (BEST_QUOTE_MSG, fill_buffer (rx_buf ?st) sample_frame, best_encode sample_quote @ replicate 184 0)"
    by (simp add: frame_handler_def)
  have "pad_left 5 (show_nat 7) = ''    7''" by (simp add: fmt_eval)
  then show ?thesis
    using raw_prints_best_quote [where st = ?st and bs = sample_frame and h = frame_handler and q = sample_quote and
        cid = "''m24''" and rest = "replicate 184 0" and inp' = "fill_buffer (rx_buf ?st) sample_frame"] h
    by (simp add: sample_facts gap_check_def)
qed

end
