(* ===== verification/C_String.thy ===== *)
theory C_String
  imports C_Format
begin

text \<open>
  The functions of \<open><string.h>\<close> and \<open><stdlib.h>\<close> the programs call, on the characters of a
  C string without its terminating zero.  \<open>strtok\<close> keeps a static position between calls;
  here that position is passed explicitly.  Numbers printed in decimal are read back by
  \<open>strtol\<close>.
\<close>

section \<open>Searching and tokens\<close>

fun strchr :: "string \<Rightarrow> char \<Rightarrow> string option" where
  "strchr [] c = None"
| "strchr (x # xs) c = (if x = c then Some (x # xs) else strchr xs c)"

definition strtok_from :: "string \<Rightarrow> string \<Rightarrow> string option \<times> string" where
  "strtok_from s delims =
     (let s' = dropWhile (\<lambda>c. c \<in> set delims) s
      in if s' = [] then (None, [])
         else (Some (takeWhile (\<lambda>c. c \<notin> set delims) s'),
               tl (dropWhile (\<lambda>c. c \<notin> set delims) s')))"

text \<open>\<open>strtok(s, delims)\<close> starts a new scan, \<open>strtok(NULL, delims)\<close> goes on from \<open>save\<close>.\<close>

definition strtok :: "string option \<Rightarrow> string \<Rightarrow> string \<Rightarrow> string option \<times> string" where
  "strtok arg save delims =
     (case arg of Some s \<Rightarrow> strtok_from s delims | None \<Rightarrow> strtok_from save delims)"

fun strncmp_prefix :: "string \<Rightarrow> string \<Rightarrow> bool" where
  "strncmp_prefix [] s = True"
| "strncmp_prefix (c # cs) [] = False"
| "strncmp_prefix (c # cs) (x # xs) = (c = x \<and> strncmp_prefix cs xs)"

section \<open>Numbers\<close>

definition isspace :: "char \<Rightarrow> bool" where
  "isspace c \<longleftrightarrow> of_char c = (32::nat) \<or> 9 \<le> (of_char c :: nat) \<and> (of_char c :: nat) \<le> 13"

definition digit_val :: "char \<Rightarrow> nat option" where
  "digit_val c =
     (let n = of_char c :: nat
      in if 48 \<le> n \<and> n \<le> 57 then Some (n - 48)
         else if 97 \<le> n \<and> n \<le> 122 then Some (n - 87)
         else if 65 \<le> n \<and> n \<le> 90 then Some (n - 55) else None)"

definition is_digit :: "nat \<Rightarrow> char \<Rightarrow> bool" where
  "is_digit base c \<longleftrightarrow> (case digit_val c of None \<Rightarrow> False | Some d \<Rightarrow> d < base)"

definition digits_val :: "nat \<Rightarrow> string \<Rightarrow> nat" where
  "digits_val base ds = foldl (\<lambda>a c. a * base + the (digit_val c)) 0 ds"

definition clamp_long :: "int \<Rightarrow> int" where
  "clamp_long v = max (- (2 ^ 63)) (min (2 ^ 63 - 1) v)"

definition split_sign :: "string \<Rightarrow> bool \<times> string" where
  "split_sign s =
     (case s of [] \<Rightarrow> (False, [])
      | c # r \<Rightarrow> if c = CHR ''-'' then (True, r) else if c = CHR ''+'' then (False, r)
                else (False, s))"

text \<open>In base 16 a leading \<open>0x\<close> is skipped when a hexadecimal digit follows it.\<close>

definition skip_0x :: "nat \<Rightarrow> string \<Rightarrow> string" where
  "skip_0x base s =
     (case s of a # b # c # r \<Rightarrow>
        if base = 16 \<and> a = CHR ''0'' \<and> (b = CHR ''x'' \<or> b = CHR ''X'') \<and> is_digit 16 c
        then c # r else s
      | _ \<Rightarrow> s)"

definition strtol :: "nat \<Rightarrow> string \<Rightarrow> int \<times> string" where
  "strtol base s =
     (case split_sign (dropWhile isspace s) of (neg, s2) \<Rightarrow>
        let s3 = skip_0x base s2; ds = takeWhile (is_digit base) s3
        in if ds = [] then (0, s)
           else (clamp_long (if neg then - int (digits_val base ds) else int (digits_val base ds)),
                 drop (length ds) s3))"

text \<open>\<open>atoi\<close> is \<open>(int) strtol(s, NULL, 10)\<close>.\<close>

definition atoi :: "string \<Rightarrow> s32" where
  "atoi s = of_int (fst (strtol 10 s))"

section \<open>Lemmas\<close>

lemma takeWhile_dropWhile_nonempty:
  assumes "dropWhile P s \<noteq> []"
  shows "takeWhile (\<lambda>c. \<not> P c) (dropWhile P s) \<noteq> []"
  using hd_dropWhile [OF assms] assms by (cases "dropWhile P s") auto

lemma strtok_token_nonempty: "strtok a save d = (Some t, r) \<Longrightarrow> t \<noteq> []"
  using takeWhile_dropWhile_nonempty [of "\<lambda>c. c \<in> set d"]
  by (auto simp: strtok_def strtok_from_def Let_def split: option.splits if_splits)

lemma strtok_token_no_delim:
  "strtok a save d = (Some t, r) \<Longrightarrow> c \<in> set t \<Longrightarrow> c \<notin> set d"
  by (auto simp: strtok_def strtok_from_def Let_def split: option.splits if_splits
      dest: set_takeWhileD)

text \<open>With no delimiters, \<open>strtok\<close> returns all that is left, or \<open>NULL\<close> if nothing is.\<close>

lemma strtok_rest: "strtok None save [] = (if save = [] then None else Some save, [])"
proof -
  have tw: "takeWhile (\<lambda>c. True) s = s" "dropWhile (\<lambda>c. False) s = s" for s :: string
    by (induction s) auto
  have dw: "dropWhile (\<lambda>c. True) s = []" for s :: string
    by simp
  show ?thesis
    by (simp add: strtok_def strtok_from_def tw) (simp only: dw list.sel simp_thms)
qed

lemma strncmp_prefix_iff: "strncmp_prefix p s \<longleftrightarrow> (\<exists>r. s = p @ r)"
  by (induction p s rule: strncmp_prefix.induct) auto

lemma strchr_Some: "strchr s c = Some r \<Longrightarrow> \<exists>p. s = p @ r \<and> c \<notin> set p \<and> (\<exists>r'. r = c # r')"
proof (induction s)
  case (Cons x s)
  show ?case
  proof (cases "x = c")
    case True
    with Cons.prems show ?thesis by (intro exI [of _ "[]"]) auto
  next
    case False
    with Cons obtain p where "s = p @ r \<and> c \<notin> set p \<and> (\<exists>r'. r = c # r')" by auto
    with False show ?thesis by (intro exI [of _ "x # p"]) auto
  qed
qed simp

lemma strchr_None_iff: "strchr s c = None \<longleftrightarrow> c \<notin> set s"
  by (induction s) auto

subsection \<open>Printing and reading decimals\<close>

lemma of_char_digit: "d < 10 \<Longrightarrow> of_char (digit d) = (48 + d :: nat)"
  by (simp add: digit_def)

lemma digit_val_digit [simp]: "d < 10 \<Longrightarrow> digit_val (digit d) = Some d"
  by (simp add: digit_val_def of_char_digit)

lemma is_digit_digit [simp]: "d < 10 \<Longrightarrow> is_digit 10 (digit d)"
  by (simp add: is_digit_def)

lemma show_nat_digits: "c \<in> set (show_nat n) \<Longrightarrow> is_digit 10 c"
proof (induction n rule: show_nat.induct)
  case (1 n)
  then show ?case
    by (subst (asm) show_nat.simps) (auto split: if_splits)
qed

lemma digits_val_show_nat: "digits_val 10 (show_nat n) = n"
proof (induction n rule: show_nat.induct)
  case (1 n)
  show ?case
  proof (cases "n < 10")
    case True
    then show ?thesis by (subst show_nat.simps) (simp add: digits_val_def)
  next
    case False
    with 1 have "digits_val 10 (show_nat (n div 10)) = n div 10" by simp
    with False show ?thesis
      by (subst show_nat.simps) (simp add: digits_val_def)
  qed
qed

lemma digit_char: "is_digit 10 c \<Longrightarrow> 48 \<le> (of_char c :: nat) \<and> (of_char c :: nat) \<le> 57"
  by (auto simp: is_digit_def digit_val_def Let_def split: if_splits)

lemma digit_not_space: "is_digit 10 c \<Longrightarrow> \<not> isspace c"
  using digit_char [of c] by (auto simp: isspace_def)

lemma digit_not_sign: "is_digit 10 c \<Longrightarrow> c \<noteq> CHR ''-'' \<and> c \<noteq> CHR ''+''"
  by (auto simp: is_digit_def digit_val_def)

lemma skip_0x_10 [simp]: "skip_0x 10 s = s"
  by (auto simp: skip_0x_def split: list.splits)

lemma takeWhile_digits:
  assumes "\<forall>c\<in>set ds. is_digit b c" "r = [] \<or> \<not> is_digit b (hd r)"
  shows "takeWhile (is_digit b) (ds @ r) = ds"
  using assms by (induction ds) (auto simp: takeWhile_eq_Nil_iff)

lemma strtol_digits:
  assumes ds: "\<forall>c\<in>set ds. is_digit 10 c" "ds \<noteq> []" and r: "r = [] \<or> \<not> is_digit 10 (hd r)"
  shows "strtol 10 (ds @ r) = (clamp_long (int (digits_val 10 ds)), r)"
proof -
  obtain c cs where c: "ds = c # cs" using ds(2) by (cases ds) auto
  then have dig: "is_digit 10 c" using ds(1) by simp
  have "dropWhile isspace (ds @ r) = ds @ r"
    using digit_not_space [OF dig] c by simp
  moreover have "split_sign (ds @ r) = (False, ds @ r)"
    using digit_not_sign [OF dig] c by (simp add: split_sign_def)
  ultimately show ?thesis
    using takeWhile_digits [OF ds(1) r] ds(2) by (simp add: strtol_def Let_def)
qed

lemma strtol_show_nat:
  assumes "n < 2 ^ 63" "r = [] \<or> \<not> is_digit 10 (hd r)"
  shows "strtol 10 (show_nat n @ r) = (int n, r)"
proof -
  have "int n < 2 ^ 63" using assms(1) by simp
  then have "clamp_long (int n) = int n" by (simp add: clamp_long_def)
  then show ?thesis
    using strtol_digits [of "show_nat n" r] assms(2) show_nat_digits length_show_nat_pos
    by (simp add: digits_val_show_nat)
qed

lemma strtol_show_int:
  assumes "- (2 ^ 63) < i" "i < 2 ^ 63" "r = [] \<or> \<not> is_digit 10 (hd r)"
  shows "strtol 10 (show_int i @ r) = (i, r)"
proof (cases "i < 0")
  case False
  then have "nat i < 2 ^ 63" using assms(2) by (simp add: nat_less_iff)
  with False show ?thesis
    using strtol_show_nat [of "nat i" r] assms(3) by (simp add: show_int_def)
next
  case True
  define n where "n = nat (- i)"
  have n: "i = - int n" using True by (simp add: n_def)
  have ds: "\<forall>c\<in>set (show_nat n). is_digit 10 c" "show_nat n \<noteq> []"
    using show_nat_digits length_show_nat_pos by auto
  have "clamp_long (- int n) = - int n"
    using assms(1,2) n by (simp add: clamp_long_def)
  moreover have "\<not> isspace CHR ''-''" by (simp add: isspace_def)
  ultimately show ?thesis
    using True takeWhile_digits [OF ds(1) assms(3)] ds(2)
    by (simp add: show_int_def strtol_def split_sign_def Let_def digits_val_show_nat n)
qed

end
