(* ===== verification/ExanicSub.thy ===== *)
theory ExanicSub
  imports Wire C_String
begin

text \<open>
  \<open>EXANIC/dce-sub-exanic.c\<close>: the client on an ExaNIC adapter.  Its argument names the
  device and the port (\<open>exanic0:1\<close>); the frame path is that of the packet-socket client.
  The ExaNIC library calls are parameters.
\<close>

section \<open>Arguments and device\<close>

record exanic_env =
  ex_handle :: "string \<Rightarrow> bool"
  ex_rx_buffer :: "string \<Rightarrow> byte \<Rightarrow> bool"
  ex_last_error :: string

definition exanic_usage :: "string \<Rightarrow> msg" where
  "exanic_usage prog = Err (''Usage: '' @ prog @ '' exanic[0-N]:[0,1]'' @ newline)"

text \<open>
  The device name and port of \<open>argv[1]\<close>; \<open>None\<close> when \<open>atoi\<close> is handed the null pointer that
  \<open>strtok\<close> returns if there is no second token.
\<close>

definition exanic_parse :: "string \<Rightarrow> (string \<times> byte) option" where
  "exanic_parse arg =
     (case strtok (Some arg) [] '':'' of
        (None, save) \<Rightarrow> None
      | (Some nic_name, save) \<Rightarrow>
          (case strtok None save '':'' of
             (None, save) \<Rightarrow> None
           | (Some port, save) \<Rightarrow> Some (nic_name, ucast (atoi port))))"

definition exanic_setup ::
  "exanic_env \<Rightarrow> string list \<Rightarrow> (msg list \<times> flow) option" where
  "exanic_setup env argv =
     (if length argv \<noteq> 2 then Some ([exanic_usage (argv ! 0)], Exit (- 1))
      else case strchr (argv ! 1) CHR '':'' of
        None \<Rightarrow> Some ([exanic_usage (argv ! 0)], Exit (- 1))
      | Some p \<Rightarrow> do {
          (nic_name, nic_port) \<leftarrow> exanic_parse (argv ! 1);
          let out = [Out (''nic_name:'' @ nic_name @ '', nic_port:'' @
                          show_nat (unat nic_port) @ '' '' @ newline)];
          if \<not> ex_handle env nic_name then
            Some (out @ [Err (''exanic_acquire_handle: '' @ ex_last_error env @ newline)], Exit (- 1))
          else if \<not> ex_rx_buffer env nic_name nic_port then
            Some (out @ [Err (''exanic_acquire_rx_buffer: '' @ ex_last_error env @ newline)], Exit (- 1))
          else Some (out, Continue)
        })"

section \<open>The receive loop\<close>

definition exanic_best_line :: "u16 \<Rightarrow> byte list \<Rightarrow> string option" where
  "exanic_best_line last_ip_id out = do {
     q \<leftarrow> best_decode out;
     contract_id \<leftarrow> fmt_s out (offsetof best_layout Bq_contract_id);
     gen_time \<leftarrow> fmt_s out (offsetof best_layout Bq_gen_time);
     Some (contract_id @ '', '' @ pad_left 8 gen_time @ '', best, '' @ best_book q @ '', '' @
       fmt_d (bq_match_tot_qty q) @ ''/'' @ fmt_f 2 (bq_turnover q) @ ''/'' @
       fmt_d (bq_open_interest q) @ '', '' @ best_last q @ newline)
   }"

definition exanic_deep_line :: "u16 \<Rightarrow> byte list \<Rightarrow> string option" where
  "exanic_deep_line last_ip_id out = do {
     q \<leftarrow> depth_decode out;
     contract_id \<leftarrow> fmt_s out (offsetof depth_layout Du_contract_id);
     gen_time \<leftarrow> fmt_s out (offsetof depth_layout Du_gen_time);
     Some (contract_id @ '', '' @ pad_left 8 gen_time @ '', deep, '' @ deep_book q @ newline)
   }"

text \<open>\<open>keep_running\<close> is never cleared; every return value of the receive call continues.\<close>

definition exanic_step ::
  "handler \<Rightarrow> rx_state \<Rightarrow> rx_result \<Rightarrow> (rx_state \<times> msg list \<times> flow) option" where
  "exanic_step h st r = do {
     (st', out) \<leftarrow> process_frame exanic_best_line exanic_deep_line h
        (st\<lparr>rx_buf := fill_buffer (rx_buf st) (rx_data r)\<rparr>) (rx_ret r);
     Some (st', out, Continue)
   }"

definition exanic_main ::
  "exanic_env \<Rightarrow> string list \<Rightarrow> handler \<Rightarrow> byte list \<Rightarrow> rx_result list \<Rightarrow>
   (msg list \<times> flow) option" where
  "exanic_main env argv h buf rs = do {
     (out, fl) \<leftarrow> exanic_setup env argv;
     if fl = Continue then do {
       (st, out', fl') \<leftarrow> run_loop (exanic_step h) \<lparr>rx_buf = buf, rx_prev_ip_id = 0\<rparr> rs;
       Some (out @ out', fl')
     }
     else Some (out, fl)
   }"

section \<open>Lemmas\<close>

interpretation exanic_fmt: report_format "exanic_best_line i" "exanic_deep_line i" for i
  by unfold_locales
    (auto elim!: terminated_parts simp: exanic_best_line_def exanic_deep_line_def)

interpretation exanic_run: rx_loop exanic_step handler_ok "\<lambda>st. length (rx_buf st) = 2048"
proof unfold_locales
  fix h r and st :: rx_state
  assume ok: "handler_ok h" and len: "length (rx_buf st) = 2048"
  let ?st = "st\<lparr>rx_buf := fill_buffer (rx_buf st) (rx_data r)\<rparr>"
  have "64 < length (rx_buf ?st)" using len by simp
  from process_frame_total [of exanic_best_line exanic_deep_line h _ "rx_ret r", OF exanic_fmt.report_format_axioms ok this] len
  show "\<exists>s' out fl. exanic_step h st r = Some (s', out, fl) \<and> (fl = Continue \<longrightarrow> length (rx_buf s') = 2048)"
    by (auto simp: exanic_step_def)
qed

interpretation exanic_client: frame_client exanic_step 2048
proof unfold_locales
  fix h and st :: rx_state and bs
  assume ok: "handler_ok h" and len: "length (rx_buf st) = 2048"
    and grp: "wire_group bs" and le: "length bs \<le> 2048"
  have le': "length bs \<le> length (rx_buf st)" using len le by simp
  obtain b line where
    "process_frame exanic_best_line exanic_deep_line h
       (st\<lparr>rx_buf := fill_buffer (rx_buf st) bs\<rparr>) (int (length bs)) =
      Some (\<lparr>rx_buf = b, rx_prev_ip_id = wire_ip_id bs\<rparr>,
            gap_check (rx_prev_ip_id st) (wire_ip_id bs) @ [Out line])" "length b = 2048"
    using frame_step_group [where bl = exanic_best_line and dl = exanic_deep_line,
        OF exanic_fmt.report_format_axioms ok grp le'] len by metis
  then show "\<exists>b line. exanic_step h st (rx_frame bs) =
      Some (\<lparr>rx_buf = b, rx_prev_ip_id = wire_ip_id bs\<rparr>,
        gap_check (rx_prev_ip_id st) (wire_ip_id bs) @ [Out line], Continue) \<and> length b = 2048"
    by (simp add: exanic_step_def)
next
  fix h and st :: rx_state and bs
  assume "length (rx_buf st) = 2048" "\<not> wire_group bs" "length bs \<le> 2048"
  then show "exanic_step h st (rx_frame bs) =
      Some (st\<lparr>rx_buf := fill_buffer (rx_buf st) bs\<rparr>, [], Continue)"
    using frame_step_other [of bs st exanic_best_line exanic_deep_line h]
    by (simp add: exanic_step_def)
qed

lemma strtok_colon:
  assumes "CHR '':'' \<notin> set a" "a \<noteq> []"
  shows "strtok_from (a @ CHR '':'' # b) '':'' = (Some a, b)" "strtok_from a '':'' = (Some a, [])"
proof -
  obtain x xs where a: "a = x # xs" "x \<noteq> CHR '':''" using assms by (cases a) auto
  have "takeWhile (\<lambda>c. c \<notin> set '':'') (xs @ CHR '':'' # b) = xs"
    "dropWhile (\<lambda>c. c \<notin> set '':'') (xs @ CHR '':'' # b) = CHR '':'' # b"
    "takeWhile (\<lambda>c. c \<notin> set '':'') xs = xs" "dropWhile (\<lambda>c. c \<notin> set '':'') xs = []"
    using assms(1) a
    by (auto simp: takeWhile_append dropWhile_append takeWhile_eq_all_conv
        dropWhile_eq_Nil_conv)
  moreover have "dropWhile (\<lambda>c. c \<noteq> CHR '':'') xs = []" using assms(1) a by auto
  ultimately show "strtok_from (a @ CHR '':'' # b) '':'' = (Some a, b)"
    "strtok_from a '':'' = (Some a, [])" using a by (simp_all add: strtok_from_def Let_def del: dropWhile_eq_Nil_conv)
qed

lemma digits_no_colon: "CHR '':'' \<notin> set (show_nat n)"
  using show_nat_digits [of "CHR '':''" n] by (auto simp: is_digit_def digit_val_def)

lemma unsigned_of_nat_8: "ucast (of_nat n :: s32) = (of_nat n :: byte)"
  by transfer (simp add: take_bit_take_bit)

section \<open>Properties\<close>

text \<open>
  C18.  Whatever frames arrive, the ExaNIC client prints, in order of arrival, exactly one
  line for each IPv4 frame of more than 64 bytes to 239.239.239.8 (untagged or with one
  802.1Q tag), preceded by a gap warning exactly when its IP identification does not
  follow the previous one; it prints nothing for other frames and never leaves the loop.
\<close>

theorem exanic_reports_group_frames:
  assumes "handler_ok h" "length (rx_buf st) = 2048" "\<forall>bs\<in>set frames. length bs \<le> 2048"
  shows "\<exists>st' lines. length lines = length (filter wire_group frames) \<and>
    run_loop (exanic_step h) st (map rx_frame frames) =
      Some (st', expected (rx_prev_ip_id st) (filter wire_group frames) lines, Continue)"
  by (rule exanic_client.run_frames [OF assms])

theorem exanic_reports_group_frames_witness:
  "\<exists>st' line.
    run_loop (exanic_step quiet_handler) \<lparr>rx_buf = replicate 2048 0, rx_prev_ip_id = 6\<rparr>
      [rx_frame sample_frame, rx_frame [1, 2, 3]] =
    Some (st', expected 6 [sample_frame] [line], Continue)"
  using exanic_reports_group_frames [of quiet_handler
      "\<lparr>rx_buf = replicate 2048 0, rx_prev_ip_id = 6\<rparr>" "[sample_frame, [1, 2, 3]]"]
  by (auto simp: quiet_handler_ok sample_frame_group length_sample_frame wire_group_def [of "[1, 2, 3]"]
      length_Suc_conv)

text \<open>
  C14.  A device argument \<open>name:port\<close> is read back as written: for a non-empty name
  without colons and a port below 256 in decimal, the client opens exactly that device
  and port.
\<close>

theorem exanic_parse_name_port:
  assumes "CHR '':'' \<notin> set name" "name \<noteq> []" "p < 256"
  shows "exanic_parse (name @ '':'' @ show_nat p) = Some (name, of_nat p)"
proof -
  have p: "atoi (show_nat p) = of_nat p"
    using strtol_show_nat [of p "[]"] assms(3) by (simp add: atoi_def)
  have "strtok_from (show_nat p) '':'' = (Some (show_nat p), [])"
    by (rule strtok_colon) (simp_all add: digits_no_colon length_show_nat_pos)
  with strtok_colon(1) [OF assms(1,2), of "show_nat p"] p show ?thesis
    by (simp add: exanic_parse_def strtok_def unsigned_of_nat_8)
qed

theorem exanic_parse_name_port_witness:
  "exanic_parse (''exanic0'' @ '':'' @ show_nat 1) = Some (''exanic0'', 1)"
  using exanic_parse_name_port [of "''exanic0''" 1] by simp

text \<open>
  C16.  An argument that ends right after its only colon passes the check for a colon, and
  the program then calls \<open>atoi\<close> on the null pointer \<open>strtok\<close> returned: the set-up is
  undefined for every such argument, instead of printing the usage text.
\<close>

theorem exanic_missing_port_undefined:
  assumes "CHR '':'' \<notin> set name"
  shows "exanic_setup env [prog, name @ '':''] = None"
proof -
  have "strchr (name @ '':'') CHR '':'' \<noteq> None" using strchr_None_iff by auto
  moreover have "exanic_parse (name @ '':'') = None"
  proof (cases "name = []")
    case True
    then show ?thesis by (simp add: exanic_parse_def strtok_def strtok_from_def)
  next
    case False
    from strtok_colon(1) [OF assms False, of "[]"] show ?thesis
      by (simp add: exanic_parse_def strtok_def strtok_from_def)
  qed
  ultimately show ?thesis by (auto simp: exanic_setup_def)
qed

theorem exanic_missing_port_undefined_witness:
  "exanic_setup \<lparr>ex_handle = (\<lambda>_. True), ex_rx_buffer = (\<lambda>_ _. True), ex_last_error = []\<rparr>
     [''dce-sub-exanic'', ''exanic0'' @ '':''] = None"
  by (rule exanic_missing_port_undefined) simp

text \<open>
  Once its arguments have been read, the ExaNIC program has no undefined behaviour on
  any sequence of receive results, and its loop never ends: it exits only from the set-up.
\<close>

theorem exanic_main_safe:
  assumes "handler_ok h" "length buf = 2048" "exanic_setup env argv = Some (out, fl)"
  shows "\<exists>out'. exanic_main env argv h buf rs = Some (out @ out', fl)"
proof -
  have go: "run_loop (exanic_step h) st rs = Some (st', o', fl') \<Longrightarrow> fl' = Continue" for st st' o' fl'
    by (erule run_loop_flow) (auto simp: exanic_step_def Let_def bind_eq_Some_conv)
  obtain st' o' fl' where
    r: "run_loop (exanic_step h) \<lparr>rx_buf = buf, rx_prev_ip_id = 0\<rparr> rs = Some (st', o', fl')"
    using exanic_run.run_ok [OF assms(1), of "\<lparr>rx_buf = buf, rx_prev_ip_id = 0\<rparr>" rs] assms(2)
    by auto
  with go [OF r] assms(3) show ?thesis by (auto simp: exanic_main_def)
qed

end
