(* ===== verification/SocketSub.thy ===== *)
theory SocketSub
  imports Wire C_String
begin

text \<open>
  \<open>dce-sub-socket.c\<close>: the client on a plain UDP socket.  It binds port 888, joins the
  multicast group and passes each datagram's payload to \<open>packet_handler_payload\<close>.  The
  system calls are a parameter: a function from the call to its return value.
\<close>

section \<open>Setting up the socket\<close>

abbreviation (input) EXAMPLE_PORT :: u16 where "EXAMPLE_PORT \<equiv> 888"
abbreviation (input) EXAMPLE_GROUP :: string where "EXAMPLE_GROUP \<equiv> ''239.239.239.8''"
abbreviation (input) INADDR_ANY :: u32 where "INADDR_ANY \<equiv> 0"

text \<open>\<open>inet_addr\<close> on an address of four decimal parts; anything else is \<open>INADDR_NONE\<close>.\<close>

fun dotted_quad :: "nat \<Rightarrow> string \<Rightarrow> byte list option" where
  "dotted_quad 0 s = None"
| "dotted_quad (Suc n) s =
     (case strtol 10 s of (v, r) \<Rightarrow>
        if v < 0 \<or> 255 < v \<or> r = s then None
        else if n = 0 then (if r = [] then Some [of_int v] else None)
        else (case r of c # r' \<Rightarrow>
                if c = CHR ''.'' then map_option (\<lambda>bs. of_int v # bs) (dotted_quad n r') else None
              | [] \<Rightarrow> None))"

definition inet_addr :: "string \<Rightarrow> u32" where
  "inet_addr s = (case dotted_quad 4 s of Some bs \<Rightarrow> word_of_le bs | None \<Rightarrow> 0xffffffff)"

datatype sock_call =
    Socket
  | Bind u16 u32
  | Add_membership u32 u32

definition socket_setup :: "(sock_call \<Rightarrow> int) \<Rightarrow> sock_call list \<times> msg list \<times> flow" where
  "socket_setup sys =
     (let b = Bind (htons EXAMPLE_PORT) (htonl INADDR_ANY);
          m = Add_membership (inet_addr EXAMPLE_GROUP) (htonl INADDR_ANY)
      in if sys Socket < 0 then ([Socket], [Perror ''socket''], Exit (-1))
         else if sys b < 0 then ([Socket, b], [Perror ''bind''], Exit (-1))
         else if sys m < 0 then ([Socket, b, m], [Perror ''setsockopt mreq''], Exit (-1))
         else ([Socket, b, m], [], Continue))"

section \<open>The receive loop\<close>

definition socket_best_line :: "byte list \<Rightarrow> string option" where
  "socket_best_line out = do {
     q \<leftarrow> best_decode out;
     contract_id \<leftarrow> fmt_s out (offsetof best_layout Bq_contract_id);
     gen_time \<leftarrow> fmt_s out (offsetof best_layout Bq_gen_time);
     Some (contract_id @ '', '' @ gen_time @ '', best, '' @ best_book q @ '', '' @
       fmt_d (bq_match_tot_qty q) @ ''/'' @ fmt_f 2 (bq_turnover q) @ ''/'' @
       fmt_d (bq_open_interest q) @ '', '' @ best_last q @ newline)
   }"

definition socket_deep_line :: "byte list \<Rightarrow> string option" where
  "socket_deep_line out = do {
     q \<leftarrow> depth_decode out;
     contract_id \<leftarrow> fmt_s out (offsetof depth_layout Du_contract_id);
     gen_time \<leftarrow> fmt_s out (offsetof depth_layout Du_gen_time);
     Some (contract_id @ '', '' @ gen_time @ '', deep, '' @ deep_book q @ newline)
   }"

text \<open>
  The state is the 2048-byte \<open>message\<close> array.  The decoder is also told the payload size.
\<close>

definition socket_step ::
  "(int \<Rightarrow> handler) \<Rightarrow> byte list \<Rightarrow> rx_result \<Rightarrow> (byte list \<times> msg list \<times> flow) option" where
  "socket_step h message r =
     (let cnt = rx_ret r; message = fill_buffer message (rx_data r)
      in if cnt < 0 then Some (message, [Perror ''recvfrom''], Exit (-1))
         else if cnt < 20 \<and> 144 < cnt then
           Some (message, [Out (''<ERR> abnormal payload size:'' @ show_int cnt @ newline)], Exit 0)
         else do {
           (message', line) \<leftarrow> dispatch socket_best_line socket_deep_line (h cnt) message cnt;
           Some (message', [Out line], Continue)
         })"

definition socket_main ::
  "(sock_call \<Rightarrow> int) \<Rightarrow> (int \<Rightarrow> handler) \<Rightarrow> byte list \<Rightarrow> rx_result list \<Rightarrow>
   (msg list \<times> flow) option" where
  "socket_main sys h message rs =
     (case socket_setup sys of
        (calls, out, fl) \<Rightarrow>
          if fl = Continue then do {
            (m, out', fl') \<leftarrow> run_loop (socket_step h) message rs;
            Some (out @ out', fl')
          }
          else Some (out, fl))"

section \<open>Lemmas\<close>

interpretation socket_fmt: report_format socket_best_line socket_deep_line
  by unfold_locales
    (auto elim!: terminated_parts simp: socket_best_line_def socket_deep_line_def)

definition payload_ok :: "(int \<Rightarrow> handler) \<Rightarrow> bool" where
  "payload_ok h \<longleftrightarrow> (\<forall>cnt. handler_ok (h cnt))"

text \<open>On any non-negative count the body prints exactly one line and goes on.\<close>

lemma socket_step_data:
  assumes "payload_ok h" "0 \<le> rx_ret r"
  shows "\<exists>m line. socket_step h message r = Some (m, [Out line], Continue) \<and>
           length m = length message"
proof -
  have "handler_ok (h (rx_ret r))" using assms(1) by (simp add: payload_ok_def)
  from socket_fmt.dispatch_total [OF this, of "fill_buffer message (rx_data r)" "rx_ret r"]
  show ?thesis using assms(2) by (auto simp: socket_step_def Let_def)
qed

interpretation socket_run: rx_loop socket_step payload_ok "\<lambda>message. length message = 2048"
proof unfold_locales
  fix h r and message :: "byte list"
  assume ok: "payload_ok h" and len: "length message = 2048"
  show "\<exists>s' out fl. socket_step h message r = Some (s', out, fl) \<and> (fl = Continue \<longrightarrow> length s' = 2048)"
  proof (cases "0 \<le> rx_ret r")
    case True
    with socket_step_data [OF ok True, of message] len show ?thesis by auto
  qed (use len in \<open>simp add: socket_step_def Let_def\<close>)
qed

lemma dotted_quad_numeral:
  "dotted_quad (numeral k) s =
     (case strtol 10 s of (v, r) \<Rightarrow>
        if v < 0 \<or> 255 < v \<or> r = s then None
        else if pred_numeral k = 0 then (if r = [] then Some [of_int v] else None)
        else (case r of c # r' \<Rightarrow>
                if c = CHR ''.'' then
                  map_option (\<lambda>bs. of_int v # bs) (dotted_quad (pred_numeral k) r') else None
              | [] \<Rightarrow> None))"
  by (rule dotted_quad.simps(2) [of "pred_numeral k" s, folded numeral_eq_Suc [of k]])

lemma inet_addr_group: "inet_addr EXAMPLE_GROUP = 0x08efefef"
  by (simp add: inet_addr_def dotted_quad_numeral dotted_quad.simps strtol_def split_sign_def isspace_def is_digit_def
     digit_val_def digits_val_def clamp_long_def word_of_le_def)

lemma socket_run_data:
  assumes "payload_ok h" "\<forall>r\<in>set rs. 0 \<le> rx_ret r"
  shows "\<exists>m lines. length lines = length rs \<and>
    run_loop (socket_step h) message rs = Some (m, map Out lines, Continue)"
  using assms(2)
proof (induction rs arbitrary: message)
  case (Cons r rs)
  have "0 \<le> rx_ret r" using Cons.prems by simp
  then obtain m line where s: "socket_step h message r = Some (m, [Out line], Continue)"
    using socket_step_data [OF assms(1)] by blast
  obtain m' lines where "length lines = length rs"
    "run_loop (socket_step h) m rs = Some (m', map Out lines, Continue)"
    using Cons.IH [of m] Cons.prems by auto
  with s show ?case by (intro exI [of _ m'] exI [of _ "line # lines"]) auto
qed simp

section \<open>Properties\<close>

text \<open>
  C2.  Every datagram gives exactly one printed line, whatever its size: as long as
  \<open>recvfrom\<close> succeeds the loop runs on.  In particular the check for an abnormal payload
  size (below 20 and above 144 at once) never stops the program or skips a datagram.
\<close>

theorem socket_one_line_per_datagram:
  assumes "payload_ok h" "\<forall>r\<in>set rs. 0 \<le> rx_ret r"
  shows "\<exists>m lines. length lines = length rs \<and>
    run_loop (socket_step h) message rs = Some (m, map Out lines, Continue)"
  using assms by (rule socket_run_data)

theorem socket_one_line_per_datagram_witness:
  "\<exists>m lines. length lines = 2 \<and>
    run_loop (socket_step (\<lambda>_. quiet_handler)) (replicate 2048 0) [rx_frame [1], rx_frame (replicate 500 7)] =
      Some (m, map Out lines, Continue)"
  using socket_one_line_per_datagram [of "\<lambda>_. quiet_handler" "[rx_frame [1], rx_frame (replicate 500 7)]"
      "replicate 2048 0"]
  by (simp add: payload_ok_def sample_facts numeral_2_eq_2 del: run_loop.simps)

text \<open>
  The UDP program reaches its receive loop exactly when the three set-up calls
  succeed; it has then bound port 888 on any address (bytes 03 78) and joined
  239.239.239.8 (bytes EF EF EF 08) on the default interface, in that order; on the first
  failing call it reports that call and exits with -1.
\<close>

theorem socket_setup_calls:
  "socket_setup sys =
     (let b = Bind 0x7803 0; m = Add_membership 0x08efefef 0
      in if sys Socket < 0 then ([Socket], [Perror ''socket''], Exit (- 1))
         else if sys b < 0 then ([Socket, b], [Perror ''bind''], Exit (- 1))
         else if sys m < 0 then ([Socket, b, m], [Perror ''setsockopt mreq''], Exit (- 1))
         else ([Socket, b, m], [], Continue))"
proof -
  have "htons EXAMPLE_PORT = 0x7803" "htonl INADDR_ANY = 0"
    by (simp_all add: htons_def htonl_def bswap16_def bswap32_def le_of_word_def word_of_le_def)
  then show ?thesis by (simp add: socket_setup_def inet_addr_group)
qed

text \<open>The first call that fails, if any: the set-up in its order, then \<open>recvfrom\<close>.\<close>

definition setup_failure :: "(sock_call \<Rightarrow> int) \<Rightarrow> string option" where
  "setup_failure sys =
     (if sys Socket < 0 then Some ''socket'' else if sys (Bind 0x7803 0) < 0 then Some ''bind''
      else if sys (Add_membership 0x08efefef 0) < 0 then Some ''setsockopt mreq'' else None)"

definition first_failure :: "(sock_call \<Rightarrow> int) \<Rightarrow> rx_result list \<Rightarrow> string option" where
  "first_failure sys rs =
     (case setup_failure sys of Some c \<Rightarrow> Some c
      | None \<Rightarrow> if \<exists>r \<in> set rs. rx_ret r < 0 then Some ''recvfrom'' else None)"

lemma socket_run_failure:
  assumes "payload_ok h"
  shows "\<exists>m lines. length lines = length (takeWhile (\<lambda>r. 0 \<le> rx_ret r) rs) \<and>
    run_loop (socket_step h) message rs =
      (if \<exists>r \<in> set rs. rx_ret r < 0 then Some (m, map Out lines @ [Perror ''recvfrom''], Exit (- 1))
       else Some (m, map Out lines, Continue))"
proof (induction rs arbitrary: message)
  case (Cons r rs)
  show ?case
  proof (cases "0 \<le> rx_ret r")
    case True
    then obtain m line where s: "socket_step h message r = Some (m, [Out line], Continue)"
      using socket_step_data [OF assms] by blast
    obtain m' lines where r: "length lines = length (takeWhile (\<lambda>r. 0 \<le> rx_ret r) rs)"
      "run_loop (socket_step h) m rs =
        (if \<exists>r \<in> set rs. rx_ret r < 0 then Some (m', map Out lines @ [Perror ''recvfrom''], Exit (- 1))
         else Some (m', map Out lines, Continue))"
      using Cons.IH [of m] by blast
    with s True show ?thesis by (intro exI [of _ m'] exI [of _ "line # lines"]) auto
  qed (auto simp: socket_step_def Let_def)
qed simp

text \<open>
  C13.  The UDP program is never undefined, and it ends exactly with its first failing call: a
  set-up call or a \<open>recvfrom\<close>.  It has then printed one line for every datagram received
  before, reports that call and returns -1; while no call fails it prints one line per
  datagram and runs on.
\<close>

theorem socket_main_safe:
  assumes "payload_ok h"
  shows "\<exists>lines. socket_main sys h message rs =
      (case first_failure sys rs of
         Some c \<Rightarrow> Some (map Out lines @ [Perror c], Exit (- 1))
       | None \<Rightarrow> Some (map Out lines, Continue)) \<and>
    length lines = (if setup_failure sys = None then length (takeWhile (\<lambda>r. 0 \<le> rx_ret r) rs) else 0)"
proof -
  obtain m lines where "length lines = length (takeWhile (\<lambda>r. 0 \<le> rx_ret r) rs)"
    "run_loop (socket_step h) message rs =
      (if \<exists>r \<in> set rs. rx_ret r < 0 then Some (m, map Out lines @ [Perror ''recvfrom''], Exit (- 1))
       else Some (m, map Out lines, Continue))"
    using socket_run_failure [OF assms] by blast
  then show ?thesis
    by (intro exI [of _ "if setup_failure sys = None then lines else []"])
      (simp add: socket_main_def socket_setup_calls setup_failure_def first_failure_def Let_def)
qed

theorem socket_main_safe_witness:
  "\<exists>line. socket_main (\<lambda>_. 0) (\<lambda>_. quiet_handler) (replicate 2048 0) [rx_frame [1], Rx (- 1) [], rx_frame [2]] =
     Some ([Out line, Perror ''recvfrom''], Exit (- 1))"
proof -
  let ?rs = "[rx_frame [1], Rx (- 1) [], rx_frame [2]]"
  have "first_failure (\<lambda>_. 0) ?rs = Some ''recvfrom''" "setup_failure (\<lambda>_. 0) = None"
    by (simp_all add: first_failure_def setup_failure_def)
  then show ?thesis
    using socket_main_safe [of "\<lambda>_. quiet_handler" "\<lambda>_. 0" "replicate 2048 0" ?rs]
    by (auto simp: payload_ok_def sample_facts length_Suc_conv)
qed

end
