(* ===== verification/EfEvent.thy ===== *)
theory EfEvent
  imports Prelude
begin

text \<open>
  \<open>etherfabric/ef_vi.h\<close>, events: the union \<open>ef_event\<close> of bit-field structures, the
  enumerations of event types and discard reasons, and the access macros.  An event is
  its 128 bits; each member of the union is a list of fields with their widths, placed by
  the x86-64 rule that a bit-field never straddles a 32-bit unit.
\<close>

unbundle bit_operations_syntax

section \<open>Bit-fields\<close>

definition bit_place :: "nat \<Rightarrow> nat \<Rightarrow> nat" where
  "bit_place pos w = (if pos mod 32 + w \<le> 32 then pos else 32 * (pos div 32 + 1))"

fun bit_offset :: "nat \<Rightarrow> ('f \<times> nat) list \<Rightarrow> 'f \<Rightarrow> nat" where
  "bit_offset pos [] f = pos"
| "bit_offset pos ((g, w) # L) f =
     (if f = g then bit_place pos w else bit_offset (bit_place pos w + w) L f)"

fun bit_width :: "('f \<times> nat) list \<Rightarrow> 'f \<Rightarrow> nat" where
  "bit_width [] f = 0"
| "bit_width ((g, w) # L) f = (if f = g then w else bit_width L f)"

section \<open>The union of events\<close>

datatype ev_field =
    F_type | F_q_id | F_reserved | F_rq_id | F_len | F_flags | F_ofs | F_subtype | F_desc_id
  | F_ts_sec | F_ts_nsec | F_alt_id | F_n_pkts | F_ps_flags | F_data | F_n_descs | F_dma_id
  | F_pkt_id | F_user

datatype ev_member =
    Ev_generic | Ev_rx | Ev_rx_discard | Ev_tx | Ev_tx_error | Ev_tx_timestamp | Ev_tx_alt
  | Ev_rx_no_desc_trunc | Ev_rx_packed_stream | Ev_sw | Ev_rx_multi | Ev_rx_multi_discard
  | Ev_rx_multi_pkts | Ev_memcpy | Ev_rx_ref | Ev_rx_ref_discard

fun ev_layout :: "ev_member \<Rightarrow> (ev_field \<times> nat) list" where
  "ev_layout Ev_generic = [(F_type, 16)]"
| "ev_layout Ev_rx =
     [(F_type, 16), (F_q_id, 8), (F_reserved, 8), (F_rq_id, 32), (F_len, 16), (F_flags, 16),
      (F_ofs, 16)]"
| "ev_layout Ev_rx_discard =
     [(F_type, 16), (F_q_id, 8), (F_reserved, 8), (F_rq_id, 32), (F_len, 16), (F_flags, 16),
      (F_subtype, 16)]"
| "ev_layout Ev_tx = [(F_type, 16), (F_q_id, 8), (F_flags, 8), (F_desc_id, 16)]"
| "ev_layout Ev_tx_error =
     [(F_type, 16), (F_q_id, 8), (F_flags, 8), (F_desc_id, 16), (F_subtype, 16)]"
| "ev_layout Ev_tx_timestamp =
     [(F_type, 16), (F_q_id, 8), (F_flags, 8), (F_rq_id, 32), (F_ts_sec, 32), (F_ts_nsec, 32)]"
| "ev_layout Ev_tx_alt = [(F_type, 16), (F_q_id, 8), (F_reserved, 8), (F_alt_id, 16)]"
| "ev_layout Ev_rx_no_desc_trunc = [(F_type, 16), (F_q_id, 8)]"
| "ev_layout Ev_rx_packed_stream =
     [(F_type, 16), (F_q_id, 8), (F_reserved, 8), (F_flags, 16), (F_n_pkts, 16), (F_ps_flags, 8)]"
| "ev_layout Ev_sw = [(F_type, 16), (F_data, 32)]"
| "ev_layout Ev_rx_multi =
     [(F_type, 16), (F_q_id, 8), (F_reserved, 8), (F_n_descs, 16), (F_flags, 16)]"
| "ev_layout Ev_rx_multi_discard =
     [(F_type, 16), (F_q_id, 8), (F_reserved, 8), (F_n_descs, 16), (F_flags, 16), (F_subtype, 16)]"
| "ev_layout Ev_rx_multi_pkts =
     [(F_type, 16), (F_q_id, 8), (F_reserved, 8), (F_n_pkts, 16), (F_flags, 16)]"
| "ev_layout Ev_memcpy = [(F_type, 16), (F_reserved, 16), (F_dma_id, 32)]"
| "ev_layout Ev_rx_ref = [(F_type, 16), (F_len, 16), (F_pkt_id, 32), (F_q_id, 8), (F_user, 24)]"
| "ev_layout Ev_rx_ref_discard =
     [(F_type, 16), (F_len, 16), (F_pkt_id, 32), (F_q_id, 8), (F_user, 24), (F_flags, 16)]"

type_synonym ef_event = "128 word"

definition ev_get :: "ev_member \<Rightarrow> ev_field \<Rightarrow> ef_event \<Rightarrow> u32" where
  "ev_get m f e =
     ucast (take_bit (bit_width (ev_layout m) f) (drop_bit (bit_offset 0 (ev_layout m) f) e))"

definition ev_set :: "ev_member \<Rightarrow> ev_field \<Rightarrow> u32 \<Rightarrow> ef_event \<Rightarrow> ef_event" where
  "ev_set m f v e =
     (let off = bit_offset 0 (ev_layout m) f; w = bit_width (ev_layout m) f
      in (e AND NOT (push_bit off (mask w))) OR push_bit off (take_bit w (ucast v)))"

section \<open>Event types and discard reasons\<close>

datatype ef_event_type =
    EF_EVENT_TYPE_RX | EF_EVENT_TYPE_TX | EF_EVENT_TYPE_RX_DISCARD | EF_EVENT_TYPE_TX_ERROR
  | EF_EVENT_TYPE_RX_NO_DESC_TRUNC | EF_EVENT_TYPE_SW | EF_EVENT_TYPE_OFLOW
  | EF_EVENT_TYPE_TX_WITH_TIMESTAMP | EF_EVENT_TYPE_RX_PACKED_STREAM | EF_EVENT_TYPE_RX_MULTI
  | EF_EVENT_TYPE_TX_ALT | EF_EVENT_TYPE_RX_MULTI_DISCARD | EF_EVENT_TYPE_RESET
  | EF_EVENT_TYPE_MEMCPY | EF_EVENT_TYPE_RX_MULTI_PKTS | EF_EVENT_TYPE_RX_REF
  | EF_EVENT_TYPE_RX_REF_DISCARD

fun event_type_code :: "ef_event_type \<Rightarrow> u32" where
  "event_type_code EF_EVENT_TYPE_RX = 0"
| "event_type_code EF_EVENT_TYPE_TX = 1"
| "event_type_code EF_EVENT_TYPE_RX_DISCARD = 2"
| "event_type_code EF_EVENT_TYPE_TX_ERROR = 3"
| "event_type_code EF_EVENT_TYPE_RX_NO_DESC_TRUNC = 4"
| "event_type_code EF_EVENT_TYPE_SW = 5"
| "event_type_code EF_EVENT_TYPE_OFLOW = 6"
| "event_type_code EF_EVENT_TYPE_TX_WITH_TIMESTAMP = 7"
| "event_type_code EF_EVENT_TYPE_RX_PACKED_STREAM = 8"
| "event_type_code EF_EVENT_TYPE_RX_MULTI = 9"
| "event_type_code EF_EVENT_TYPE_TX_ALT = 10"
| "event_type_code EF_EVENT_TYPE_RX_MULTI_DISCARD = 11"
| "event_type_code EF_EVENT_TYPE_RESET = 12"
| "event_type_code EF_EVENT_TYPE_MEMCPY = 13"
| "event_type_code EF_EVENT_TYPE_RX_MULTI_PKTS = 14"
| "event_type_code EF_EVENT_TYPE_RX_REF = 15"
| "event_type_code EF_EVENT_TYPE_RX_REF_DISCARD = 16"

datatype rx_discard_reason =
    EF_EVENT_RX_DISCARD_CSUM_BAD | EF_EVENT_RX_DISCARD_MCAST_MISMATCH
  | EF_EVENT_RX_DISCARD_CRC_BAD | EF_EVENT_RX_DISCARD_TRUNC | EF_EVENT_RX_DISCARD_RIGHTS
  | EF_EVENT_RX_DISCARD_EV_ERROR | EF_EVENT_RX_DISCARD_OTHER | EF_EVENT_RX_DISCARD_INNER_CSUM_BAD

fun discard_code :: "rx_discard_reason \<Rightarrow> u32" where
  "discard_code EF_EVENT_RX_DISCARD_CSUM_BAD = 0"
| "discard_code EF_EVENT_RX_DISCARD_MCAST_MISMATCH = 1"
| "discard_code EF_EVENT_RX_DISCARD_CRC_BAD = 2"
| "discard_code EF_EVENT_RX_DISCARD_TRUNC = 3"
| "discard_code EF_EVENT_RX_DISCARD_RIGHTS = 4"
| "discard_code EF_EVENT_RX_DISCARD_EV_ERROR = 5"
| "discard_code EF_EVENT_RX_DISCARD_OTHER = 6"
| "discard_code EF_EVENT_RX_DISCARD_INNER_CSUM_BAD = 7"

datatype tx_error_reason =
    EF_EVENT_TX_ERROR_RIGHTS | EF_EVENT_TX_ERROR_OFLOW | EF_EVENT_TX_ERROR_2BIG
  | EF_EVENT_TX_ERROR_BUS

fun tx_error_code :: "tx_error_reason \<Rightarrow> u32" where
  "tx_error_code EF_EVENT_TX_ERROR_RIGHTS = 0"
| "tx_error_code EF_EVENT_TX_ERROR_OFLOW = 1"
| "tx_error_code EF_EVENT_TX_ERROR_2BIG = 2"
| "tx_error_code EF_EVENT_TX_ERROR_BUS = 3"

section \<open>Access macros\<close>

abbreviation (input) EF_EVENT_FLAG_SOP :: u32 where "EF_EVENT_FLAG_SOP \<equiv> 0x1"
abbreviation (input) EF_EVENT_FLAG_CONT :: u32 where "EF_EVENT_FLAG_CONT \<equiv> 0x2"
abbreviation (input) EF_EVENT_FLAG_ISCSI_OK :: u32 where "EF_EVENT_FLAG_ISCSI_OK \<equiv> 0x4"
abbreviation (input) EF_EVENT_FLAG_PS_NEXT_BUFFER :: u32 where "EF_EVENT_FLAG_PS_NEXT_BUFFER \<equiv> 0x10"
abbreviation (input) EF_EVENT_FLAG_CTPIO :: u32 where "EF_EVENT_FLAG_CTPIO \<equiv> 0x1"

definition EF_EVENT_TYPE :: "ef_event \<Rightarrow> u32" where
  "EF_EVENT_TYPE e = ev_get Ev_generic F_type e"

definition EF_EVENT_RX_BYTES :: "ef_event \<Rightarrow> u32" where
  "EF_EVENT_RX_BYTES e = ev_get Ev_rx F_len e"

definition EF_EVENT_RX_Q_ID :: "ef_event \<Rightarrow> u32" where
  "EF_EVENT_RX_Q_ID e = ev_get Ev_rx F_q_id e"

definition EF_EVENT_RX_RQ_ID :: "ef_event \<Rightarrow> u32" where
  "EF_EVENT_RX_RQ_ID e = ev_get Ev_rx F_rq_id e"

definition EF_EVENT_RX_CONT :: "ef_event \<Rightarrow> bool" where
  "EF_EVENT_RX_CONT e \<longleftrightarrow> ev_get Ev_rx F_flags e AND EF_EVENT_FLAG_CONT \<noteq> 0"

definition EF_EVENT_RX_SOP :: "ef_event \<Rightarrow> bool" where
  "EF_EVENT_RX_SOP e \<longleftrightarrow> ev_get Ev_rx F_flags e AND EF_EVENT_FLAG_SOP \<noteq> 0"

definition EF_EVENT_RX_PS_NEXT_BUFFER :: "ef_event \<Rightarrow> bool" where
  "EF_EVENT_RX_PS_NEXT_BUFFER e \<longleftrightarrow>
     ev_get Ev_rx_packed_stream F_flags e AND EF_EVENT_FLAG_PS_NEXT_BUFFER \<noteq> 0"

definition EF_EVENT_RX_ISCSI_OKAY :: "ef_event \<Rightarrow> bool" where
  "EF_EVENT_RX_ISCSI_OKAY e \<longleftrightarrow> ev_get Ev_rx F_flags e AND EF_EVENT_FLAG_ISCSI_OK \<noteq> 0"

definition EF_EVENT_TX_Q_ID :: "ef_event \<Rightarrow> u32" where
  "EF_EVENT_TX_Q_ID e = ev_get Ev_tx F_q_id e"

definition EF_EVENT_TX_CTPIO :: "ef_event \<Rightarrow> bool" where
  "EF_EVENT_TX_CTPIO e \<longleftrightarrow> ev_get Ev_tx F_flags e AND EF_EVENT_FLAG_CTPIO \<noteq> 0"

definition EF_EVENT_RX_DISCARD_Q_ID :: "ef_event \<Rightarrow> u32" where
  "EF_EVENT_RX_DISCARD_Q_ID e = ev_get Ev_rx_discard F_q_id e"

definition EF_EVENT_RX_DISCARD_RQ_ID :: "ef_event \<Rightarrow> u32" where
  "EF_EVENT_RX_DISCARD_RQ_ID e = ev_get Ev_rx_discard F_rq_id e"

definition EF_EVENT_RX_DISCARD_CONT :: "ef_event \<Rightarrow> bool" where
  "EF_EVENT_RX_DISCARD_CONT e \<longleftrightarrow> ev_get Ev_rx_discard F_flags e AND EF_EVENT_FLAG_CONT \<noteq> 0"

definition EF_EVENT_RX_DISCARD_SOP :: "ef_event \<Rightarrow> bool" where
  "EF_EVENT_RX_DISCARD_SOP e \<longleftrightarrow> ev_get Ev_rx_discard F_flags e AND EF_EVENT_FLAG_SOP \<noteq> 0"

definition EF_EVENT_RX_DISCARD_TYPE :: "ef_event \<Rightarrow> u32" where
  "EF_EVENT_RX_DISCARD_TYPE e = ev_get Ev_rx_discard F_subtype e"

definition EF_EVENT_RX_DISCARD_BYTES :: "ef_event \<Rightarrow> u32" where
  "EF_EVENT_RX_DISCARD_BYTES e = ev_get Ev_rx_discard F_len e"

definition EF_EVENT_RX_MULTI_Q_ID :: "ef_event \<Rightarrow> u32" where
  "EF_EVENT_RX_MULTI_Q_ID e = ev_get Ev_rx_multi F_q_id e"

definition EF_EVENT_RX_MULTI_CONT :: "ef_event \<Rightarrow> bool" where
  "EF_EVENT_RX_MULTI_CONT e \<longleftrightarrow> ev_get Ev_rx_multi F_flags e AND EF_EVENT_FLAG_CONT \<noteq> 0"

definition EF_EVENT_RX_MULTI_SOP :: "ef_event \<Rightarrow> bool" where
  "EF_EVENT_RX_MULTI_SOP e \<longleftrightarrow> ev_get Ev_rx_multi F_flags e AND EF_EVENT_FLAG_SOP \<noteq> 0"

definition EF_EVENT_RX_MULTI_DISCARD_TYPE :: "ef_event \<Rightarrow> u32" where
  "EF_EVENT_RX_MULTI_DISCARD_TYPE e = ev_get Ev_rx_multi_discard F_subtype e"

definition EF_EVENT_TX_ERROR_Q_ID :: "ef_event \<Rightarrow> u32" where
  "EF_EVENT_TX_ERROR_Q_ID e = ev_get Ev_tx_error F_q_id e"

definition EF_EVENT_TX_ERROR_TYPE :: "ef_event \<Rightarrow> u32" where
  "EF_EVENT_TX_ERROR_TYPE e = ev_get Ev_tx_error F_subtype e"

definition EF_EVENT_TX_WITH_TIMESTAMP_Q_ID :: "ef_event \<Rightarrow> u32" where
  "EF_EVENT_TX_WITH_TIMESTAMP_Q_ID e = ev_get Ev_tx_timestamp F_q_id e"

definition EF_EVENT_TX_WITH_TIMESTAMP_RQ_ID :: "ef_event \<Rightarrow> u32" where
  "EF_EVENT_TX_WITH_TIMESTAMP_RQ_ID e = ev_get Ev_tx_timestamp F_rq_id e"

definition EF_EVENT_TX_WITH_TIMESTAMP_SEC :: "ef_event \<Rightarrow> u32" where
  "EF_EVENT_TX_WITH_TIMESTAMP_SEC e = ev_get Ev_tx_timestamp F_ts_sec e"

definition EF_EVENT_TX_WITH_TIMESTAMP_NSEC :: "ef_event \<Rightarrow> u32" where
  "EF_EVENT_TX_WITH_TIMESTAMP_NSEC e = ev_get Ev_tx_timestamp F_ts_nsec e"

text \<open>The two synchronisation flags share the word with the nanoseconds.\<close>

definition EF_EVENT_TX_WITH_TIMESTAMP_SYNC_FLAGS :: "ef_event \<Rightarrow> u32" where
  "EF_EVENT_TX_WITH_TIMESTAMP_SYNC_FLAGS e = ev_get Ev_tx_timestamp F_ts_nsec e AND (1 OR 2)"

definition EF_EVENT_TX_ALT_Q_ID :: "ef_event \<Rightarrow> u32" where
  "EF_EVENT_TX_ALT_Q_ID e = ev_get Ev_tx_alt F_q_id e"

definition EF_EVENT_TX_ALT_ALT_ID :: "ef_event \<Rightarrow> u32" where
  "EF_EVENT_TX_ALT_ALT_ID e = ev_get Ev_tx_alt F_alt_id e"

definition EF_EVENT_RX_NO_DESC_TRUNC_Q_ID :: "ef_event \<Rightarrow> u32" where
  "EF_EVENT_RX_NO_DESC_TRUNC_Q_ID e = ev_get Ev_rx_no_desc_trunc F_q_id e"

definition EF_EVENT_SW_DATA :: "ef_event \<Rightarrow> u32" where
  "EF_EVENT_SW_DATA e = ev_get Ev_sw F_data e"

section \<open>Lemmas\<close>

lemma bit_place_ge: "pos \<le> bit_place pos w"
  by (auto simp: bit_place_def)

lemma bit_offset_ge: "pos \<le> bit_offset pos L f"
proof (induction L arbitrary: pos)
  case (Cons a L)
  obtain g w where a: "a = (g, w)" by (cases a)
  have "pos \<le> bit_place pos w + w" using bit_place_ge [of pos w] by simp
  with Cons [of "bit_place pos w + w"] bit_place_ge [of pos w] show ?case by (auto simp: a)
qed simp

lemma bit_offset_disjoint:
  assumes "distinct (map fst L)" "f \<in> fst ` set L" "g \<in> fst ` set L" "f \<noteq> g"
  shows "bit_offset pos L f + bit_width L f \<le> bit_offset pos L g \<or>
         bit_offset pos L g + bit_width L g \<le> bit_offset pos L f"
  using assms
proof (induction L arbitrary: pos)
  case (Cons a L)
  obtain h w where a: "a = (h, w)" by (cases a)
  have ge: "bit_place pos w + w \<le> bit_offset (bit_place pos w + w) L k" for k
    by (rule bit_offset_ge)
  show ?case using Cons.prems Cons.IH [of "bit_place pos w + w"] ge by (auto simp: a)
qed simp

lemma bit_ev_get:
  "bit (ev_get m f e) n \<longleftrightarrow>
     n < 32 \<and> n < bit_width (ev_layout m) f \<and> bit e (bit_offset 0 (ev_layout m) f + n)"
  by (auto simp: ev_get_def bit_simps dest: bit_imp_le_length)

lemma bit_ev_set:
  assumes "bit_offset 0 (ev_layout m) f + bit_width (ev_layout m) f \<le> 128"
  shows "bit (ev_set m f v e) n \<longleftrightarrow>
    (if bit_offset 0 (ev_layout m) f \<le> n \<and>
        n < bit_offset 0 (ev_layout m) f + bit_width (ev_layout m) f
     then bit v (n - bit_offset 0 (ev_layout m) f) else bit e n)"
  using assms
  by (auto simp: ev_set_def Let_def bit_simps dest: bit_imp_le_length)

lemma ev_layout_fits: "bit_offset 0 (ev_layout m) f + bit_width (ev_layout m) f \<le> 128"
  by (cases m) (auto simp: bit_place_def)

lemma ev_layout_narrow: "bit_width (ev_layout m) f \<le> 32"
  by (cases m) auto

lemma ev_layout_distinct: "distinct (map fst (ev_layout m))"
  by (cases m) auto

lemma ev_get_set_same: "ev_get m f (ev_set m f v e) = take_bit (bit_width (ev_layout m) f) v"
  using ev_layout_narrow [of m f]
  by (intro bit_eqI) (auto simp: bit_ev_get bit_ev_set [OF ev_layout_fits] bit_take_bit_iff
      dest: bit_imp_le_length)

lemma ev_get_set_other:
  assumes "f \<in> fst ` set (ev_layout m)" "g \<in> fst ` set (ev_layout m)" "f \<noteq> g"
  shows "ev_get m g (ev_set m f v e) = ev_get m g e"
  using bit_offset_disjoint [OF ev_layout_distinct assms, of 0]
  by (intro bit_eqI) (auto simp: bit_ev_get bit_ev_set [OF ev_layout_fits])

text \<open>Fields that two members place alike read alike.\<close>

lemma ev_get_cong:
  assumes "bit_offset 0 (ev_layout m) f = bit_offset 0 (ev_layout m') f'"
    and "bit_width (ev_layout m) f = bit_width (ev_layout m') f'"
  shows "ev_get m f e = ev_get m' f' e"
  using assms by (simp add: ev_get_def)

lemma event_type_code_inject: "event_type_code a = event_type_code b \<longleftrightarrow> a = b"
  by (cases a; cases b) simp_all

instantiation ef_event_type :: linorder
begin

definition less_eq_ef_event_type :: "ef_event_type \<Rightarrow> ef_event_type \<Rightarrow> bool" where
  "less_eq_ef_event_type a b \<longleftrightarrow> event_type_code a \<le> event_type_code b"

definition less_ef_event_type :: "ef_event_type \<Rightarrow> ef_event_type \<Rightarrow> bool" where
  "less_ef_event_type a b \<longleftrightarrow> event_type_code a < event_type_code b"

instance
proof
  fix a b :: ef_event_type
  show "a \<le> b \<Longrightarrow> b \<le> a \<Longrightarrow> a = b"
    unfolding less_eq_ef_event_type_def by (metis event_type_code_inject order_antisym)
qed (auto simp: less_eq_ef_event_type_def less_ef_event_type_def)

end

section \<open>Properties\<close>

text \<open>
  C19.  The layout constraints the header states in its comments hold: a discard event
  starts like a receive event, a transmit error like a transmit event, a time-stamped
  transmit event like a transmit event up to its flags, the two merged receive events
  agree, and every member has the type in the same place.
\<close>

theorem event_members_aligned:
  "ev_get Ev_rx_discard F_q_id e = ev_get Ev_rx F_q_id e \<and>
   ev_get Ev_rx_discard F_rq_id e = ev_get Ev_rx F_rq_id e \<and>
   ev_get Ev_rx_discard F_len e = ev_get Ev_rx F_len e \<and>
   ev_get Ev_rx_discard F_flags e = ev_get Ev_rx F_flags e \<and>
   ev_get Ev_tx_error F_q_id e = ev_get Ev_tx F_q_id e \<and>
   ev_get Ev_tx_error F_flags e = ev_get Ev_tx F_flags e \<and>
   ev_get Ev_tx_error F_desc_id e = ev_get Ev_tx F_desc_id e \<and>
   ev_get Ev_tx_timestamp F_q_id e = ev_get Ev_tx F_q_id e \<and>
   ev_get Ev_tx_timestamp F_flags e = ev_get Ev_tx F_flags e \<and>
   ev_get Ev_rx_multi_discard F_n_descs e = ev_get Ev_rx_multi F_n_descs e \<and>
   ev_get Ev_rx_multi_discard F_flags e = ev_get Ev_rx_multi F_flags e \<and>
   ev_get m F_type e = EF_EVENT_TYPE e"
proof -
  have "ev_get m F_type e = EF_EVENT_TYPE e"
    by (cases m) (simp_all add: EF_EVENT_TYPE_def ev_get_def bit_place_def)
  then show ?thesis by (simp add: ev_get_def bit_place_def)
qed

end
