(* ===== verification/EfVi.thy ===== *)
theory EfVi
  imports EfEvent
begin

text \<open>
  \<open>etherfabric/ef_vi.h\<close> and its internal headers: the virtual interface, the state of its
  receive, transmit and event queues, and the inline functions on them.  The counters of a
  ring are 32-bit words that wrap; \<open>rx_ring\<close> is the list of descriptors they delimit, and
  the lemmas show that adding and removing descriptors are list operations across the
  wrap-around.  The driver's own operations are a record of functions, the parameter
  \<open>vi_ops\<close>; \<open>driver_ok\<close> states what their documentation promises.
\<close>

type_synonym ef_addr = u64
type_synonym ef_request_id = u32

section \<open>Queue state\<close>

record ef_vi_txq_state =
  tx_previous :: u32
  tx_added :: u32
  tx_removed :: u32
  tx_ct_added :: u32
  tx_ct_removed :: u32
  tx_ts_nsec :: u32

record ef_vi_efct_rxq_ptr =
  efct_prev :: u32
  efct_next :: u64

record ef_vi_rxq_state =
  rx_posted :: u32
  rx_added :: u32
  rx_removed :: u32
  rx_in_jumbo :: u32
  rx_bytes_acc :: u32
  rx_last_desc_i :: u16
  rx_ps_credit_avail :: u16
  rx_rxq_ptr :: "ef_vi_efct_rxq_ptr list"

record ef_eventq_state =
  evq_ptr :: u64
  evq_clear_stride :: s32
  sync_timestamp_major :: u32
  sync_timestamp_minor :: u32
  sync_timestamp_minimum :: u32
  sync_timestamp_synchronised :: u32
  unsol_credit_seq :: u32
  sync_flags :: u32

record ef_vi_txq =
  txq_mask :: u32
  txq_ct_fifo_bytes :: u32
  txq_ids :: "u32 list"

text \<open>The receive ring: the DMA address and the request id of each descriptor slot.\<close>

record ef_vi_rxq =
  rxq_mask :: u32
  rxq_descriptors :: "ef_addr list"
  rxq_ids :: "u32 list"

record ef_vi_state =
  ep_evq :: ef_eventq_state
  ep_txq :: ef_vi_txq_state
  ep_rxq :: ef_vi_rxq_state

record ef_vi_stats =
  rx_ev_lost :: u32
  rx_ev_bad_desc_i :: u32
  rx_ev_bad_q_label :: u32
  evq_gap :: u32

datatype ef_vi_arch =
  EF_VI_ARCH_FALCON | EF_VI_ARCH_EF10 | EF_VI_ARCH_EF100 | EF_VI_ARCH_EFCT | EF_VI_ARCH_AF_XDP

record ef_vi_nic_type =
  nic_arch :: ef_vi_arch
  nic_variant :: byte
  nic_revision :: byte
  nic_flags :: byte

record ef_vi_transmit_alt_overhead =
  alt_pre_round :: u32
  alt_mask :: u32
  alt_post_round :: u32

section \<open>The virtual interface\<close>

record ef_vi =
  vi_resource_id :: u32
  vi_i :: u32
  vi_rx_buffer_len :: u32
  vi_rx_prefix_len :: u32
  vi_flags :: u32
  evq_phase_bits :: bool
  vi_txq :: ef_vi_txq
  vi_rxq :: ef_vi_rxq
  ep_state :: ef_vi_state
  nic_type :: ef_vi_nic_type

definition ef_vi_resource_id :: "ef_vi \<Rightarrow> u32" where
  "ef_vi_resource_id vi = vi_resource_id vi"

definition ef_vi_flags :: "ef_vi \<Rightarrow> u32" where
  "ef_vi_flags vi = vi_flags vi"

definition ef_vi_instance :: "ef_vi \<Rightarrow> u32" where
  "ef_vi_instance vi = vi_i vi"

text \<open>Functions of C type \<open>int\<close> that return an unsigned expression read it as signed.\<close>

definition ef_vi_receive_prefix_len :: "ef_vi \<Rightarrow> int" where
  "ef_vi_receive_prefix_len vi = sint (vi_rx_prefix_len vi)"

definition ef_vi_receive_buffer_len :: "ef_vi \<Rightarrow> int" where
  "ef_vi_receive_buffer_len vi = sint (vi_rx_buffer_len vi)"

definition ef_vi_receive_set_buffer_len :: "ef_vi \<Rightarrow> u32 \<Rightarrow> ef_vi" where
  "ef_vi_receive_set_buffer_len vi buf_len = vi\<lparr>vi_rx_buffer_len := buf_len\<rparr>"

definition ef_vi_receive_space :: "ef_vi \<Rightarrow> int" where
  "ef_vi_receive_space vi =
     (let qs = ep_rxq (ep_state vi)
      in sint (rxq_mask (vi_rxq vi) - (rx_added qs - rx_removed qs)))"

definition ef_vi_receive_fill_level :: "ef_vi \<Rightarrow> int" where
  "ef_vi_receive_fill_level vi =
     (let qs = ep_rxq (ep_state vi) in sint (rx_added qs - rx_removed qs))"

definition ef_vi_receive_capacity :: "ef_vi \<Rightarrow> int" where
  "ef_vi_receive_capacity vi = sint (rxq_mask (vi_rxq vi))"

definition ef_vi_transmit_space :: "ef_vi \<Rightarrow> int" where
  "ef_vi_transmit_space vi =
     (let qs = ep_txq (ep_state vi)
      in sint (txq_mask (vi_txq vi) - (tx_added qs - tx_removed qs)))"

definition ef_vi_transmit_fill_level :: "ef_vi \<Rightarrow> int" where
  "ef_vi_transmit_fill_level vi =
     (let qs = ep_txq (ep_state vi) in sint (tx_added qs - tx_removed qs))"

definition ef_vi_transmit_space_bytes :: "ef_vi \<Rightarrow> int" where
  "ef_vi_transmit_space_bytes vi =
     (let qs = ep_txq (ep_state vi)
      in sint (txq_ct_fifo_bytes (vi_txq vi) - (tx_ct_added qs - tx_ct_removed qs)))"

definition ef_vi_transmit_fill_level_bytes :: "ef_vi \<Rightarrow> int" where
  "ef_vi_transmit_fill_level_bytes vi =
     (let qs = ep_txq (ep_state vi) in sint (tx_ct_added qs - tx_ct_removed qs))"

definition ef_vi_transmit_capacity :: "ef_vi \<Rightarrow> int" where
  "ef_vi_transmit_capacity vi = sint (txq_mask (vi_txq vi))"

definition ef_vi_transmit_alt_usage :: "ef_vi_transmit_alt_overhead \<Rightarrow> u32 \<Rightarrow> u32" where
  "ef_vi_transmit_alt_usage params pkt_len =
     (let pkt_len = pkt_len + alt_pre_round params;
          pkt_len = pkt_len AND alt_mask params
      in pkt_len + alt_post_round params)"

text \<open>The library's own queue probes are parameters of the two look-ahead functions.\<close>

record evq_probes =
  check_event :: "ef_vi \<Rightarrow> int \<Rightarrow> int"
  check_event_phase_bit :: "ef_vi \<Rightarrow> int \<Rightarrow> int"
  efxdp_check_event :: "ef_vi \<Rightarrow> int \<Rightarrow> int"
  efct_check_event :: "ef_vi \<Rightarrow> int"

definition ef_eventq_has_event :: "evq_probes \<Rightarrow> ef_vi \<Rightarrow> int" where
  "ef_eventq_has_event p vi =
     (if \<not> evq_phase_bits vi then check_event p vi 0
      else case nic_arch (nic_type vi) of
             EF_VI_ARCH_AF_XDP \<Rightarrow> efxdp_check_event p vi 0
           | EF_VI_ARCH_EFCT \<Rightarrow> efct_check_event p vi
           | _ \<Rightarrow> check_event_phase_bit p vi 0)"

definition ef_eventq_has_many_events :: "evq_probes \<Rightarrow> ef_vi \<Rightarrow> int \<Rightarrow> int" where
  "ef_eventq_has_many_events p evq n_events =
     (if evq_phase_bits evq then check_event_phase_bit p evq n_events
      else check_event p evq n_events)"

definition ef_eventq_current :: "ef_vi \<Rightarrow> u32" where
  "ef_eventq_current evq = ucast (evq_ptr (ep_evq (ep_state evq)))"

text \<open>\<open>internal.h\<close>: the request id of the next buffer the adapter completes.\<close>

definition ef_vi_next_rx_rq_id :: "ef_vi \<Rightarrow> u32 option" where
  "ef_vi_next_rx_rq_id vi =
     (let i = unat (rx_removed (ep_rxq (ep_state vi)) AND rxq_mask (vi_rxq vi))
      in if i < length (rxq_ids (vi_rxq vi)) then Some (rxq_ids (vi_rxq vi) ! i) else None)"

text \<open>
  \<open>memreg.h\<close>: the DMA address of an offset in registered memory; reading the page table
  behind its end is undefined.
\<close>

abbreviation (input) EF_VI_NIC_PAGE_SHIFT :: nat where "EF_VI_NIC_PAGE_SHIFT \<equiv> 12"

definition ef_memreg_dma_addr :: "ef_addr list \<Rightarrow> u64 \<Rightarrow> ef_addr option" where
  "ef_memreg_dma_addr mr_dma_addrs offset =
     (let i = unat (drop_bit EF_VI_NIC_PAGE_SHIFT offset)
      in if i < length mr_dma_addrs
         then Some (mr_dma_addrs ! i OR (offset AND (push_bit EF_VI_NIC_PAGE_SHIFT 1 - 1)))
         else None)"

section \<open>The ring as a list\<close>

definition rx_fill :: "ef_vi \<Rightarrow> nat" where
  "rx_fill vi = unat (rx_added (ep_rxq (ep_state vi)) - rx_removed (ep_rxq (ep_state vi)))"

definition rx_slot :: "ef_vi \<Rightarrow> nat \<Rightarrow> nat" where
  "rx_slot vi k = unat ((rx_removed (ep_rxq (ep_state vi)) + of_nat k) AND rxq_mask (vi_rxq vi))"

definition rx_ring :: "ef_vi \<Rightarrow> (ef_addr \<times> ef_request_id) list" where
  "rx_ring vi = map (\<lambda>k. (rxq_descriptors (vi_rxq vi) ! rx_slot vi k,
     rxq_ids (vi_rxq vi) ! rx_slot vi k)) [0..<rx_fill vi]"

text \<open>
  A ring has a power of two of slots, one of which always stays empty: the capacity the
  header reports is the mask.
\<close>

definition rxq_ok :: "ef_vi \<Rightarrow> bool" where
  "rxq_ok vi \<longleftrightarrow>
     (\<exists>n<31. rxq_mask (vi_rxq vi) = mask n \<and> length (rxq_descriptors (vi_rxq vi)) = 2 ^ n \<and>
        length (rxq_ids (vi_rxq vi)) = 2 ^ n) \<and>
     rx_fill vi \<le> unat (rxq_mask (vi_rxq vi))"

section \<open>Driver operations\<close>

text \<open>
  What the driver may leave alone or change: the configuration of an interface against
  its ring.
\<close>

definition same_config :: "ef_vi \<Rightarrow> ef_vi \<Rightarrow> bool" where
  "same_config vi vi' \<longleftrightarrow>
     rxq_mask (vi_rxq vi') = rxq_mask (vi_rxq vi) \<and> vi_rx_prefix_len vi' = vi_rx_prefix_len vi \<and>
     vi_rx_buffer_len vi' = vi_rx_buffer_len vi"

text \<open>
  A poll is given what the outside world does (\<open>'w\<close>) and returns the events, the interface
  and the DMA writes into posted buffers since the last poll.
\<close>

record 'w vi_ops =
  receive_init :: "ef_vi \<Rightarrow> ef_addr \<Rightarrow> ef_request_id \<Rightarrow> int \<times> ef_vi"
  receive_push :: "ef_vi \<Rightarrow> ef_vi"
  eventq_poll :: "'w \<Rightarrow> ef_vi \<Rightarrow> int \<Rightarrow> ef_event list \<times> ef_vi \<times> (ef_addr \<times> byte list) list"

text \<open>A receive or a discard event completes a descriptor and returns its buffer.\<close>

definition completes :: "ef_event \<Rightarrow> bool" where
  "completes e \<longleftrightarrow> EF_EVENT_TYPE e = event_type_code EF_EVENT_TYPE_RX \<or>
     EF_EVENT_TYPE e = event_type_code EF_EVENT_TYPE_RX_DISCARD"

definition poll_ok :: "ef_vi \<Rightarrow> int \<Rightarrow> ef_event list \<times> ef_vi \<times> (ef_addr \<times> byte list) list \<Rightarrow> bool" where
  "poll_ok vi evs_len r =
     (case r of (evs, vi', dma) \<Rightarrow>
        int (length evs) \<le> evs_len \<and> rxq_ok vi' \<and> same_config vi vi' \<and>
        (let ids = map EF_EVENT_RX_RQ_ID (filter completes evs); k = length ids
         in k \<le> length (rx_ring vi) \<and> ids = map snd (take k (rx_ring vi)) \<and>
            rx_ring vi' = drop k (rx_ring vi) \<and>
            (\<forall>(a, bs)\<in>set dma. length bs \<le> unat (vi_rx_buffer_len vi))))"

abbreviation (input) EF_VI_EVENT_POLL_MIN_EVS :: int where "EF_VI_EVENT_POLL_MIN_EVS \<equiv> 2"

definition driver_ok :: "'w vi_ops \<Rightarrow> bool" where
  "driver_ok ops \<longleftrightarrow>
     (\<forall>vi a rid. rxq_ok vi \<longrightarrow> 0 < ef_vi_receive_space vi \<longrightarrow>
        (case receive_init ops vi a rid of (rc, vi') \<Rightarrow>
           rc = 0 \<and> rx_ring vi' = rx_ring vi @ [(a, rid)] \<and> rxq_ok vi' \<and> same_config vi vi')) \<and>
     (\<forall>vi. rxq_ok vi \<longrightarrow> rx_ring (receive_push ops vi) = rx_ring vi \<and>
        rxq_ok (receive_push ops vi) \<and> same_config vi (receive_push ops vi)) \<and>
     (\<forall>w vi n. rxq_ok vi \<longrightarrow> EF_VI_EVENT_POLL_MIN_EVS \<le> n \<longrightarrow> poll_ok vi n (eventq_poll ops w vi n))"

section \<open>Lemmas\<close>

lemma length_rx_ring [simp]: "length (rx_ring vi) = rx_fill vi"
  by (simp add: rx_ring_def)

lemma rx_slot_mod:
  assumes "rxq_mask (vi_rxq vi) = mask n" "n \<le> 32"
  shows "rx_slot vi k = (unat (rx_removed (ep_rxq (ep_state vi))) + k) mod 2 ^ n"
  using assms by (simp add: rx_slot_def unat_and_mask_mod unat_add_mod_pow2)

lemma rxq_ok_bounds:
  assumes "rxq_ok vi"
  shows "rx_fill vi \<le> unat (rxq_mask (vi_rxq vi))" "unat (rxq_mask (vi_rxq vi)) < 2 ^ 30"
proof -
  obtain n where n: "n < 31" "rxq_mask (vi_rxq vi) = mask n"
    using assms by (auto simp: rxq_ok_def)
  have "(2::nat) ^ n \<le> 2 ^ 30" by (rule power_increasing) (use n in auto)
  then show "unat (rxq_mask (vi_rxq vi)) < 2 ^ 30" using n by (simp add: unat_mask32)
  show "rx_fill vi \<le> unat (rxq_mask (vi_rxq vi))" using assms by (simp add: rxq_ok_def)
qed

lemma receive_fill_level:
  "rxq_ok vi \<Longrightarrow> ef_vi_receive_fill_level vi = int (rx_fill vi)"
  using rxq_ok_bounds [of vi]
  by (simp add: ef_vi_receive_fill_level_def rx_fill_def Let_def sint_small)

lemma receive_capacity:
  "rxq_ok vi \<Longrightarrow> ef_vi_receive_capacity vi = int (unat (rxq_mask (vi_rxq vi)))"
  using rxq_ok_bounds [of vi] by (simp add: ef_vi_receive_capacity_def sint_small)

lemma receive_space:
  assumes "rxq_ok vi"
  shows "ef_vi_receive_space vi = ef_vi_receive_capacity vi - ef_vi_receive_fill_level vi"
proof -
  note b = rxq_ok_bounds [OF assms]
  let ?d = "rx_added (ep_rxq (ep_state vi)) - rx_removed (ep_rxq (ep_state vi))"
  have "unat (rxq_mask (vi_rxq vi) - ?d) = unat (rxq_mask (vi_rxq vi)) - rx_fill vi"
    using b(1) by (simp add: rx_fill_def unat_sub word_le_nat_alt)
  then show ?thesis
    using b receive_fill_level [OF assms] receive_capacity [OF assms]
    by (simp add: ef_vi_receive_space_def Let_def sint_small of_nat_diff)
qed

lemma next_rx_rq_id:
  assumes "rxq_ok vi" "rx_ring vi = (a, rid) # rest"
  shows "ef_vi_next_rx_rq_id vi = Some rid"
proof -
  obtain n where n: "n < 31" "rxq_mask (vi_rxq vi) = mask n" "length (rxq_ids (vi_rxq vi)) = 2 ^ n"
    using assms by (auto simp: rxq_ok_def)
  have "rx_fill vi \<noteq> 0" using assms(2) length_rx_ring [of vi] by auto
  then have "rx_ring vi ! 0 = (rxq_descriptors (vi_rxq vi) ! rx_slot vi 0, rxq_ids (vi_rxq vi) ! rx_slot vi 0)"
    by (simp add: rx_ring_def)
  moreover have "rx_slot vi 0 < 2 ^ n" using n by (simp add: rx_slot_mod)
  ultimately show ?thesis
    using assms(2) n by (simp add: ef_vi_next_rx_rq_id_def rx_slot_def Let_def)
qed

section \<open>A ring in memory\<close>

definition ring_put :: "ef_vi \<Rightarrow> ef_addr \<Rightarrow> ef_request_id \<Rightarrow> ef_vi" where
  "ring_put vi a rid =
     (let qs = ep_rxq (ep_state vi); q = vi_rxq vi; i = rx_slot vi (rx_fill vi)
      in vi\<lparr>vi_rxq := q\<lparr>rxq_descriptors := (rxq_descriptors q)[i := a],
                        rxq_ids := (rxq_ids q)[i := rid]\<rparr>,
            ep_state := (ep_state vi)\<lparr>ep_rxq := qs\<lparr>rx_added := rx_added qs + 1\<rparr>\<rparr>\<rparr>)"

definition ring_take :: "nat \<Rightarrow> ef_vi \<Rightarrow> ef_vi" where
  "ring_take k vi =
     (let qs = ep_rxq (ep_state vi)
      in vi\<lparr>ep_state := (ep_state vi)\<lparr>ep_rxq := qs\<lparr>rx_removed := rx_removed qs + of_nat k\<rparr>\<rparr>\<rparr>)"

lemma ring_put_ok:
  assumes ok: "rxq_ok vi" and room: "rx_fill vi < unat (rxq_mask (vi_rxq vi))"
  shows "rx_ring (ring_put vi a rid) = rx_ring vi @ [(a, rid)]" "rxq_ok (ring_put vi a rid)"
    "same_config vi (ring_put vi a rid)"
proof -
  obtain n where n: "n < 31" "rxq_mask (vi_rxq vi) = mask n"
    "length (rxq_descriptors (vi_rxq vi)) = 2 ^ n" "length (rxq_ids (vi_rxq vi)) = 2 ^ n"
    using ok by (auto simp: rxq_ok_def)
  let ?vi = "ring_put vi a rid" and ?f = "rx_fill vi"
  let ?a = "rx_added (ep_rxq (ep_state vi))" and ?r = "rx_removed (ep_rxq (ep_state vi))"
  note b = rxq_ok_bounds [OF ok]
  have "unat ((?a - ?r) + 1) = unat (?a - ?r) + 1"
    by (rule unat_Suc_small) (use b in \<open>simp add: rx_fill_def\<close>)
  then have fill: "rx_fill ?vi = ?f + 1"
    by (simp add: rx_fill_def ring_put_def Let_def diff_add_eq)
  have slot: "rx_slot ?vi k = rx_slot vi k" for k by (simp add: rx_slot_def ring_put_def Let_def)
  have mod: "rx_slot vi k = (unat (rx_removed (ep_rxq (ep_state vi))) + k) mod 2 ^ n" for k
    using n by (simp add: rx_slot_mod)
  have lt: "rx_slot vi k < 2 ^ n" for k by (simp add: mod)
  have f: "?f < 2 ^ n" using room n by (simp add: unat_mask32)
  have other: "rx_slot vi k \<noteq> rx_slot vi ?f" if "k < ?f" for k
    using mod_add_inj [of "unat (rx_removed (ep_rxq (ep_state vi)))" k "2 ^ n" ?f] that f
    by (auto simp: mod)
  show "rx_ring ?vi = rx_ring vi @ [(a, rid)]"
    unfolding rx_ring_def fill slot using lt n
    by (auto simp: ring_put_def Let_def nth_list_update other [THEN not_sym])
  show "rxq_ok ?vi"
    unfolding rxq_ok_def fill using n room by (auto simp: ring_put_def Let_def)
  show "same_config vi ?vi" by (simp add: same_config_def ring_put_def Let_def)
qed

lemma ring_take_ok:
  assumes ok: "rxq_ok vi" and k: "k \<le> rx_fill vi"
  shows "rx_ring (ring_take k vi) = drop k (rx_ring vi)" "rxq_ok (ring_take k vi)"
    "same_config vi (ring_take k vi)"
proof -
  let ?vi = "ring_take k vi"
  let ?a = "rx_added (ep_rxq (ep_state vi))" and ?r = "rx_removed (ep_rxq (ep_state vi))"
  note b = rxq_ok_bounds [OF ok]
  have kk: "unat (of_nat k :: u32) = k" using k b by (simp add: unat_of_nat)
  have "unat ((?a - ?r) - of_nat k) = unat (?a - ?r) - k"
    using k kk by (simp add: unat_sub word_le_nat_alt rx_fill_def)
  then have fill: "rx_fill ?vi = rx_fill vi - k"
    by (simp add: rx_fill_def ring_take_def Let_def diff_diff_eq)
  have slot: "rx_slot ?vi j = rx_slot vi (k + j)" for j
    by (simp add: rx_slot_def ring_take_def Let_def add.assoc)
  have q: "vi_rxq ?vi = vi_rxq vi" by (simp add: ring_take_def Let_def)
  show "rx_ring ?vi = drop k (rx_ring vi)"
    by (rule nth_equalityI) (use k in \<open>auto simp: fill rx_ring_def slot q\<close>)
  show "rxq_ok ?vi"
    using ok fill by (auto simp: rxq_ok_def ring_take_def Let_def)
  show "same_config vi ?vi" by (simp add: same_config_def ring_take_def Let_def)
qed

section \<open>A driver that meets the contract\<close>

definition rx_event :: "ef_request_id \<Rightarrow> nat \<Rightarrow> ef_event" where
  "rx_event rid len =
     ev_set Ev_rx F_flags 1 (ev_set Ev_rx F_len (of_nat len) (ev_set Ev_rx F_rq_id rid 0))"

lemma rx_event_fields:
  "EF_EVENT_RX_RQ_ID (rx_event rid len) = rid"
  "EF_EVENT_RX_BYTES (rx_event rid len) = take_bit 16 (of_nat len)"
  "EF_EVENT_TYPE (rx_event rid len) = 0"
  "EF_EVENT_RX_SOP (rx_event rid len)" "\<not> EF_EVENT_RX_CONT (rx_event rid len)"
proof -
  have "EF_EVENT_TYPE (rx_event rid len) = ev_get Ev_rx F_type (rx_event rid len)"
    by (simp add: EF_EVENT_TYPE_def ev_get_def bit_place_def)
  also have "\<dots> = ev_get Ev_rx F_type 0" by (simp add: rx_event_def ev_get_set_other)
  finally show "EF_EVENT_TYPE (rx_event rid len) = 0" by (simp add: ev_get_def)
  show "EF_EVENT_RX_RQ_ID (rx_event rid len) = rid"
    by (simp add: EF_EVENT_RX_RQ_ID_def rx_event_def ev_get_set_other ev_get_set_same take_bit_word_eq_self)
  show "EF_EVENT_RX_BYTES (rx_event rid len) = take_bit 16 (of_nat len)"
    by (simp add: EF_EVENT_RX_BYTES_def rx_event_def ev_get_set_other ev_get_set_same)
  show "EF_EVENT_RX_SOP (rx_event rid len)" "\<not> EF_EVENT_RX_CONT (rx_event rid len)"
    by (simp_all add: EF_EVENT_RX_SOP_def EF_EVENT_RX_CONT_def rx_event_def ev_get_set_same)
qed

text \<open>
  The frames of a poll arrive in the buffers at the head of the ring, as many as there are
  buffers and room for events.
\<close>

definition deliver :: "ef_vi \<Rightarrow> int \<Rightarrow> byte list list \<Rightarrow> byte list list" where
  "deliver vi evs_len frames =
     map (take (unat (vi_rx_buffer_len vi))) (take (min (nat evs_len) (rx_fill vi)) frames)"

definition ring_driver :: "byte list list vi_ops" where
  "ring_driver = \<lparr>
     receive_init = (\<lambda>vi a rid. if 0 < ef_vi_receive_space vi then (0, ring_put vi a rid) else (- 11, vi)),
     receive_push = (\<lambda>vi. vi\<lparr>ep_state := (ep_state vi)\<lparr>ep_rxq := (ep_rxq (ep_state vi))
        \<lparr>rx_posted := rx_added (ep_rxq (ep_state vi))\<rparr>\<rparr>\<rparr>),
     eventq_poll = (\<lambda>frames vi evs_len.
        let fs = deliver vi evs_len frames
        in (map2 (\<lambda>d f. rx_event (snd d) (length f)) (take (length fs) (rx_ring vi)) fs,
            ring_take (length fs) vi, zip (map fst (rx_ring vi)) fs))\<rparr>"

lemma length_deliver: "length (deliver vi n frames) \<le> rx_fill vi" "length (deliver vi n frames) \<le> nat n"
  by (auto simp: deliver_def)

lemma ring_driver_poll:
  assumes "rxq_ok vi" "0 \<le> n"
  shows "poll_ok vi n (eventq_poll ring_driver w vi n)"
proof -
  define fs where "fs = deliver vi n w"
  define evs where "evs = map2 (\<lambda>d f. rx_event (snd d) (length f)) (take (length fs) (rx_ring vi)) fs"
  have len: "length fs \<le> rx_fill vi" "length fs \<le> nat n" using length_deliver by (simp_all add: fs_def)
  have "\<forall>e\<in>set evs. completes e" by (auto simp: evs_def completes_def rx_event_fields)
  then have "filter completes evs = evs" by (simp add: filter_id_conv)
  moreover have "map EF_EVENT_RX_RQ_ID evs = map snd (take (length fs) (rx_ring vi))"
    using len by (intro nth_equalityI) (auto simp: evs_def rx_event_fields)
  moreover have "length evs = length fs" using len by (simp add: evs_def)
  moreover have "\<forall>(a, bs)\<in>set (zip (map fst (rx_ring vi)) fs). length bs \<le> unat (vi_rx_buffer_len vi)"
    by (auto simp: fs_def deliver_def dest!: set_zip_rightD)
  ultimately show ?thesis
    using ring_take_ok [OF assms(1) len(1)] len assms(2)
    by (simp add: poll_ok_def ring_driver_def Let_def flip: fs_def evs_def)
qed

lemma ring_driver_ok: "driver_ok ring_driver"
proof -
  have "rx_fill vi < unat (rxq_mask (vi_rxq vi))" if "rxq_ok vi" "0 < ef_vi_receive_space vi" for vi
    using that(2) receive_space [OF that(1)] receive_fill_level [OF that(1)]
      receive_capacity [OF that(1)] by linarith
  moreover have "rx_ring (receive_push ring_driver vi) = rx_ring vi"
    "rxq_ok (receive_push ring_driver vi) = rxq_ok vi" "same_config vi (receive_push ring_driver vi)" for vi
    by (simp_all add: ring_driver_def rx_ring_def rx_fill_def rx_slot_def rxq_ok_def same_config_def)
  moreover have "receive_init ring_driver vi a rid = (0, ring_put vi a rid)"
    if "0 < ef_vi_receive_space vi" for vi a rid
    using that by (simp add: ring_driver_def)
  ultimately show ?thesis
    using ring_put_ok ring_driver_poll by (simp add: driver_ok_def)
qed

section \<open>DMA addresses\<close>

definition pages_ok :: "ef_addr list \<Rightarrow> bool" where
  "pages_ok pages \<longleftrightarrow> distinct pages \<and> (\<forall>p\<in>set pages. take_bit 12 p = 0)"

lemma ef_memreg_dma_addr_parts:
  assumes "pages_ok pages" "ef_memreg_dma_addr pages off = Some a"
  shows "take_bit 12 a = take_bit 12 off"
    "drop_bit 12 a = drop_bit 12 (pages ! unat (drop_bit 12 off))" "unat (drop_bit 12 off) < length pages"
proof -
  have m: "4095 = (mask 12 :: u64)" by (simp add: mask_eq_exp_minus_1)
  have a: "a = pages ! unat (drop_bit 12 off) OR take_bit 12 off"
    and i: "unat (drop_bit 12 off) < length pages"
    using assms(2)
    by (auto simp: ef_memreg_dma_addr_def Let_def take_bit_eq_mask split: if_splits simp flip: m)
  from i show "unat (drop_bit 12 off) < length pages" .
  have z: "take_bit 12 (pages ! unat (drop_bit 12 off)) = 0"
    using assms(1) i by (auto simp: pages_ok_def)
  show "take_bit 12 a = take_bit 12 off" by (simp add: a z)
  have "drop_bit 12 (take_bit 12 off) = 0" by (simp add: drop_bit_take_bit)
  then show "drop_bit 12 a = drop_bit 12 (pages ! unat (drop_bit 12 off))" by (simp add: a drop_bit_or)
qed

lemma eq_by_parts: "take_bit n a = take_bit n b \<Longrightarrow> drop_bit n a = drop_bit n b \<Longrightarrow> a = (b :: u64)"
  by (metis bits_ident)

lemma dma_addr_inj:
  assumes "pages_ok pages" "ef_memreg_dma_addr pages x = Some a" "ef_memreg_dma_addr pages y = Some a"
  shows "x = y"
proof -
  note px = ef_memreg_dma_addr_parts [OF assms(1,2)] and py = ef_memreg_dma_addr_parts [OF assms(1,3)]
  let ?i = "unat (drop_bit 12 x)" and ?j = "unat (drop_bit 12 y)"
  have "take_bit 12 (pages ! ?i) = take_bit 12 (pages ! ?j)"
    using assms(1) px(3) py(3) by (auto simp: pages_ok_def)
  then have "pages ! ?i = pages ! ?j" by (rule eq_by_parts) (use px(2) py(2) in simp)
  then have "?i = ?j" using assms(1) px(3) py(3) by (simp add: pages_ok_def nth_eq_iff_index_eq)
  then have "drop_bit 12 x = drop_bit 12 y" by (simp add: word_unat_eq_iff)
  moreover have "take_bit 12 x = take_bit 12 y" using px(1) py(1) by simp
  ultimately show ?thesis by (rule eq_by_parts [rotated])
qed

section \<open>Properties\<close>

text \<open>A sample interface; its counters are about to wrap.\<close>

definition sample_vi :: ef_vi where
  "sample_vi = \<lparr>vi_resource_id = 0, vi_i = 0, vi_rx_buffer_len = 1792, vi_rx_prefix_len = 14,
     vi_flags = 0, evq_phase_bits = True,
     vi_txq = \<lparr>txq_mask = 0, txq_ct_fifo_bytes = 0, txq_ids = []\<rparr>,
     vi_rxq = \<lparr>rxq_mask = 63, rxq_descriptors = replicate 64 0, rxq_ids = replicate 64 0\<rparr>,
     ep_state = \<lparr>
       ep_evq = \<lparr>evq_ptr = 0, evq_clear_stride = 0, sync_timestamp_major = 0,
         sync_timestamp_minor = 0, sync_timestamp_minimum = 0, sync_timestamp_synchronised = 0,
         unsol_credit_seq = 0, sync_flags = 0\<rparr>,
       ep_txq = \<lparr>tx_previous = 0, tx_added = 0, tx_removed = 0, tx_ct_added = 0,
         tx_ct_removed = 0, tx_ts_nsec = 0\<rparr>,
       ep_rxq = \<lparr>rx_posted = 0, rx_added = 0xFFFFFFFE, rx_removed = 0xFFFFFFFE, rx_in_jumbo = 0,
         rx_bytes_acc = 0, rx_last_desc_i = 0, rx_ps_credit_avail = 0, rx_rxq_ptr = []\<rparr>\<rparr>,
     nic_type = \<lparr>nic_arch = EF_VI_ARCH_EF10, nic_variant = 0, nic_revision = 0, nic_flags = 0\<rparr>\<rparr>"

lemma sample_vi_ok: "rxq_ok sample_vi" "rx_ring sample_vi = []" "rx_fill sample_vi = 0"
  "rxq_mask (vi_rxq sample_vi) = 63"
proof -
  have "(63 :: u32) = mask 6" by (simp add: mask_eq_exp_minus_1)
  then show "rxq_ok sample_vi"
    by (auto simp: rxq_ok_def sample_vi_def rx_fill_def intro!: exI [of _ 6])
qed (simp_all add: sample_vi_def rx_ring_def rx_fill_def)

text \<open>
  Two offsets of registered memory have the same DMA address only if they are the
  same: the adapter cannot write one packet buffer through the address of another.
\<close>

theorem dma_addresses_distinct:
  assumes "pages_ok pages" "ef_memreg_dma_addr pages x = Some a" "ef_memreg_dma_addr pages y = Some b"
  shows "a = b \<longleftrightarrow> x = y"
  using assms dma_addr_inj [of pages x a y] by auto

end
