(* ===== verification/EfUtils.thy ===== *)
theory EfUtils
  imports C_String RxLoop
begin

text \<open>
  \<open>EF_VI/utils.h\<close> and \<open>EF_VI/utils.cpp\<close>: the checking macros, the parser of filter
  descriptions and the socket and interface helpers.  The filter specification and the
  calls that build it, the resolver and the sockets are parameters.  \<^term>\<open>None\<close> is
  undefined behaviour, \<open>Aborted\<close> a failing \<open>TRY\<close> or \<open>TEST\<close>.
\<close>

unbundle bit_operations_syntax

section \<open>Checking macros\<close>

datatype 'a outcome = Returned 'a | Aborted "msg list"

text \<open>What a failing call leaves in \<open>errno\<close> and its text.\<close>

type_synonym errno = "int \<times> string"

definition try_failed :: "errno \<Rightarrow> string \<Rightarrow> string \<Rightarrow> nat \<Rightarrow> int \<Rightarrow> msg list" where
  "try_failed err what file line rc =
     [Err (''ERROR: TRY('' @ what @ '') failed'' @ newline),
      Err (''ERROR: at '' @ file @ '':'' @ show_nat line @ newline),
      Err (''ERROR: rc='' @ show_int rc @ '' errno='' @ show_int (fst err) @ '' ('' @ snd err @ '')'' @ newline)]"

definition test_failed :: "string \<Rightarrow> string \<Rightarrow> nat \<Rightarrow> msg list" where
  "test_failed what file line =
     [Err (''ERROR: TEST('' @ what @ '') failed'' @ newline),
      Err (''ERROR: at '' @ file @ '':'' @ show_nat line @ newline)]"

text \<open>\<open>TRY(call)\<close> and what follows it.\<close>

definition TRY :: "errno \<Rightarrow> string \<Rightarrow> nat \<Rightarrow> int \<times> 's \<Rightarrow> ('s \<Rightarrow> 'a outcome option) \<Rightarrow> 'a outcome option" where
  "TRY err what line r k =
     (case r of (rc, s) \<Rightarrow>
        if rc < 0 then Some (Aborted (try_failed err what ''utils.cpp'' line rc)) else k s)"

definition TEST :: "string \<Rightarrow> nat \<Rightarrow> bool \<Rightarrow> 'a outcome option \<Rightarrow> 'a outcome option" where
  "TEST what line b k = (if b then k else Some (Aborted (test_failed what ''utils.cpp'' line)))"

text \<open>\<open>ROUND_UP\<close> on a 64-bit value and a 64-bit alignment, and \<open>IS_POW2\<close>.\<close>

definition ROUND_UP :: "u64 \<Rightarrow> u64 \<Rightarrow> u64" where
  "ROUND_UP p align = (p + align - 1) AND NOT (align - 1)"

definition IS_POW2 :: "u32 \<Rightarrow> bool" where
  "IS_POW2 n \<longleftrightarrow> n AND (n - 1) = 0"

section \<open>Filter descriptions\<close>

datatype sockaddr = Sa_in u32 u16 | Sa_in6 "byte list" u16 | Sa_other int

abbreviation (input) AF_UNSPEC :: int where "AF_UNSPEC \<equiv> 0"
abbreviation (input) AF_INET :: int where "AF_INET \<equiv> 2"
abbreviation (input) AF_INET6 :: int where "AF_INET6 \<equiv> 10"
abbreviation (input) IPPROTO_TCP :: int where "IPPROTO_TCP \<equiv> 6"
abbreviation (input) IPPROTO_UDP :: int where "IPPROTO_UDP \<equiv> 17"
abbreviation (input) EINVAL :: int where "EINVAL \<equiv> 22"
abbreviation (input) EF_FILTER_VLAN_ID_ANY :: int where "EF_FILTER_VLAN_ID_ANY \<equiv> - 1"

fun sa_family :: "sockaddr \<Rightarrow> int" where
  "sa_family (Sa_in a p) = AF_INET"
| "sa_family (Sa_in6 a p) = AF_INET6"
| "sa_family (Sa_other f) = f"

datatype filter_flags = EF_FILTER_FLAG_NONE | EF_FILTER_FLAG_MCAST_LOOP_RECEIVE

record 'fs filter_ops =
  fs_init :: "filter_flags \<Rightarrow> 'fs"
  fs_set_vlan :: "int \<Rightarrow> 'fs \<Rightarrow> int \<times> 'fs"
  fs_set_ip4_full :: "int \<Rightarrow> u32 \<Rightarrow> u16 \<Rightarrow> u32 \<Rightarrow> u16 \<Rightarrow> 'fs \<Rightarrow> int \<times> 'fs"
  fs_set_ip6_full :: "int \<Rightarrow> byte list \<Rightarrow> u16 \<Rightarrow> byte list \<Rightarrow> u16 \<Rightarrow> 'fs \<Rightarrow> int \<times> 'fs"
  fs_set_ip4_local :: "int \<Rightarrow> u32 \<Rightarrow> u16 \<Rightarrow> 'fs \<Rightarrow> int \<times> 'fs"
  fs_set_ip6_local :: "int \<Rightarrow> byte list \<Rightarrow> u16 \<Rightarrow> 'fs \<Rightarrow> int \<times> 'fs"
  fs_set_eth_type :: "u16 \<Rightarrow> 'fs \<Rightarrow> int \<times> 'fs"
  fs_set_ip_proto :: "byte \<Rightarrow> 'fs \<Rightarrow> int \<times> 'fs"
  fs_set_eth_local :: "int \<Rightarrow> byte list \<Rightarrow> 'fs \<Rightarrow> int \<times> 'fs"
  fs_set_multicast_all :: "'fs \<Rightarrow> int \<times> 'fs"
  fs_set_unicast_all :: "'fs \<Rightarrow> int \<times> 'fs"
  fs_set_multicast_mismatch :: "'fs \<Rightarrow> int \<times> 'fs"
  fs_set_unicast_mismatch :: "'fs \<Rightarrow> int \<times> 'fs"
  fs_set_port_sniff :: "int \<Rightarrow> 'fs \<Rightarrow> int \<times> 'fs"
  fs_set_tx_port_sniff :: "'fs \<Rightarrow> int \<times> 'fs"
  fs_set_block_kernel :: "'fs \<Rightarrow> int \<times> 'fs"
  fs_set_block_kernel_unicast :: "'fs \<Rightarrow> int \<times> 'fs"
  fs_set_block_kernel_multicast :: "'fs \<Rightarrow> int \<times> 'fs"
  hostport_to_sockaddr :: "int \<Rightarrow> string option \<Rightarrow> int \<times> sockaddr"
  fo_errno :: errno

text \<open>The return code, the specification, the address stored through \<open>sa_mcast\<close>, messages.\<close>

type_synonym 'fs filter_result = "int \<times> 'fs \<times> u32 option \<times> msg list"

text \<open>\<open>goto out\<close> with the initial return code, and the return after success.\<close>

definition bad_filter :: "'fs \<Rightarrow> 'fs filter_result outcome option" where
  "bad_filter fs = Some (Returned (- EINVAL, fs, None, []))"

definition good_filter :: "'fs \<Rightarrow> 'fs filter_result outcome option" where
  "good_filter fs = Some (Returned (0, fs, None, []))"

definition consume_parameter :: "string \<Rightarrow> (s32 \<times> string option) option" where
  "consume_parameter arg =
     (case strtok (Some arg) [] '','' of
        (None, save) \<Rightarrow> None
      | (Some param, save) \<Rightarrow>
          (case strchr param CHR ''='' of
             None \<Rightarrow> None
           | Some p \<Rightarrow>
               let param = tl p
               in if param = [] then Some (0, None)
                  else Some (atoi param, fst (strtok None save []))))"

definition vid_option ::
  "'fs filter_ops \<Rightarrow> nat \<Rightarrow> string \<Rightarrow> 'fs \<Rightarrow>
   (string \<Rightarrow> 'fs \<Rightarrow> 'fs filter_result outcome option) \<Rightarrow> 'fs filter_result outcome option" where
  "vid_option ops line remainder fs k =
     (if strncmp_prefix ''vid='' remainder then do {
        (vlan_id, rest) \<leftarrow> consume_parameter remainder;
        case rest of
          None \<Rightarrow> bad_filter fs
        | Some remainder \<Rightarrow>
            TRY (fo_errno ops) ''ef_filter_spec_set_vlan(fs, vlan_id)'' line
              (fs_set_vlan ops (sint vlan_id) fs) (k remainder)
      }
      else k remainder fs)"

definition filter_ip_hosts ::
  "'fs filter_ops \<Rightarrow> int \<Rightarrow> bool \<Rightarrow> string \<Rightarrow> 'fs \<Rightarrow> 'fs filter_result outcome option" where
  "filter_ip_hosts ops protocol sa_mcast remainder fs =
     (if strchr remainder CHR '','' \<noteq> None then
        (case strtok (Some remainder) [] '','' of (hostport, save) \<Rightarrow>
         case strtok None save [] of (remainder, save) \<Rightarrow>
           TRY (fo_errno ops) ''ci_hostport_to_sockaddr(AF_UNSPEC, hostport, &laddr.ss)'' 92
             (hostport_to_sockaddr ops AF_UNSPEC hostport) (\<lambda>laddr.
           TRY (fo_errno ops) ''ci_hostport_to_sockaddr(laddr.ss.ss_family, remainder, &raddr.ss)'' 93
             (hostport_to_sockaddr ops (sa_family laddr) remainder) (\<lambda>raddr.
           case (laddr, raddr) of
             (Sa_in la lp, Sa_in ra rp) \<Rightarrow>
               TRY (fo_errno ops) ''ef_filter_spec_set_ip4_full(fs, protocol, laddr.s4.sin_addr.s_addr, laddr.s4.sin_port, raddr.s4.sin_addr.s_addr, raddr.s4.sin_port)'' 95
                 (fs_set_ip4_full ops protocol la lp ra rp fs) good_filter
           | (Sa_in6 la lp, Sa_in6 ra rp) \<Rightarrow>
               TRY (fo_errno ops) ''ef_filter_spec_set_ip6_full(fs, protocol, &laddr.s6.sin6_addr, laddr.s6.sin6_port, &raddr.s6.sin6_addr, raddr.s6.sin6_port)'' 102
                 (fs_set_ip6_full ops protocol la lp ra rp fs) good_filter
           | _ \<Rightarrow>
               Some (Returned (- EINVAL, fs, None,
                 [Err (''ERROR: invalid families in local/remote hosts'' @ newline)])))))
      else
        TRY (fo_errno ops) ''ci_hostport_to_sockaddr(AF_UNSPEC, strtok(remainder, \",\"), &laddr.ss)'' 113
          (hostport_to_sockaddr ops AF_UNSPEC (fst (strtok (Some remainder) [] '',''))) (\<lambda>laddr.
        case laddr of
          Sa_in la lp \<Rightarrow>
            TRY (fo_errno ops) ''ef_filter_spec_set_ip4_local(fs, protocol, laddr.s4.sin_addr.s_addr, laddr.s4.sin_port)'' 115
              (fs_set_ip4_local ops protocol la lp fs)
              (\<lambda>fs. Some (Returned (0, fs, if sa_mcast then Some la else None, [])))
        | Sa_in6 la lp \<Rightarrow>
            TRY (fo_errno ops) ''ef_filter_spec_set_ip6_local(fs, protocol, &laddr.s6.sin6_addr, laddr.s6.sin6_port)'' 122
              (fs_set_ip6_local ops protocol la lp fs) good_filter
        | Sa_other f \<Rightarrow>
            Some (Returned (- EINVAL, fs, None,
              [Err (''ERROR: invalid family in local host'' @ newline)]))))"

text \<open>\<open>udp:\<close> and \<open>tcp:\<close> filters.\<close>

definition filter_ip ::
  "'fs filter_ops \<Rightarrow> bool \<Rightarrow> string \<Rightarrow> string \<Rightarrow> 'fs \<Rightarrow> 'fs filter_result outcome option" where
  "filter_ip ops sa_mcast type save fs =
     (let protocol = (if type = ''tcp'' then IPPROTO_TCP else IPPROTO_UDP)
      in case strtok None save [] of
           (None, save) \<Rightarrow> bad_filter fs
         | (Some remainder, save) \<Rightarrow>
             if strncmp_prefix ''mcastloop-rx,'' remainder then
               (let fs = fs_init ops EF_FILTER_FLAG_MCAST_LOOP_RECEIVE
                in case strtok (Some remainder) [] '','' of (t, save) \<Rightarrow>
                   case strtok None save [] of
                     (None, save) \<Rightarrow> bad_filter fs
                   | (Some remainder, save) \<Rightarrow>
                       vid_option ops 86 remainder fs (filter_ip_hosts ops protocol sa_mcast))
             else vid_option ops 86 remainder fs (filter_ip_hosts ops protocol sa_mcast))"

text \<open>
  The MAC address: \<open>n\<close> more hexadecimal numbers, separated by colons; what follows the last
  one is returned with them.
\<close>

fun parse_mac :: "nat \<Rightarrow> string \<Rightarrow> (byte list \<times> string) option" where
  "parse_mac 0 s = Some ([], s)"
| "parse_mac (Suc n) s =
     (case strtol 16 s of (v, r) \<Rightarrow>
        if n = 0 then Some ([of_int v], r)
        else case r of
               [] \<Rightarrow> None
             | c # r' \<Rightarrow>
                 if c \<noteq> CHR '':'' then None
                 else if r' = [] then None
                 else map_option (\<lambda>(bs, r). (of_int v # bs, r)) (parse_mac n r'))"

definition filter_eth_mac ::
  "'fs filter_ops \<Rightarrow> int \<Rightarrow> string \<Rightarrow> 'fs \<Rightarrow> 'fs filter_result outcome option" where
  "filter_eth_mac ops vlan_id remainder fs =
     (case parse_mac 6 remainder of
        None \<Rightarrow> bad_filter fs
      | Some (mac, rest) \<Rightarrow>
          if rest \<noteq> [] then bad_filter fs
          else TRY (fo_errno ops) ''ef_filter_spec_set_eth_local(fs, vlan_id, mac)'' 171
                 (fs_set_eth_local ops vlan_id mac fs) good_filter)"

definition filter_eth_options ::
  "'fs filter_ops \<Rightarrow> int \<Rightarrow> string \<Rightarrow> 'fs \<Rightarrow> 'fs filter_result outcome option" where
  "filter_eth_options ops vlan_id remainder fs =
     (if strncmp_prefix ''ethertype='' remainder then do {
        (v, rest) \<leftarrow> consume_parameter remainder;
        case rest of
          None \<Rightarrow> bad_filter fs
        | Some remainder \<Rightarrow>
            TRY (fo_errno ops) ''ef_filter_spec_set_eth_type(fs, ethertype)'' 150
              (fs_set_eth_type ops (htons (ucast v)) fs) (filter_eth_mac ops vlan_id remainder)
      }
      else if strncmp_prefix ''ipproto='' remainder then do {
        (v, rest) \<leftarrow> consume_parameter remainder;
        case rest of
          None \<Rightarrow> bad_filter fs
        | Some remainder \<Rightarrow>
            TRY (fo_errno ops) ''ef_filter_spec_set_ip_proto(fs, ipproto)'' 156
              (fs_set_ip_proto ops (ucast v) fs) (filter_eth_mac ops vlan_id remainder)
      }
      else filter_eth_mac ops vlan_id remainder fs)"

definition filter_eth ::
  "'fs filter_ops \<Rightarrow> string \<Rightarrow> 'fs \<Rightarrow> 'fs filter_result outcome option" where
  "filter_eth ops save fs =
     (case strtok None save [] of
        (None, save) \<Rightarrow> bad_filter fs
      | (Some remainder, save) \<Rightarrow>
          if strncmp_prefix ''vid='' remainder then do {
            (v, rest) \<leftarrow> consume_parameter remainder;
            case rest of
              None \<Rightarrow> bad_filter fs
            | Some remainder \<Rightarrow> filter_eth_options ops (sint v) remainder fs
          }
          else filter_eth_options ops EF_FILTER_VLAN_ID_ANY remainder fs)"

definition filter_ethertype ::
  "'fs filter_ops \<Rightarrow> string \<Rightarrow> 'fs \<Rightarrow> 'fs filter_result outcome option" where
  "filter_ethertype ops save fs =
     (case strtok None save [] of
        (None, save) \<Rightarrow> bad_filter fs
      | (Some remainder, save) \<Rightarrow>
          vid_option ops 186 remainder fs (\<lambda>remainder fs.
            case strtol 10 remainder of (v, rest) \<Rightarrow>
              if rest \<noteq> [] then bad_filter fs
              else TRY (fo_errno ops) ''ef_filter_spec_set_eth_type(fs, ethertype)'' 193
                     (fs_set_eth_type ops (htons (of_int v)) fs) good_filter))"

definition filter_ipproto ::
  "'fs filter_ops \<Rightarrow> string \<Rightarrow> 'fs \<Rightarrow> 'fs filter_result outcome option" where
  "filter_ipproto ops save fs =
     (case strtok None save [] of
        (None, save) \<Rightarrow> bad_filter fs
      | (Some remainder, save) \<Rightarrow>
          vid_option ops 208 remainder fs (\<lambda>remainder fs.
            case strtol 10 remainder of (v, rest) \<Rightarrow>
              if rest \<noteq> [] then bad_filter fs
              else TRY (fo_errno ops) ''ef_filter_spec_set_ip_proto(fs, ipproto)'' 215
                     (fs_set_ip_proto ops (of_int v) fs) good_filter))"

text \<open>\<open>multicast-mis\<close> and \<open>unicast-mis\<close>: an optional \<open>:vid=\<close>.\<close>

definition filter_mismatch ::
  "'fs filter_ops \<Rightarrow> nat \<Rightarrow> string \<Rightarrow> string \<Rightarrow> string \<Rightarrow> 'fs \<Rightarrow> 'fs filter_result outcome option" where
  "filter_mismatch ops line type s_in save fs =
     (if length type = length s_in then good_filter fs
      else case strtok None save [] of
             (None, save) \<Rightarrow> bad_filter fs
           | (Some remainder, save) \<Rightarrow>
               if \<not> strncmp_prefix ''vid='' remainder then bad_filter fs
               else case strchr remainder CHR ''='' of
                      None \<Rightarrow> None
                    | Some p \<Rightarrow>
                        let vlan = tl p
                        in if vlan = [] then bad_filter fs
                           else TRY (fo_errno ops) ''ef_filter_spec_set_vlan(fs, atoi(vlan))'' line
                                  (fs_set_vlan ops (sint (atoi vlan)) fs) good_filter)"

definition filter_sniff ::
  "'fs filter_ops \<Rightarrow> string \<Rightarrow> string \<Rightarrow> string \<Rightarrow> 'fs \<Rightarrow> 'fs filter_result outcome option" where
  "filter_sniff ops type s_in save fs =
     (if length type = length s_in then
        TRY (fo_errno ops) ''ef_filter_spec_set_port_sniff(fs, 1)'' 265 (fs_set_port_sniff ops 1 fs) good_filter
      else case strtok None save [] of
             (None, save) \<Rightarrow> bad_filter fs
           | (Some remainder, save) \<Rightarrow>
               if remainder = ''promisc'' then
                 TRY (fo_errno ops) ''ef_filter_spec_set_port_sniff(fs, 1)'' 272
                   (fs_set_port_sniff ops 1 fs) good_filter
               else if remainder = ''no-promisc'' then
                 TRY (fo_errno ops) ''ef_filter_spec_set_port_sniff(fs, 0)'' 274
                   (fs_set_port_sniff ops 0 fs) good_filter
               else bad_filter fs)"

text \<open>The argument \<open>sa_mcast\<close> says whether the caller passed a place for the address.\<close>

definition filter_parse ::
  "'fs filter_ops \<Rightarrow> string \<Rightarrow> bool \<Rightarrow> 'fs filter_result outcome option" where
  "filter_parse ops s_in sa_mcast =
     (let fs = fs_init ops EF_FILTER_FLAG_NONE; err = fo_errno ops
      in case strtok (Some s_in) [] '':'' of
           (None, save) \<Rightarrow> bad_filter fs
         | (Some type, save) \<Rightarrow>
             if type = ''udp'' \<or> type = ''tcp'' then filter_ip ops sa_mcast type save fs
             else if type = ''eth'' then filter_eth ops save fs
             else if type = ''ethertype'' then filter_ethertype ops save fs
             else if type = ''ipproto'' then filter_ipproto ops save fs
             else if type = ''multicast-all'' then
               (if length type \<noteq> length s_in then bad_filter fs
                else TRY err ''ef_filter_spec_set_multicast_all(fs)'' 222 (fs_set_multicast_all ops fs) good_filter)
             else if type = ''unicast-all'' then
               (if length type \<noteq> length s_in then bad_filter fs
                else TRY err ''ef_filter_spec_set_unicast_all(fs)'' 229 (fs_set_unicast_all ops fs) good_filter)
             else if type = ''multicast-mis'' then
               TRY err ''ef_filter_spec_set_multicast_mismatch(fs)'' 234 (fs_set_multicast_mismatch ops fs)
                 (filter_mismatch ops 243 type s_in save)
             else if type = ''unicast-mis'' then
               TRY err ''ef_filter_spec_set_unicast_mismatch(fs)'' 249 (fs_set_unicast_mismatch ops fs)
                 (filter_mismatch ops 258 type s_in save)
             else if type = ''sniff'' then filter_sniff ops type s_in save fs
             else if type = ''tx-sniff'' then
               TRY err ''ef_filter_spec_set_tx_port_sniff(fs)'' 282 (fs_set_tx_port_sniff ops fs) good_filter
             else if type = ''block-kernel'' then
               TRY err ''ef_filter_spec_set_block_kernel(fs)'' 287 (fs_set_block_kernel ops fs) good_filter
             else if type = ''block-kernel-unicast'' then
               TRY err ''ef_filter_spec_set_block_kernel_unicast(fs)'' 292
                 (fs_set_block_kernel_unicast ops fs) good_filter
             else if type = ''block-kernel-multicast'' then
               TRY err ''ef_filter_spec_set_block_kernel_multicast(fs)'' 297
                 (fs_set_block_kernel_multicast ops fs) good_filter
             else bad_filter fs)"

section \<open>Sockets and interfaces\<close>

text \<open>The bytes handed to \<open>send\<close>, when it takes all of them.\<close>

definition sock_put_int :: "(byte list \<Rightarrow> int) \<Rightarrow> s32 \<Rightarrow> byte list outcome option" where
  "sock_put_int send i =
     (let bytes = le_of_word 4 (htonl i)
      in TEST ''send(sock, &i, sizeof(i), 0) == sizeof(i)'' 310 (send bytes = 4) (Some (Returned bytes)))"

definition sock_get_int :: "int \<times> byte list \<Rightarrow> s32 outcome option" where
  "sock_get_int recv =
     TEST ''recv(sock, &i, sizeof(i), MSG_WAITALL) == sizeof(i)'' 317 (fst recv = 4)
       (Some (Returned (ntohl (word_of_le (snd recv)))))"

record ifaddr =
  ifa_name :: string
  ifa_flags :: u32
  ifa_addr :: "sockaddr option"

record net_env =
  ne_getsockname :: "int \<times> sockaddr"
  ne_getifaddrs :: "int \<times> ifaddr list"
  ne_if_nametoindex :: "string \<Rightarrow> u32"
  ne_calloc :: bool
  ne_getnameinfo :: "sockaddr \<Rightarrow> int \<times> string"
  ne_errno :: errno

abbreviation (input) IFF_UP :: u32 where "IFF_UP \<equiv> 0x1"

text \<open>Whether two addresses of a family agree in their address bytes.\<close>

fun same_addr :: "sockaddr \<Rightarrow> sockaddr \<Rightarrow> bool" where
  "same_addr (Sa_in a p) (Sa_in b q) = (a = b)"
| "same_addr (Sa_in6 a p) (Sa_in6 b q) = (a = b)"
| "same_addr _ _ = False"

definition on_interface :: "sockaddr \<Rightarrow> ifaddr \<Rightarrow> bool" where
  "on_interface sas iap \<longleftrightarrow>
     ifa_flags iap AND IFF_UP \<noteq> 0 \<and>
     (case ifa_addr iap of None \<Rightarrow> False | Some a \<Rightarrow> sa_family a = sa_family sas \<and> same_addr sas a)"

definition sock_get_ifindex :: "net_env \<Rightarrow> (int \<times> u32 option) outcome option" where
  "sock_get_ifindex env =
     TRY (ne_errno env) ''getsockname(sock, (sockaddr*) &sas, &len)'' 329 (ne_getsockname env) (\<lambda>sas.
       case sas of
         Sa_other f \<Rightarrow> Some (Returned (- 1, None))
       | _ \<Rightarrow>
           TRY (ne_errno env) ''getifaddrs(&addrs)'' 346 (ne_getifaddrs env) (\<lambda>addrs.
             case find (on_interface sas) addrs of
               None \<Rightarrow> Some (Returned (- 1, None))
             | Some iap \<Rightarrow>
                 let ifindex = ne_if_nametoindex env (ifa_name iap)
                 in TEST ''(*ifindex_out = if_nametoindex(iap->ifa_name)) != 0'' 352 (ifindex \<noteq> 0)
                      (Some (Returned (0, Some ifindex)))))"

record addrinfo =
  ai_family :: int
  ai_socktype :: int
  ai_protocol :: int
  ai_addr :: sockaddr
  ai_addrlen :: nat

text \<open>
  The hints of a lookup (flags, family, socket type) with its host and port; the resolver
  returns its code and the first result, and \<open>gai_strerror\<close> the text of a code.
\<close>

record resolver =
  rs_getaddrinfo :: "int \<Rightarrow> int \<Rightarrow> int \<Rightarrow> string option \<Rightarrow> string option \<Rightarrow> int \<times> addrinfo"
  rs_gai_strerror :: "int \<Rightarrow> string"

abbreviation (input) AI_PASSIVE :: int where "AI_PASSIVE \<equiv> 1"

definition or_empty :: "string option \<Rightarrow> string" where
  "or_empty s = (case s of None \<Rightarrow> [] | Some s \<Rightarrow> s)"

definition getaddrinfo_storage ::
  "resolver \<Rightarrow> int \<Rightarrow> string option \<Rightarrow> string option \<Rightarrow> (int \<times> sockaddr option \<times> msg list) outcome option" where
  "getaddrinfo_storage rs family host port =
     (case rs_getaddrinfo rs AI_PASSIVE family 0 host port of (rc, ai) \<Rightarrow>
        if rc \<noteq> 0 then
          (case port of
             None \<Rightarrow> None
           | Some p \<Rightarrow>
               Some (Returned (- 1, None, [Err (''ERROR: could not resolve '' @ [CHR 0x27] @ or_empty host @
                 '':'' @ p @ [CHR 0x27] @ '' ('' @ rs_gai_strerror rs rc @ '')'' @ newline)])))
        else
          TEST ''ai->ai_addrlen <= sizeof(*sas)'' 376 (ai_addrlen ai \<le> 128)
            (Some (Returned (0, Some (ai_addr ai), []))))"

text \<open>What a helper asks of the system, in order.\<close>

datatype sys_call =
  Getaddrinfo | Freeaddrinfo | Open_socket int int int | Socket_op sockaddr nat | Close int

record sock_env =
  se_resolver :: resolver
  se_socket :: "int \<Rightarrow> int \<Rightarrow> int \<Rightarrow> int"
  se_op :: "(int \<Rightarrow> sockaddr \<Rightarrow> nat \<Rightarrow> int) option"
  se_strerror :: string

definition mk_socket ::
  "sock_env \<Rightarrow> int \<Rightarrow> int \<Rightarrow> string option \<Rightarrow> string option \<Rightarrow> (int \<times> sys_call list \<times> msg list) option" where
  "mk_socket env family socktype host port =
     (case rs_getaddrinfo (se_resolver env) AI_PASSIVE family socktype host port of (rc, ai) \<Rightarrow>
        if rc \<noteq> 0 then
          Some (- 1, [Getaddrinfo],
            [Err (''ERROR: could not resolve '' @ [CHR 0x27] @ or_empty host @ '':'' @ or_empty port @
               [CHR 0x27] @ '' ('' @ rs_gai_strerror (se_resolver env) rc @ '')'' @ newline)])
        else
          let open_call = Open_socket (ai_family ai) (ai_socktype ai) (ai_protocol ai);
              sock = se_socket env (ai_family ai) (ai_socktype ai) (ai_protocol ai)
          in if sock < 0 then
               Some (- 1, [Getaddrinfo, open_call],
                 [Err (''ERROR: socket('' @ show_int (ai_family ai) @ '', '' @ show_int (ai_socktype ai) @
                    '', '' @ show_int (ai_protocol ai) @ '') failed ('' @ se_strerror env @ '')'' @ newline)])
             else case se_op env of
                    None \<Rightarrow> Some (sock, [Getaddrinfo, open_call, Freeaddrinfo], [])
                  | Some op \<Rightarrow>
                      if op sock (ai_addr ai) (ai_addrlen ai) < 0 then
                        (case (host, port) of
                           (Some h, Some p) \<Rightarrow>
                             Some (- 1, [Getaddrinfo, open_call, Socket_op (ai_addr ai) (ai_addrlen ai), Close sock],
                               [Err (''ERROR: op('' @ h @ '', '' @ p @ '') failed ('' @ se_strerror env @ '')'' @ newline)])
                         | _ \<Rightarrow> None)
                      else
                        Some (sock, [Getaddrinfo, open_call, Socket_op (ai_addr ai) (ai_addrlen ai), Freeaddrinfo], []))"

definition has_ip4 :: "string \<Rightarrow> ifaddr \<Rightarrow> bool" where
  "has_ip4 intf ifa \<longleftrightarrow>
     (case ifa_addr ifa of None \<Rightarrow> False | Some a \<Rightarrow> ifa_name ifa = intf \<and> sa_family a = AF_INET)"

definition get_ipaddr_of_intf :: "net_env \<Rightarrow> string \<Rightarrow> string outcome option" where
  "get_ipaddr_of_intf env intf =
     TEST ''ipaddr'' 421 (ne_calloc env)
       (TRY (ne_errno env) ''getifaddrs(&ifaddrs)'' 422 (ne_getifaddrs env) (\<lambda>addrs.
          case find (has_ip4 intf) addrs of
            None \<Rightarrow> Some (Returned [])
          | Some ifa \<Rightarrow>
              TRY (ne_errno env) ''getnameinfo(ifa->ifa_addr, sizeof(struct sockaddr_in), ipaddr, NI_MAXHOST, NULL, 0, NI_NUMERICHOST)'' 430
                (ne_getnameinfo env (the (ifa_addr ifa))) (\<lambda>ipaddr. Some (Returned ipaddr))))"

abbreviation (input) NI_MAXHOST :: nat where "NI_MAXHOST \<equiv> 1025"

definition get_ipaddr_of_vlan_intf :: "net_env \<Rightarrow> string \<Rightarrow> int \<Rightarrow> string outcome option" where
  "get_ipaddr_of_vlan_intf env intf vlan =
     (if vlan < 0 then get_ipaddr_of_intf env intf
      else get_ipaddr_of_intf env (take (NI_MAXHOST - 1) (intf @ ''.'' @ show_int vlan)))"

definition my_getaddrinfo :: "resolver \<Rightarrow> string option \<Rightarrow> string option \<Rightarrow> int \<times> addrinfo" where
  "my_getaddrinfo rs host port = rs_getaddrinfo rs 0 AF_INET 0 host port"

text \<open>On a positive code the result pointer is read uninitialised.\<close>

definition parse_host :: "resolver \<Rightarrow> string \<Rightarrow> (int \<times> u32 option) option" where
  "parse_host rs s =
     (case my_getaddrinfo rs (Some s) None of (rc, ai) \<Rightarrow>
        if rc < 0 then Some (0, None)
        else if 0 < rc then None
        else case ai_addr ai of
               Sa_in a p \<Rightarrow> Some (1, Some a)
             | _ \<Rightarrow> None)"

text \<open>\<open>sscanf(s, "%d%c", ...)\<close> converts exactly one item when the number ends the string.\<close>

definition parse_interface :: "(string \<Rightarrow> u32) \<Rightarrow> string \<Rightarrow> int \<times> s32" where
  "parse_interface if_nametoindex s =
     (let i = if_nametoindex s
      in if i \<noteq> 0 then (1, i)
         else case strtol 10 s of (v, rest) \<Rightarrow>
                if rest = s then (0, 0)
                else if rest \<noteq> [] then (0, of_int v)
                else (1, of_int v))"

section \<open>Lemmas\<close>

lemma strtok_from_comma:
  assumes "CHR '','' \<notin> set a" "a \<noteq> []"
  shows "strtok_from (a @ b) '','' = (Some (a @ takeWhile (\<lambda>c. c \<noteq> CHR '','') b), tl (dropWhile (\<lambda>c. c \<noteq> CHR '','') b))"
proof -
  obtain x xs where a: "a = x # xs" "x \<noteq> CHR '',''" using assms by (cases a) auto
  have "\<forall>c\<in>set xs. c \<noteq> CHR '',''" using assms(1) a by auto
  with a show ?thesis by (simp add: strtok_from_def Let_def takeWhile_append dropWhile_append)
qed

lemma strchr_append_notin: "c \<notin> set q \<Longrightarrow> strchr (q @ c # r) c = Some (c # r)"
  by (induction q) auto

lemma consume_parameter_eq:
  assumes "CHR '','' \<notin> set q" "CHR ''='' \<notin> set q" "q \<noteq> []"
  shows "consume_parameter (q @ ''='' @ r) =
    (let v = takeWhile (\<lambda>c. c \<noteq> CHR '','') r; rest = tl (dropWhile (\<lambda>c. c \<noteq> CHR '','') r)
     in Some (if v = [] then (0, None) else (atoi v, if rest = [] then None else Some rest)))"
  using strtok_from_comma [of "q @ ''=''" r] assms strchr_append_notin [OF assms(2)]
  by (simp add: consume_parameter_def strtok_def [of "Some _"] strtok_rest Let_def)

lemma consume_parameter_value:
  assumes "CHR '','' \<notin> set q" "CHR ''='' \<notin> set q" "q \<noteq> []" "CHR '','' \<notin> set v" "v \<noteq> []" "rest \<noteq> []"
  shows "consume_parameter (q @ ''='' @ v @ '','' @ rest) = Some (atoi v, Some rest)"
proof -
  have "takeWhile (\<lambda>c. c \<noteq> CHR '','') (v @ CHR '','' # rest) = v"
    "dropWhile (\<lambda>c. c \<noteq> CHR '','') (v @ CHR '','' # rest) = CHR '','' # rest"
    using assms(4) by (auto simp: takeWhile_append dropWhile_append)
  with consume_parameter_eq [OF assms(1-3), of "v @ '','' @ rest"] assms(5,6) show ?thesis by simp
qed

lemma consume_parameter_defined:
  assumes "strncmp_prefix (q @ ''='') remainder" "CHR '','' \<notin> set q" "CHR ''='' \<notin> set q" "q \<noteq> []"
  shows "\<exists>v rest. consume_parameter remainder = Some (v, rest)"
proof -
  obtain r where "remainder = q @ ''='' @ r" using assms(1) by (auto simp: strncmp_prefix_iff)
  with consume_parameter_eq [OF assms(2-4), of r] show ?thesis by (simp add: Let_def)
qed

lemma consume_vid: "strncmp_prefix ''vid='' r \<Longrightarrow> \<exists>v rest. consume_parameter r = Some (v, rest)"
  by (rule consume_parameter_defined [of "''vid''"]) simp_all

lemma consume_ethertype: "strncmp_prefix ''ethertype='' r \<Longrightarrow> \<exists>v rest. consume_parameter r = Some (v, rest)"
  by (rule consume_parameter_defined [of "''ethertype''"]) simp_all

lemma consume_ipproto: "strncmp_prefix ''ipproto='' r \<Longrightarrow> \<exists>v rest. consume_parameter r = Some (v, rest)"
  by (rule consume_parameter_defined [of "''ipproto''"]) simp_all

text \<open>A computation without undefined behaviour.\<close>

definition no_ub :: "'a option \<Rightarrow> bool" where
  "no_ub x \<longleftrightarrow> x \<noteq> None"

named_theorems no_ub_intros \<open>computations without undefined behaviour\<close>

lemma no_ub_Some [no_ub_intros]: "no_ub (Some x)"
  by (simp add: no_ub_def)

lemma no_ub_TRY [no_ub_intros]: "(\<And>s. no_ub (k s)) \<Longrightarrow> no_ub (TRY err what line r k)"
  by (simp add: TRY_def no_ub_def split: prod.split)

lemma no_ub_TEST [no_ub_intros]: "no_ub k \<Longrightarrow> no_ub (TEST what line b k)"
  by (simp add: TEST_def no_ub_def)

lemma no_ub_result [no_ub_intros]: "no_ub (bad_filter fs)" "no_ub (good_filter fs)"
  by (simp_all add: bad_filter_def good_filter_def no_ub_def)

lemma no_ub_consume [no_ub_intros]:
  assumes "strncmp_prefix ''vid='' r \<or> strncmp_prefix ''ethertype='' r \<or> strncmp_prefix ''ipproto='' r"
    and "\<And>v rest. no_ub (k v rest)"
  shows "no_ub (consume_parameter r \<bind> (\<lambda>(v, rest). k v rest))"
  using assms consume_vid [of r] consume_ethertype [of r] consume_ipproto [of r] by auto

lemma no_ub_vid_option [no_ub_intros]:
  "(\<And>r fs. no_ub (k r fs)) \<Longrightarrow> no_ub (vid_option ops line remainder fs k)"
  by (auto simp: vid_option_def intro!: no_ub_intros split: option.split)

lemma no_ub_ip_hosts [no_ub_intros]: "no_ub (filter_ip_hosts ops protocol m remainder fs)"
  by (auto simp: filter_ip_hosts_def intro!: no_ub_intros split: prod.split sockaddr.split)

lemma no_ub_ip [no_ub_intros]: "no_ub (filter_ip ops m type save fs)"
  by (auto simp: filter_ip_def Let_def intro!: no_ub_intros split: prod.split option.split)

lemma no_ub_eth_mac [no_ub_intros]: "no_ub (filter_eth_mac ops vlan remainder fs)"
  by (auto simp: filter_eth_mac_def intro!: no_ub_intros split: option.split)

lemma no_ub_eth_options [no_ub_intros]: "no_ub (filter_eth_options ops vlan remainder fs)"
  by (auto simp: filter_eth_options_def intro!: no_ub_intros split: option.split)

lemma no_ub_eth [no_ub_intros]: "no_ub (filter_eth ops save fs)"
  by (auto simp: filter_eth_def intro!: no_ub_intros split: prod.split option.split)

lemma no_ub_numbers [no_ub_intros]:
  "no_ub (filter_ethertype ops save fs)" "no_ub (filter_ipproto ops save fs)"
  by (auto simp: filter_ethertype_def filter_ipproto_def intro!: no_ub_intros
      split: prod.split option.split)

lemma strchr_vid: "strncmp_prefix ''vid='' r \<Longrightarrow> strchr r CHR ''='' \<noteq> None"
  by (auto simp: strncmp_prefix_iff)

lemma no_ub_mismatch [no_ub_intros]: "no_ub (filter_mismatch ops line type s_in save fs)"
  by (auto simp: filter_mismatch_def Let_def intro!: no_ub_intros dest: strchr_vid
      split: prod.split option.split)

lemma no_ub_sniff [no_ub_intros]: "no_ub (filter_sniff ops type s_in save fs)"
  by (auto simp: filter_sniff_def intro!: no_ub_intros split: prod.split option.split)

subsection \<open>Hexadecimal numbers\<close>

definition hex_digit :: "nat \<Rightarrow> char" where
  "hex_digit d = char_of (if d < 10 then 48 + d else 87 + d)"

definition hex_byte :: "byte \<Rightarrow> string" where
  "hex_byte b = [hex_digit (unat b div 16), hex_digit (unat b mod 16)]"

text \<open>The text of a MAC address.\<close>

fun mac_text :: "byte list \<Rightarrow> string" where
  "mac_text [] = []"
| "mac_text [b] = hex_byte b"
| "mac_text (b # bs) = hex_byte b @ '':'' @ mac_text bs"

lemma of_char_hex_digit: "d < 16 \<Longrightarrow> of_char (hex_digit d) = (if d < 10 then 48 + d else 87 + d)"
  by (simp add: hex_digit_def)

lemma digit_val_hex [simp]: "d < 16 \<Longrightarrow> digit_val (hex_digit d) = Some d"
  by (auto simp: digit_val_def of_char_hex_digit Let_def)

lemma is_digit_hex [simp]: "d < 16 \<Longrightarrow> is_digit 16 (hex_digit d)"
  by (simp add: is_digit_def)

lemma hex_digit_neq:
  assumes "d < 16"
  shows "\<not> isspace (hex_digit d)" "hex_digit d \<noteq> CHR ''-''" "hex_digit d \<noteq> CHR ''+''"
    "hex_digit d \<noteq> CHR ''x''" "hex_digit d \<noteq> CHR ''X''"
proof -
  have v: "digit_val (hex_digit d) = Some d" using assms by simp
  show "\<not> isspace (hex_digit d)" using assms by (auto simp: isspace_def of_char_hex_digit)
  show "hex_digit d \<noteq> CHR ''-''" "hex_digit d \<noteq> CHR ''+''"
    using v by (auto simp: digit_val_def)
  show "hex_digit d \<noteq> CHR ''x''" "hex_digit d \<noteq> CHR ''X''"
    using v assms by (auto simp: digit_val_def)
qed

lemma strtol_hex_byte:
  assumes "r = [] \<or> \<not> is_digit 16 (hd r)"
  shows "strtol 16 (hex_byte b @ r) = (int (unat b), r)"
proof -
  let ?h = "unat b div 16" and ?l = "unat b mod 16"
  have b: "unat b < 256" using unsigned_less [where w = b] by simp
  then have d: "?h < 16" "?l < 16" by auto
  have "takeWhile (is_digit 16) r = []" using assms by (auto simp: takeWhile_eq_Nil_iff)
  moreover have "skip_0x 16 (hex_digit ?h # hex_digit ?l # r) = hex_digit ?h # hex_digit ?l # r"
    using hex_digit_neq [OF d(2)] by (simp add: skip_0x_def split: list.split)
  moreover have "?h * 16 + ?l = unat b" by simp
  moreover have "clamp_long i = i" if "0 \<le> i" "i < 256" for i
    using that by (simp add: clamp_long_def)
  then have "clamp_long (int (unat b)) = int (unat b)"
    by this (use b in linarith)+
  ultimately show ?thesis
    using hex_digit_neq [OF d(1)] d
    by (simp add: strtol_def hex_byte_def split_sign_def Let_def digits_val_def)
qed

lemma mac_text_nonempty: "bs \<noteq> [] \<Longrightarrow> mac_text bs \<noteq> []"
  by (induction bs rule: mac_text.induct) (auto simp: hex_byte_def)

lemma parse_mac_text:
  "length bs = n \<Longrightarrow> bs \<noteq> [] \<Longrightarrow> parse_mac n (mac_text bs) = Some (bs, [])"
proof (induction bs arbitrary: n rule: mac_text.induct)
  case (2 b)
  then show ?case using strtol_hex_byte [of "[]" b] by auto
next
  case (3 b b' bs)
  have "\<not> is_digit 16 CHR '':''" by (simp add: is_digit_def digit_val_def)
  then have "strtol 16 (mac_text (b # b' # bs)) = (int (unat b), '':'' @ mac_text (b' # bs))"
    using strtol_hex_byte [of "'':'' @ mac_text (b' # bs)" b] by simp
  moreover have "parse_mac (Suc (length bs)) (mac_text (b' # bs)) = Some (b' # bs, [])"
    by (rule "3.IH") simp_all
  moreover have "n = Suc (Suc (length bs))" using "3.prems"(1) by simp
  ultimately show ?case
    using mac_text_nonempty [of "b' # bs"]
    by (simp add: parse_mac.simps(2) [of "Suc (length bs)"] del: parse_mac.simps mac_text.simps)
qed simp

lemma strtok_type:
  assumes "CHR '':'' \<notin> set t" "t \<noteq> []"
  shows "strtok (Some (t @ CHR '':'' # r)) [] '':'' = (Some t, r)"
proof -
  obtain x xs where t: "t = x # xs" "x \<noteq> CHR '':''" using assms by (cases t) auto
  have "\<forall>c\<in>set xs. c \<noteq> CHR '':''" using assms(1) t by auto
  with t show ?thesis
    by (simp add: strtok_def strtok_from_def Let_def takeWhile_append dropWhile_append)
qed

lemma show_nat_no_comma: "CHR '','' \<notin> set (show_nat n)"
  using show_nat_digits [of "CHR '',''" n] by (auto simp: is_digit_def digit_val_def)

lemma atoi_show_nat: "n < 2 ^ 31 \<Longrightarrow> sint (atoi (show_nat n)) = int n"
proof -
  assume n: "n < 2 ^ 31"
  then have "atoi (show_nat n) = of_nat n" using strtol_show_nat [of n "[]"] by (simp add: atoi_def)
  then have "sint (atoi (show_nat n)) = signed_take_bit 31 (int n)" by (simp add: signed_of_nat)
  also have "\<dots> = int n" using n by (intro signed_take_bit_int_eq_self) simp_all
  finally show ?thesis .
qed

lemma mac_text_hd:
  assumes "bs \<noteq> []"
  shows "\<exists>d r. d < 16 \<and> mac_text bs = hex_digit d # r"
proof -
  have "unat (hd bs) < 256" using unsigned_less [where w = "hd bs"] by simp
  then have "unat (hd bs) div 16 < 16" by simp
  then show ?thesis using assms
    by (cases bs rule: mac_text.cases) (auto simp: hex_byte_def)
qed

lemma mac_text_no_option:
  assumes "bs \<noteq> []"
  shows "\<not> strncmp_prefix ''ethertype='' (mac_text bs)" "\<not> strncmp_prefix ''ipproto='' (mac_text bs)"
proof -
  obtain d r where d: "d < 16" "mac_text bs = hex_digit d # r" using mac_text_hd [OF assms] by blast
  have "\<not> is_digit 16 (CHR ''i'')" "\<not> is_digit 16 (CHR ''t'')" "\<not> is_digit 16 CHR '':''"
    by (simp_all add: is_digit_def digit_val_def)
  then show "\<not> strncmp_prefix ''ipproto='' (mac_text bs)" using d is_digit_hex [OF d(1)] by auto
  have "\<exists>d' r'. mac_text bs = hex_digit d # hex_digit d' # r' \<and> d' < 16"
    using d(2) by (cases bs rule: mac_text.cases) (auto simp: hex_byte_def)
  then show "\<not> strncmp_prefix ''ethertype='' (mac_text bs)"
    using \<open>\<not> is_digit 16 (CHR ''t'')\<close> is_digit_hex by fastforce
qed

section \<open>Properties\<close>

text \<open>
  Parsing a filter description has no undefined behaviour: for every description,
  every filter library and resolver, each \<open>strtok\<close> and \<open>strchr\<close> result that is dereferenced
  is a string.
\<close>

theorem filter_parse_defined: "filter_parse ops s sa_mcast \<noteq> None"
proof -
  have "no_ub (filter_parse ops s sa_mcast)"
    by (auto simp: filter_parse_def Let_def intro!: no_ub_intros split: prod.split option.split)
  then show ?thesis by (simp add: no_ub_def)
qed

text \<open>
  C21.  A MAC filter is read back as written: the description \<open>eth:vid=v,mac\<close>, with the
  VLAN in decimal and the six bytes in hexadecimal, sets exactly that VLAN and address.
\<close>

theorem filter_parse_eth:
  assumes "v < 2 ^ 31" "length mac = 6"
    and "fs_set_eth_local ops (int v) mac (fs_init ops EF_FILTER_FLAG_NONE) = (0, fs)"
  shows "filter_parse ops (''eth:vid='' @ show_nat v @ '','' @ mac_text mac) sa_mcast =
    Some (Returned (0, fs, None, []))"
proof -
  have m: "mac \<noteq> []" using assms(2) by auto
  let ?r = "show_nat v @ '','' @ mac_text mac"
  have "strtok (Some (''eth:vid='' @ ?r)) [] '':'' = (Some ''eth'', ''vid='' @ ?r)"
    using strtok_type [of "''eth''" "''vid='' @ ?r"] by simp
  moreover have "consume_parameter (''vid='' @ ?r) = Some (atoi (show_nat v), Some (mac_text mac))"
    using consume_parameter_value [of "''vid''" "show_nat v" "mac_text mac"] show_nat_no_comma
      length_show_nat_pos mac_text_nonempty [OF m] by simp
  moreover have "strncmp_prefix ''vid='' (''vid='' @ ?r)" by (simp add: strncmp_prefix_iff)
  moreover have "filter_eth_options ops (int v) (mac_text mac) (fs_init ops EF_FILTER_FLAG_NONE) =
      Some (Returned (0, fs, None, []))"
    using mac_text_no_option [OF m] parse_mac_text [OF assms(2) m] assms(3)
    by (simp add: filter_eth_options_def filter_eth_mac_def TRY_def good_filter_def)
  ultimately show ?thesis
    using atoi_show_nat [OF assms(1)]
    by (simp add: filter_parse_def filter_eth_def strtok_rest Let_def del: append_Cons append.simps)
qed

text \<open>A filter library that records what it is asked to set.\<close>

definition sample_filter_ops :: "(int \<times> byte list) filter_ops" where
  "sample_filter_ops = \<lparr>
     fs_init = (\<lambda>_. (- 1, [])), fs_set_vlan = (\<lambda>v (_, m). (0, (v, m))),
     fs_set_ip4_full = (\<lambda>_ _ _ _ _ fs. (0, fs)), fs_set_ip6_full = (\<lambda>_ _ _ _ _ fs. (0, fs)),
     fs_set_ip4_local = (\<lambda>_ _ _ fs. (0, fs)), fs_set_ip6_local = (\<lambda>_ _ _ fs. (0, fs)),
     fs_set_eth_type = (\<lambda>_ fs. (0, fs)), fs_set_ip_proto = (\<lambda>_ fs. (0, fs)),
     fs_set_eth_local = (\<lambda>v m _. (0, (v, m))),
     fs_set_multicast_all = (\<lambda>fs. (0, fs)), fs_set_unicast_all = (\<lambda>fs. (0, fs)),
     fs_set_multicast_mismatch = (\<lambda>fs. (0, fs)), fs_set_unicast_mismatch = (\<lambda>fs. (0, fs)),
     fs_set_port_sniff = (\<lambda>p (_, m). (0, (p, m))), fs_set_tx_port_sniff = (\<lambda>fs. (0, fs)),
     fs_set_block_kernel = (\<lambda>fs. (0, fs)), fs_set_block_kernel_unicast = (\<lambda>fs. (0, fs)),
     fs_set_block_kernel_multicast = (\<lambda>fs. (0, fs)),
     hostport_to_sockaddr = (\<lambda>_ _. (0, Sa_in 0 0)), fo_errno = (0, [])\<rparr>"

theorem filter_parse_eth_witness:
  "filter_parse sample_filter_ops (''eth:vid='' @ show_nat 5 @ '','' @ mac_text [0, 0x0F, 0x53, 0xA1, 2, 255]) False =
     Some (Returned (0, (5, [0, 0x0F, 0x53, 0xA1, 2, 255]), None, [])) \<and>
   show_nat 5 = ''5'' \<and> mac_text [0, 0x0F, 0x53, 0xA1, 2, 255] = ''00:0f:53:a1:02:ff''"
proof -
  have "show_nat 5 = ''5''" by (simp add: fmt_eval)
  moreover have "mac_text [0, 0x0F, 0x53, 0xA1, 2, 255] = ''00:0f:53:a1:02:ff''"
    by (simp add: hex_byte_def hex_digit_def char_of_eq_iff)
  moreover have "filter_parse sample_filter_ops (''eth:vid='' @ show_nat 5 @ '','' @ mac_text [0, 0x0F, 0x53, 0xA1, 2, 255]) False =
     Some (Returned (0, (5, [0, 0x0F, 0x53, 0xA1, 2, 255]), None, []))"
    by (rule filter_parse_eth) (simp_all add: sample_filter_ops_def)
  ultimately show ?thesis by blast
qed

text \<open>
  Rounding up to a power of two gives the next multiple: not below the value, less
  than one alignment above it, and divisible by it, as long as the sum does not wrap.
\<close>

theorem ROUND_UP_next_multiple:
  assumes "align = 2 ^ k" "k < 64" "unat p + 2 ^ k \<le> 2 ^ 64"
  shows "2 ^ k dvd unat (ROUND_UP p align) \<and> unat p \<le> unat (ROUND_UP p align) \<and>
    unat (ROUND_UP p align) < unat p + 2 ^ k"
proof -
  have m: "align - 1 = mask k" using assms(1) by (simp add: mask_eq_exp_minus_1)
  have s: "unat (p + (align - 1)) = unat p + (2 ^ k - 1)"
  proof -
    have u: "unat (align - 1) = 2 ^ k - 1"
    proof -
      have "uint (mask k :: u64) = mask k" using assms(2) by (simp add: uint_mask_eq)
      then show ?thesis unfolding m by (metis unat_eq_nat_uint mask_nat_def nat_mask_eq)
    qed
    have "unat p + unat (align - 1) < 2 ^ 64" using assms(3) u by simp
    then show ?thesis using u by (simp add: unat_word_ariths)
  qed
  have r: "unat (ROUND_UP p align) = (unat p + (2 ^ k - 1)) div 2 ^ k * 2 ^ k"
  proof -
    have lt: "unat (p + (align - 1)) < 18446744073709551616"
      using assms(3) by (simp only: s) simp
    have "ROUND_UP p align = push_bit k (drop_bit k (p + (align - 1)))"
      by (rule bit_eqI) (auto simp: ROUND_UP_def m bit_simps simp flip: add_diff_eq)
    also have "unat \<dots> = push_bit k (drop_bit k (unat (p + (align - 1)))) mod 2 ^ 64"
      using lt by (simp add: unsigned_push_bit_eq unsigned_drop_bit_eq take_bit_eq_mod)
    also have "\<dots> = (unat p + (2 ^ k - 1)) div 2 ^ k * 2 ^ k mod 2 ^ 64"
      by (simp only: s push_bit_eq_mult drop_bit_eq_div)
    also have "\<dots> = (unat p + (2 ^ k - 1)) div 2 ^ k * 2 ^ k"
    proof (rule mod_less)
      have "(unat p + (2 ^ k - 1)) div 2 ^ k * 2 ^ k \<le> unat p + (2 ^ k - 1)" by simp
      also have "\<dots> < 2 ^ 64" using assms(3) by simp
      finally show "(unat p + (2 ^ k - 1)) div 2 ^ k * 2 ^ k < 2 ^ 64" .
    qed
    finally show ?thesis .
  qed
  define d where "d = (2::nat) ^ k"
  have d: "0 < d" by (simp add: d_def)
  define x where "x = unat p + (d - 1)"
  have x: "x + 1 = unat p + d" using d by (simp add: x_def)
  have "x div d * d + x mod d = x" by (rule div_mult_mod_eq)
  moreover have "x mod d < d" using d by simp
  ultimately have "unat p \<le> x div d * d" "x div d * d < unat p + d" using x by linarith+
  then show ?thesis unfolding r d_def [symmetric] x_def [symmetric] by simp
qed

text \<open>
  An integer sent with \<open>sock_put_int\<close> is the integer \<open>sock_get_int\<close> returns for the
  bytes it sent.
\<close>

theorem sock_int_roundtrip:
  assumes "sock_put_int send i = Some (Returned bytes)"
  shows "sock_get_int (4, bytes) = Some (Returned i)"
proof -
  have "bytes = le_of_word 4 (htonl i)"
    using assms by (simp add: sock_put_int_def TEST_def Let_def split: if_splits)
  then show ?thesis by (simp add: sock_get_int_def TEST_def word_of_le_of_word)
qed

text \<open>
  \<open>mk_socket\<close> frees the resolver's result exactly when it returns a socket: on both
  error paths after a successful lookup the result is leaked.
\<close>

theorem mk_socket_frees_iff_success:
  assumes "mk_socket env family socktype host port = Some (rc, calls, out)"
  shows "Freeaddrinfo \<in> set calls \<longleftrightarrow> 0 \<le> rc"
  using assms
  by (auto simp: mk_socket_def Let_def split: prod.splits if_splits option.splits)

end
