(* ===== verification/LinkedList.thy ===== *)
theory LinkedList
  imports Prelude
begin

text \<open>
  Linked structures in memory.  Nodes are numbers, a link is a function from nodes to
  optional nodes, and \<open>chain\<close> relates a head and a link to the list of nodes they spell.
  The locale \<open>lifo\<close> is the contract of a stack of nodes threaded through memory: what push
  and pop do to the list it represents.  It is interpreted on the pool of packet buffers
  and on the singly linked list of \<open>ci/tools/sllist.h\<close>.
\<close>

section \<open>Chains of nodes\<close>

fun chain :: "(nat \<Rightarrow> nat option) \<Rightarrow> nat option \<Rightarrow> nat list \<Rightarrow> bool" where
  "chain nx p [] = (p = None)"
| "chain nx p (x # xs) = (p = Some x \<and> chain nx (nx x) xs)"

lemma chain_cong: "(\<And>x. x \<in> set xs \<Longrightarrow> nx x = nx' x) \<Longrightarrow> chain nx p xs = chain nx' p xs"
  by (induction xs arbitrary: p) auto

lemma chain_upd [simp]: "x \<notin> set xs \<Longrightarrow> chain (nx(x := q)) p xs = chain nx p xs"
  by (rule chain_cong) auto

lemma chain_functional: "chain nx p xs \<Longrightarrow> chain nx p ys \<Longrightarrow> xs = ys"
  by (induction xs arbitrary: p ys) (auto elim: chain.elims)

lemma chain_suffix: "chain nx p (xs @ y # ys) \<Longrightarrow> chain nx (Some y) (y # ys)"
  by (induction xs arbitrary: p) auto

text \<open>A finite chain has no node twice.\<close>

lemma chain_distinct: "chain nx p xs \<Longrightarrow> distinct xs"
proof (induction xs arbitrary: p)
  case (Cons x xs)
  have "x \<notin> set xs"
  proof
    assume "x \<in> set xs"
    then obtain ys zs where xs: "xs = ys @ x # zs" by (auto dest: split_list)
    then have "chain nx (Some x) (x # zs)" using Cons.prems chain_suffix by fastforce
    moreover have "chain nx (Some x) (x # xs)" using Cons.prems by simp
    ultimately have "zs = xs" using chain_functional by blast
    with xs show False by (metis append_Cons append_eq_append_conv2 append_is_Nil_conv list.distinct(1) self_append_conv2)
  qed
  with Cons show ?case by auto
qed simp

section \<open>Stacks of nodes\<close>

locale lifo =
  fixes stack :: "'s \<Rightarrow> nat list \<Rightarrow> bool" and valid :: "'s \<Rightarrow> nat \<Rightarrow> bool"
    and push :: "nat \<Rightarrow> 's \<Rightarrow> 's" and pop :: "'s \<Rightarrow> (nat \<times> 's) option"
  assumes push_ok: "stack s xs \<Longrightarrow> valid s x \<Longrightarrow> x \<notin> set xs \<Longrightarrow> stack (push x s) (x # xs)"
    and pop_ok: "stack s (x # xs) \<Longrightarrow> \<exists>s'. pop s = Some (x, s') \<and> stack s' xs"
    and pop_empty: "stack s [] \<Longrightarrow> pop s = None"
    and valid_push: "valid (push x s) y = valid s y"
begin

lemma pop_push:
  assumes "stack s xs" "valid s x" "x \<notin> set xs"
  shows "\<exists>s'. pop (push x s) = Some (x, s') \<and> stack s' xs"
  using push_ok [OF assms] by (rule pop_ok)

lemma push_all:
  assumes "stack s xs" "distinct ys" "set ys \<inter> set xs = {}" "\<forall>y\<in>set ys. valid s y"
  shows "stack (fold push ys s) (rev ys @ xs)"
  using assms
proof (induction ys arbitrary: s xs)
  case (Cons y ys)
  then have "stack (push y s) (y # xs)" using push_ok by simp
  with Cons have "stack (fold push ys (push y s)) (rev ys @ y # xs)" by (simp add: valid_push)
  then show ?case by simp
qed simp

lemma pop_defined_iff: "stack s xs \<Longrightarrow> pop s \<noteq> None \<longleftrightarrow> xs \<noteq> []"
  using pop_ok pop_empty by (cases xs) fastforce+

end

end
