(* ===== verification/McClient.thy ===== *)
theory McClient
  imports EfVi EfUtils LinkedList Wire
begin

text \<open>
  \<open>EF_VI/mc_client_efvi.cpp\<close> and \<open>EF_VI/main.cpp\<close>: the client on a Solarflare virtual
  interface.  It owns a pool of packet buffers, posts them on the receive ring, polls the
  event queue, handles the frame each event announces and puts the buffer back on a free
  list threaded through the buffers.  A pointer to a packet buffer is its index in the
  pool; the first 32 bytes of each 2048-byte block are the header fields, kept apart from
  the bytes of the block.  The driver is the parameter \<open>vi_ops\<close> of \<open>EfVi\<close>.  The fields of a
  packet are loaded at any byte address, as x86-64 does; that the code reads some of them
  through pointers of a stricter alignment is outside the model.
\<close>

unbundle bit_operations_syntax

section \<open>State\<close>

abbreviation (input) EV_POLL_BATCH_SIZE :: int where "EV_POLL_BATCH_SIZE \<equiv> 16"
abbreviation (input) REFILL_BATCH_SIZE :: int where "REFILL_BATCH_SIZE \<equiv> 16"
abbreviation (input) PKT_BUF_SIZE :: nat where "PKT_BUF_SIZE \<equiv> 2048"
abbreviation (input) EF_VI_DMA_ALIGN :: u64 where "EF_VI_DMA_ALIGN \<equiv> 64"
abbreviation (input) huge_page_size :: u64 where "huge_page_size \<equiv> 0x200000"

text \<open>\<open>rx_ptr\<close> is an offset from the start of the buffer's own block.\<close>

record pkt_buf =
  efvi_addr :: ef_addr
  rx_ptr :: nat
  pb_id :: s32
  pb_next :: "nat option"
  pb_mem :: "byte list"

text \<open>\<open>sizeof(struct pkt_buf)\<close> is 32: two 8-byte words, an \<open>int\<close> with padding, a pointer.\<close>

definition RX_DMA_OFF :: nat where
  "RX_DMA_OFF = unat (ROUND_UP 32 EF_VI_DMA_ALIGN)"

record resources =
  res_vi :: ef_vi
  rx_prefix_len :: int
  pktlen_offset :: int
  refill_level :: int
  refill_min :: int
  batch_loops :: u32
  pkt_bufs :: "pkt_buf list"
  pkt_bufs_n :: int
  memreg :: "ef_addr list"
  free_pkt_bufs :: "nat option"
  free_pkt_bufs_n :: int
  n_rx_pkts :: u64
  n_rx_bytes :: u64
  n_ht_events :: u64

record mc_client_efvi =
  main_interface :: "byte list"
  cfg_max_fill :: int
  stop :: int
  prev_ip_id :: u16
  res :: resources

section \<open>The buffer pool\<close>

text \<open>\<^term>\<open>None\<close> is the failing assertion.\<close>

definition pkt_buf_from_id :: "resources \<Rightarrow> s32 \<Rightarrow> nat option" where
  "pkt_buf_from_id r pkt_buf_i = (if pkt_buf_i < of_int (pkt_bufs_n r) then Some (unat pkt_buf_i) else None)"

definition pkt_buf_free :: "nat \<Rightarrow> resources \<Rightarrow> resources" where
  "pkt_buf_free b r = r\<lparr>
     pkt_bufs := (pkt_bufs r)[b := (pkt_bufs r ! b)\<lparr>pb_next := free_pkt_bufs r\<rparr>],
     free_pkt_bufs := Some b,
     free_pkt_bufs_n := free_pkt_bufs_n r + 1\<rparr>"

text \<open>
  Taking the first free buffer, as the refill loop does; with an empty list it would
  dereference the null pointer.
\<close>

definition pkt_buf_take :: "resources \<Rightarrow> (nat \<times> resources) option" where
  "pkt_buf_take r =
     (case free_pkt_bufs r of
        None \<Rightarrow> None
      | Some b \<Rightarrow>
          if b < length (pkt_bufs r) then
            Some (b, r\<lparr>free_pkt_bufs := pb_next (pkt_bufs r ! b),
                       free_pkt_bufs_n := free_pkt_bufs_n r - 1\<rparr>)
          else None)"

section \<open>Handling a frame\<close>

definition efvi_best_line :: "u16 \<Rightarrow> byte list \<Rightarrow> string option" where
  "efvi_best_line last_ip_id out = do {
     q \<leftarrow> best_decode out;
     contract_id \<leftarrow> fmt_s out (offsetof best_layout Bq_contract_id);
     gen_time \<leftarrow> fmt_s out (offsetof best_layout Bq_gen_time);
     Some (pad_left 5 (show_nat (unat last_ip_id)) @ '', '' @ contract_id @ '', '' @
       pad_left 12 gen_time @ '', best, '' @ best_book q @ '', '' @
       fmt_d (bq_match_tot_qty q) @ ''/'' @ fmt_d (bq_open_interest q) @ '', '' @ best_last q @ newline)
   }"

definition efvi_deep_line :: "u16 \<Rightarrow> byte list \<Rightarrow> string option" where
  "efvi_deep_line last_ip_id out = do {
     q \<leftarrow> depth_decode out;
     contract_id \<leftarrow> fmt_s out (offsetof depth_layout Du_contract_id);
     gen_time \<leftarrow> fmt_s out (offsetof depth_layout Du_gen_time);
     Some (pad_left 5 (show_nat (unat last_ip_id)) @ '', '' @ contract_id @ '', '' @
       pad_left 12 gen_time @ '', deep, '' @ deep_book q @ newline)
   }"

text \<open>
  The first test of \<open>handle_pkt\<close>, in the order of its disjuncts: \<open>p\<close> points six bytes into
  an Ethernet frame.
\<close>

definition efvi_accepts :: "byte list \<Rightarrow> nat \<Rightarrow> int \<Rightarrow> bool option" where
  "efvi_accepts mem p len =
     (if len < 60 then Some False
      else do {
        eth_proto \<leftarrow> load16 mem (p + 6);
        if eth_proto \<noteq> 0x0008 then Some False
        else do {
          ip_header_len \<leftarrow> load8 mem (p + 8);
          if ip_header_len \<noteq> 0x45 then Some False
          else do {
            ip_proto \<leftarrow> load8 mem (p + 17);
            if ip_proto \<noteq> 0x11 then Some False
            else do {
              dst_ip \<leftarrow> load32 mem (p + 24);
              Some (dst_ip = 0x08efefef)
            }
          }
        }
      })"

text \<open>The block of memory, where the packet starts in it, its length.\<close>

definition handle_pkt ::
  "handler \<Rightarrow> u16 \<Rightarrow> byte list \<Rightarrow> nat \<Rightarrow> int \<Rightarrow> (u16 \<times> byte list \<times> msg list) option" where
  "handle_pkt h prev mem p len = do {
     ok \<leftarrow> efvi_accepts mem p len;
     if \<not> ok then Some (prev, mem, [])
     else if p < 6 then None
     else do {
       (st, out) \<leftarrow> report_frame efvi_best_line efvi_deep_line h
         \<lparr>rx_buf = drop (p - 6) mem, rx_prev_ip_id = prev\<rparr> (len - 36);
       Some (rx_prev_ip_id st, take (p - 6) mem @ rx_buf st, out)
     }
   }"

definition handle_rx_core ::
  "handler \<Rightarrow> mc_client_efvi \<Rightarrow> nat \<Rightarrow> int \<Rightarrow> (mc_client_efvi \<times> msg list) option" where
  "handle_rx_core h c b len =
     (let r = res c
      in if b < length (pkt_bufs r) then do {
           let pb = pkt_bufs r ! b;
           (prev, mem, out) \<leftarrow> handle_pkt h (prev_ip_id c) (pb_mem pb) (rx_ptr pb) len;
           Some (c\<lparr>prev_ip_id := prev,
                   res := r\<lparr>pkt_bufs := (pkt_bufs r)[b := pb\<lparr>pb_mem := mem\<rparr>],
                            n_rx_pkts := n_rx_pkts r + 1,
                            n_rx_bytes := n_rx_bytes r + of_int len\<rparr>\<rparr>, out)
         }
         else None)"

definition assert_failed :: "msg list" where
  "assert_failed = [Err (''Assertion (unsigned) pkt_buf_i < (unsigned) res->pkt_bufs_n failed.'' @ newline)]"

definition handle_rx ::
  "handler \<Rightarrow> mc_client_efvi \<Rightarrow> s32 \<Rightarrow> int \<Rightarrow> (mc_client_efvi \<times> msg list \<times> flow) option" where
  "handle_rx h c pkt_buf_i len =
     (case pkt_buf_from_id (res c) pkt_buf_i of
        None \<Rightarrow> Some (c, assert_failed, Abort)
      | Some b \<Rightarrow> do {
          (c', out) \<leftarrow> handle_rx_core h c b len;
          Some (c'\<lparr>res := pkt_buf_free b (res c')\<rparr>, out, Continue)
        })"

definition handle_rx_discard ::
  "mc_client_efvi \<Rightarrow> s32 \<Rightarrow> int \<Rightarrow> u32 \<Rightarrow> (mc_client_efvi \<times> msg list \<times> flow) option" where
  "handle_rx_discard c pkt_buf_i len discard_type =
     (let out = [Err (''ERROR: discard type='' @ show_nat (unat discard_type) @ newline)]
      in case pkt_buf_from_id (res c) pkt_buf_i of
           None \<Rightarrow> Some (c, out @ assert_failed, Abort)
         | Some b \<Rightarrow>
             if b < length (pkt_bufs (res c))
             then Some (c\<lparr>res := pkt_buf_free b (res c)\<rparr>, out, Continue) else None)"

section \<open>Refilling the receive ring\<close>

definition refill_one :: "'w vi_ops \<Rightarrow> resources \<Rightarrow> resources option" where
  "refill_one ops r = do {
     (b, r) \<leftarrow> pkt_buf_take r;
     let pb = pkt_bufs r ! b;
     Some (r\<lparr>res_vi := snd (receive_init ops (res_vi r) (efvi_addr pb + of_nat RX_DMA_OFF) (pb_id pb))\<rparr>)
   }"

fun refill_batch :: "'w vi_ops \<Rightarrow> nat \<Rightarrow> resources \<Rightarrow> resources option" where
  "refill_batch ops 0 r = Some r"
| "refill_batch ops (Suc n) r = do {
     r \<leftarrow> refill_one ops r;
     refill_batch ops n r
   }"

lemma refill_one_free_n: "refill_one ops r = Some r' \<Longrightarrow> free_pkt_bufs_n r' = free_pkt_bufs_n r - 1"
  by (auto simp: refill_one_def pkt_buf_take_def bind_eq_Some_conv Let_def split: option.splits if_splits)

lemma refill_batch_free_n:
  "refill_batch ops n r = Some r' \<Longrightarrow> free_pkt_bufs_n r' = free_pkt_bufs_n r - int n"
proof (induction n arbitrary: r)
  case (Suc n)
  then obtain r1 where "refill_one ops r = Some r1" "refill_batch ops n r1 = Some r'"
    by (auto simp: bind_eq_Some_conv)
  with Suc.IH refill_one_free_n show ?case by fastforce
qed simp

function refill_loop :: "'w vi_ops \<Rightarrow> resources \<Rightarrow> resources option" where
  "refill_loop ops r =
     (case refill_batch ops (nat REFILL_BATCH_SIZE) r of
        None \<Rightarrow> None
      | Some r' \<Rightarrow>
          if ef_vi_receive_fill_level (res_vi r') < refill_min r' \<and> REFILL_BATCH_SIZE \<le> free_pkt_bufs_n r'
          then refill_loop ops r' else Some r')"
  by pat_completeness auto

termination
  by (relation "measure (\<lambda>(ops, r). nat (free_pkt_bufs_n r))")
    (auto dest: refill_batch_free_n)

declare refill_loop.simps [simp del]

definition refill_rx_ring :: "'w vi_ops \<Rightarrow> resources \<Rightarrow> (resources \<times> bool) option" where
  "refill_rx_ring ops r =
     (if refill_level r < ef_vi_receive_fill_level (res_vi r) \<or> free_pkt_bufs_n r < REFILL_BATCH_SIZE
      then Some (r, False)
      else do {
        r \<leftarrow> refill_loop ops r;
        Some (r\<lparr>res_vi := receive_push ops (res_vi r)\<rparr>, True)
      })"

section \<open>Polling\<close>

text \<open>What the adapter writes into registered memory.\<close>

definition dma_write :: "ef_addr \<times> byte list \<Rightarrow> pkt_buf list \<Rightarrow> pkt_buf list" where
  "dma_write w bufs =
     map (\<lambda>pb. if efvi_addr pb + of_nat RX_DMA_OFF = fst w
               then pb\<lparr>pb_mem := take RX_DMA_OFF (pb_mem pb) @ fill_buffer (drop RX_DMA_OFF (pb_mem pb)) (snd w)\<rparr>
               else pb) bufs"

definition handle_event ::
  "handler \<Rightarrow> mc_client_efvi \<Rightarrow> ef_event \<Rightarrow> (mc_client_efvi \<times> msg list \<times> flow) option" where
  "handle_event h c ev =
     (if EF_EVENT_TYPE ev = event_type_code EF_EVENT_TYPE_RX then
        if EF_EVENT_RX_SOP ev \<and> \<not> EF_EVENT_RX_CONT ev then
          handle_rx h c (EF_EVENT_RX_RQ_ID ev)
            (int (unat (EF_EVENT_RX_BYTES ev)) - rx_prefix_len (res c))
        else Some (c, test_failed ''EF_EVENT_RX_SOP(evs[i]) && ! EF_EVENT_RX_CONT(evs[i])''
                        ''mc_client_efvi.cpp'' 194, Abort)
      else if EF_EVENT_TYPE ev = event_type_code EF_EVENT_TYPE_RX_DISCARD then
        handle_rx_discard c (EF_EVENT_RX_DISCARD_RQ_ID ev)
          (int (unat (EF_EVENT_RX_DISCARD_BYTES ev)) - rx_prefix_len (res c)) (EF_EVENT_RX_DISCARD_TYPE ev)
      else Some (c, [Err (''ERROR: unexpected event type='' @ show_nat (unat (EF_EVENT_TYPE ev)) @ newline)],
                 Continue))"

definition poll_evq ::
  "'w vi_ops \<Rightarrow> handler \<Rightarrow> mc_client_efvi \<Rightarrow> 'w \<Rightarrow> (mc_client_efvi \<times> msg list \<times> flow) option" where
  "poll_evq ops h c w =
     (case eventq_poll ops w (res_vi (res c)) EV_POLL_BATCH_SIZE of (evs, vi, dma) \<Rightarrow>
        run_loop (handle_event h)
          (c\<lparr>res := (res c)\<lparr>res_vi := vi, pkt_bufs := fold dma_write dma (pkt_bufs (res c))\<rparr>\<rparr>) evs)"

text \<open>One turn of the event loop.\<close>

definition efvi_step ::
  "'w vi_ops \<times> handler \<Rightarrow> mc_client_efvi \<Rightarrow> 'w \<Rightarrow> (mc_client_efvi \<times> msg list \<times> flow) option" where
  "efvi_step d c w =
     (case d of (ops, h) \<Rightarrow> do {
        (r, refilled) \<leftarrow> refill_rx_ring ops (res c);
        poll_evq ops h (c\<lparr>res := r\<rparr>) w
      })"

text \<open>The flag \<open>stop\<close> is set by the constructor and never written again.\<close>

definition event_loop_low_latency ::
  "'w vi_ops \<times> handler \<Rightarrow> mc_client_efvi \<Rightarrow> 'w list \<Rightarrow> (mc_client_efvi \<times> msg list \<times> flow) option" where
  "event_loop_low_latency d c ws =
     (if stop c \<noteq> 0 then run_loop (efvi_step d) c ws else Some (c, [], Continue))"

section \<open>Construction and set-up\<close>

text \<open>
  The constructor copies eight bytes of the interface name into ten; the last two keep
  what the memory held (\<open>junk\<close>).
\<close>

definition new_client :: "byte list \<Rightarrow> byte list \<Rightarrow> resources \<Rightarrow> (mc_client_efvi \<times> msg list) option" where
  "new_client input_interface junk r = do {
     name \<leftarrow> load 8 input_interface 0;
     let main_if = name @ junk;
     text \<leftarrow> cstring main_if;
     Some (\<lparr>main_interface = main_if, cfg_max_fill = - 1, stop = 1, prev_ip_id = 0, res = r\<rparr>,
           [Out (''main_interface:'' @ text @ newline)])
   }"

text \<open>
  The outside of \<open>init\<close>: each call's result, and what new memory of a given size holds.
  \<open>localtime\<close> may return a null pointer.
\<close>

record 'fs init_env =
  ie_calloc :: bool
  ie_driver_open :: int
  ie_pd_alloc :: "string \<Rightarrow> int"
  ie_vi_alloc :: "int \<times> ef_vi"
  ie_eventq_capacity :: "ef_vi \<Rightarrow> int"
  ie_mmap :: "u64 \<Rightarrow> bool"
  ie_memalign :: "u64 \<Rightarrow> int"
  ie_memory :: "u64 \<Rightarrow> byte list"
  ie_memreg_alloc :: "u64 \<Rightarrow> int \<times> ef_addr list"
  ie_filter_ops :: "'fs filter_ops"
  ie_filter_add :: "'fs \<Rightarrow> int"
  ie_localtime :: "(int \<times> int \<times> int \<times> int \<times> int \<times> int) option"
  ie_errno :: errno

text \<open>\<open>TRY\<close> and \<open>TEST\<close> with what was printed before, and what follows.\<close>

definition mc_try :: "errno \<Rightarrow> string \<Rightarrow> nat \<Rightarrow> int \<Rightarrow> mc_client_efvi \<Rightarrow> msg list \<Rightarrow>
   (mc_client_efvi \<times> msg list \<times> flow) option \<Rightarrow> (mc_client_efvi \<times> msg list \<times> flow) option" where
  "mc_try err what line rc c out k =
     (if rc < 0 then Some (c, out @ try_failed err what ''mc_client_efvi.cpp'' line rc, Abort) else k)"

definition mc_test :: "string \<Rightarrow> nat \<Rightarrow> bool \<Rightarrow> mc_client_efvi \<Rightarrow> msg list \<Rightarrow>
   (mc_client_efvi \<times> msg list \<times> flow) option \<Rightarrow> (mc_client_efvi \<times> msg list \<times> flow) option" where
  "mc_test what line b c out k =
     (if b then k else Some (c, out @ test_failed what ''mc_client_efvi.cpp'' line, Abort))"

definition zero_resources :: "ef_vi \<Rightarrow> resources" where
  "zero_resources vi = \<lparr>res_vi = vi, rx_prefix_len = 0, pktlen_offset = 0, refill_level = 0,
     refill_min = 0, batch_loops = 0, pkt_bufs = [], pkt_bufs_n = 0, memreg = [],
     free_pkt_bufs = None, free_pkt_bufs_n = 0, n_rx_pkts = 0, n_rx_bytes = 0, n_ht_events = 0\<rparr>"

text \<open>
  The blocks of the new memory, before their headers are written.  A block that reaches behind
  the end of the allocation is undefined.
\<close>

definition block :: "byte list \<Rightarrow> nat \<Rightarrow> byte list" where
  "block memory i = take PKT_BUF_SIZE (drop (i * PKT_BUF_SIZE) memory)"

definition raw_bufs :: "byte list \<Rightarrow> nat \<Rightarrow> pkt_buf list option" where
  "raw_bufs memory n =
     (if n * PKT_BUF_SIZE \<le> length memory
      then Some (map (\<lambda>i. \<lparr>efvi_addr = 0, rx_ptr = 0, pb_id = 0, pb_next = None, pb_mem = block memory i\<rparr>) [0..<n])
      else None)"

text \<open>Writing one header and freeing the buffer.\<close>

definition init_buf :: "nat \<Rightarrow> resources \<Rightarrow> resources" where
  "init_buf i r = pkt_buf_free i (r\<lparr>pkt_bufs :=
     (pkt_bufs r)[i := (pkt_bufs r ! i)\<lparr>rx_ptr := RX_DMA_OFF + nat (rx_prefix_len r), pb_id := of_nat i\<rparr>]\<rparr>)"

definition init_pool :: "byte list \<Rightarrow> resources \<Rightarrow> resources option" where
  "init_pool memory r = do {
     let n = nat (pkt_bufs_n r);
     bufs \<leftarrow> raw_bufs memory n;
     Some (fold init_buf [0..<n] (r\<lparr>pkt_bufs := bufs\<rparr>))
   }"

text \<open>The second loop: the DMA address of every block, whose offset is a product of two \<open>int\<close>s.\<close>

fun set_addrs :: "ef_addr list \<Rightarrow> nat \<Rightarrow> pkt_buf list \<Rightarrow> pkt_buf list option" where
  "set_addrs pages i [] = Some []"
| "set_addrs pages i (pb # pbs) = do {
     offset \<leftarrow> c_int (int i * int PKT_BUF_SIZE);
     a \<leftarrow> ef_memreg_dma_addr pages (of_int offset);
     rest \<leftarrow> set_addrs pages (Suc i) pbs;
     Some (pb\<lparr>efvi_addr := a\<rparr> # rest)
   }"

text \<open>The loop that fills the ring; it could run forever if a refill added nothing.\<close>

partial_function (option) fill_rx_ring :: "'w vi_ops \<Rightarrow> resources \<Rightarrow> resources option" where
  "fill_rx_ring ops r =
     (if ef_vi_receive_fill_level (res_vi r) \<le> refill_level r then do {
        (r, refilled) \<leftarrow> refill_rx_ring ops r;
        fill_rx_ring ops r
      }
      else Some r)"

text \<open>\<open>%0nd\<close>: the zeros stand between the sign and the digits.\<close>

definition pad0 :: "nat \<Rightarrow> int \<Rightarrow> string" where
  "pad0 n i = (let sign = (if i < 0 then ''-'' else []); digits = show_nat (nat \<bar>i\<bar>)
     in sign @ replicate (n - length sign - length digits) CHR ''0'' @ digits)"

text \<open>
  The members are read through the pointer \<open>localtime\<close> returned, which is not checked.
  \<open>tm_mon\<close> counts from zero and is printed as it is.
\<close>

definition ready_line :: "(int \<times> int \<times> int \<times> int \<times> int \<times> int) option \<Rightarrow> string option" where
  "ready_line tm = do {
     (tm_year, tm_mon, tm_mday, tm_hour, tm_min, tm_sec) \<leftarrow> tm;
     year \<leftarrow> c_int (tm_year + 1900);
     Some (''Ready to receive, time: '' @ pad0 4 year @ '':'' @ pad0 2 tm_mon @ '':'' @ pad0 2 tm_mday @ ''_'' @
        pad0 2 tm_hour @ '':'' @ pad0 2 tm_min @ '':'' @ pad0 2 tm_sec @ '' '' @ newline)
   }"

text \<open>The last part of \<open>init\<close>: filters and the greeting.\<close>

definition init_filters ::
  "'fs init_env \<Rightarrow> mc_client_efvi \<Rightarrow> msg list \<Rightarrow> (mc_client_efvi \<times> msg list \<times> flow) option" where
  "init_filters env c out = do {
     parsed \<leftarrow> filter_parse (ie_filter_ops env) ''sniff'' False;
     case parsed of
       Aborted m \<Rightarrow> Some (c, out @ m, Abort)
     | Returned (rc, fs, mcast, m) \<Rightarrow>
         if rc \<noteq> 0 then Some (c, out @ m @ [Err (''ERROR: Bad filter spec'' @ newline)], Exit 1)
         else mc_try (ie_errno env) ''ef_vi_filter_add(&res->vi, res->dh, &filter_spec, NULL)'' 282
                (ie_filter_add env fs) c (out @ m)
                (do {
                   line \<leftarrow> ready_line (ie_localtime env);
                   Some (c, out @ m @ [Out line], Continue)
                 })
   }"

text \<open>Division of a C \<open>int\<close> by two rounds towards zero.\<close>

definition half :: "int \<Rightarrow> int" where
  "half i = (if i < 0 then - (- i div 2) else i div 2)"

text \<open>The middle part: memory registration, addresses and the receive ring.\<close>

definition init_ring ::
  "'w vi_ops \<Rightarrow> 'fs init_env \<Rightarrow> u64 \<Rightarrow> mc_client_efvi \<Rightarrow> msg list \<Rightarrow> (mc_client_efvi \<times> msg list \<times> flow) option" where
  "init_ring ops env alloc_size c out =
     mc_try (ie_errno env) ''ef_memreg_alloc(&res->memreg, res->dh, &res->pd, res->dh, res->pkt_bufs, alloc_size)'' 264
       (fst (ie_memreg_alloc env alloc_size)) c out
       (do {
          let r = (res c)\<lparr>memreg := snd (ie_memreg_alloc env alloc_size)\<rparr>;
          bufs \<leftarrow> set_addrs (memreg r) 0 (pkt_bufs r);
          r \<leftarrow> fill_rx_ring ops (r\<lparr>pkt_bufs := bufs,
                 refill_level := cfg_max_fill c - REFILL_BATCH_SIZE,
                 refill_min := half (cfg_max_fill c)\<rparr>);
          init_filters env (c\<lparr>res := r\<rparr>) out
        })"

definition init ::
  "'w vi_ops \<Rightarrow> 'fs init_env \<Rightarrow> mc_client_efvi \<Rightarrow> (mc_client_efvi \<times> msg list \<times> flow) option" where
  "init ops env c = do {
     name \<leftarrow> cstring (main_interface c);
     let err = ie_errno env;
     let vi = snd (ie_vi_alloc env);
     mc_test ''(res = (struct resources*)calloc(1, sizeof(*res))) != NULL'' 219 (ie_calloc env) c []
     (mc_try err ''ef_driver_open(&res->dh)'' 222 (ie_driver_open env) c []
     (mc_try err ''ef_pd_alloc_by_name(&res->pd, res->dh, main_interface, EF_PD_DEFAULT)'' 223 (ie_pd_alloc env name) c []
     (mc_try err ''ef_vi_alloc_from_pd(&res->vi, res->dh, &res->pd, res->dh, -1, -1, 0, NULL, -1, EF_VI_FLAGS_DEFAULT)'' 224
        (fst (ie_vi_alloc env)) c []
     (do {
      let max_fill = ef_vi_receive_capacity vi - 15;
      size \<leftarrow> c_int (max_fill * int PKT_BUF_SIZE);
      (let prefix = ef_vi_receive_prefix_len vi;
          r = (zero_resources vi)\<lparr>rx_prefix_len := prefix, pkt_bufs_n := max_fill\<rparr>;
          alloc_size = of_int size :: u64;
          rounded = ROUND_UP alloc_size huge_page_size;
          c = c\<lparr>cfg_max_fill := max_fill\<rparr>;
          out = [Err (''rxq_size='' @ show_int (ef_vi_receive_capacity vi) @ newline),
                 Err (''max_fill='' @ show_int max_fill @ newline),
                 Err (''evq_size='' @ show_int (ie_eventq_capacity env vi) @ newline),
                 Err (''rx_prefix_len='' @ show_int prefix @ newline),
                 Out (''alloc_size:'' @ show_int (sint (ucast alloc_size :: u32)) @ '', huge_page_size:'' @
                      show_int (int (unat huge_page_size)) @ newline)] @
                (if ie_mmap env rounded then []
                 else [Err (''mmap() failed. Are huge pages configured?'' @ newline)])
      in mc_test ''posix_memalign(&res->pkt_bufs, huge_page_size, alloc_size) == 0'' 252
        (ie_mmap env rounded \<or> ie_memalign env rounded = 0) c out
        (do {
           r \<leftarrow> init_pool (ie_memory env rounded) r;
           init_ring ops env rounded (c\<lparr>res := r\<rparr>) out
         }))
      }))))
   }"

text \<open>\<open>main.cpp\<close>: the thread builds the client, sets it up and runs its loop.\<close>

definition INTERFACE :: "byte list" where
  "INTERFACE = [0x65, 0x6E, 0x73, 0x31, 0x66, 0x30, 0, 0]"

definition MarketDataThread_EFVI ::
  "'w vi_ops \<times> handler \<Rightarrow> 'fs init_env \<Rightarrow> byte list \<Rightarrow> resources \<Rightarrow> 'w list \<Rightarrow> (msg list \<times> flow) option" where
  "MarketDataThread_EFVI d env junk r ws = do {
     (c, out1) \<leftarrow> new_client INTERFACE junk r;
     (c, out2, fl) \<leftarrow> init (fst d) env c;
     let out = out1 @ [Out (''EFVI Init'' @ newline)] @ out2;
     if fl \<noteq> Continue then Some (out, fl)
     else do {
       (c, out3, fl) \<leftarrow> event_loop_low_latency d c ws;
       Some (out @ [Out (''Low Latency looping'' @ newline)] @ out3, fl)
     }
   }"

text \<open>
  The process starts the thread and then spins in an empty loop, of which any number of rounds
  has passed; when the thread aborts, so does the process.
\<close>

definition efvi_main ::
  "int \<Rightarrow> 'w vi_ops \<times> handler \<Rightarrow> 'fs init_env \<Rightarrow> byte list \<Rightarrow> resources \<Rightarrow> 'w list \<Rightarrow> nat \<Rightarrow> (msg list \<times> flow) option" where
  "efvi_main md_ret d env junk r ws rounds =
     (if md_ret \<noteq> 0 then Some ([Out ''Create MarketData Thread_EFVI Error!''], Exit (- 1))
      else do {
        (out, fl) \<leftarrow> MarketDataThread_EFVI d env junk r ws;
        (u, out', fl') \<leftarrow> run_loop (\<lambda>u w. Some (u, [], Continue)) () (replicate rounds ());
        Some (out @ out', if fl = Continue then fl' else fl)
      })"

end
