(* ===== verification/McInvariant.thy ===== *)
theory McInvariant
  imports McClient
begin

text \<open>
  The ownership of packet buffers in \<open>EF_VI/mc_client_efvi.cpp\<close>: at any moment every buffer
  is on the free list, on the receive ring, or in the hands of the event being handled, and
  never in two of these places.  From this invariant follow the safety of the refill loop
  and of the event loop, the end of the filling loop in \<open>init\<close>, and, together with the
  addresses posted to the adapter, what the client prints for the frames it is sent.
\<close>

unbundle bit_operations_syntax

lemma RX_DMA_OFF [simp]: "RX_DMA_OFF = 64"
  by (simp add: RX_DMA_OFF_def ROUND_UP_def)

section \<open>The free list is a stack\<close>

definition pool :: "resources \<Rightarrow> nat list \<Rightarrow> bool" where
  "pool r xs \<longleftrightarrow> chain (\<lambda>i. pb_next (pkt_bufs r ! i)) (free_pkt_bufs r) xs \<and>
     free_pkt_bufs_n r = int (length xs) \<and> set xs \<subseteq> {..<length (pkt_bufs r)}"

interpretation free_list: lifo pool "\<lambda>r i. i < length (pkt_bufs r)" pkt_buf_free pkt_buf_take
proof unfold_locales
  fix r xs x
  assume "pool r xs" "x < length (pkt_bufs r)" "x \<notin> set xs"
  moreover from this have
    "chain (\<lambda>i. pb_next ((pkt_bufs r)[x := (pkt_bufs r ! x)\<lparr>pb_next := free_pkt_bufs r\<rparr>] ! i))
       (free_pkt_bufs r) xs = chain (\<lambda>i. pb_next (pkt_bufs r ! i)) (free_pkt_bufs r) xs"
    by (intro chain_cong) (auto simp: nth_list_update)
  ultimately show "pool (pkt_buf_free x r) (x # xs)"
    by (simp add: pool_def pkt_buf_free_def)
next
  fix r x xs
  assume "pool r (x # xs)"
  then show "\<exists>r'. pkt_buf_take r = Some (x, r') \<and> pool r' xs"
    by (auto simp: pool_def pkt_buf_take_def)
qed (auto simp: pool_def pkt_buf_take_def pkt_buf_free_def)

section \<open>The invariant\<close>

text \<open>What never changes after \<open>init\<close>: the headers and the sizes.\<close>

definition bufs_ok :: "resources \<Rightarrow> bool" where
  "bufs_ok r \<longleftrightarrow>
     pkt_bufs_n r = int (length (pkt_bufs r)) \<and> 0 \<le> rx_prefix_len r \<and> rx_prefix_len r \<le> 1792 \<and>
     (\<forall>i<length (pkt_bufs r).
        pb_id (pkt_bufs r ! i) = of_nat i \<and>
        rx_ptr (pkt_bufs r ! i) = 64 + nat (rx_prefix_len r) \<and>
        length (pb_mem (pkt_bufs r ! i)) = PKT_BUF_SIZE) \<and>
     inj_on (\<lambda>i. efvi_addr (pkt_bufs r ! i)) {..<length (pkt_bufs r)}"

definition posted :: "resources \<Rightarrow> nat list" where
  "posted r = map (unat \<circ> snd) (rx_ring (res_vi r))"

definition ring_addrs :: "resources \<Rightarrow> bool" where
  "ring_addrs r \<longleftrightarrow> (\<forall>(a, rid)\<in>set (rx_ring (res_vi r)). a = efvi_addr (pkt_bufs r ! unat rid) + 64)"

text \<open>
  The free buffers, the ones being handled and the posted ones are all the buffers, each
  once; and the ring can hold all of them.
\<close>

definition owned :: "resources \<Rightarrow> nat list \<Rightarrow> nat list \<Rightarrow> bool" where
  "owned r free busy \<longleftrightarrow>
     pool r free \<and> distinct (free @ busy @ posted r) \<and>
     set (free @ busy @ posted r) = {..<length (pkt_bufs r)}"

definition res_ok :: "resources \<Rightarrow> nat list \<Rightarrow> nat list \<Rightarrow> bool" where
  "res_ok r free busy \<longleftrightarrow>
     bufs_ok r \<and> rxq_ok (res_vi r) \<and> ring_addrs r \<and> owned r free busy \<and>
     int (length (pkt_bufs r)) \<le> ef_vi_receive_capacity (res_vi r)"

lemma owned_length:
  assumes "owned r free busy"
  shows "length free + length busy + rx_fill (res_vi r) = length (pkt_bufs r)"
proof -
  have "length (free @ busy @ posted r) = card (set (free @ busy @ posted r))"
    using assms by (metis owned_def distinct_card)
  also have "\<dots> = length (pkt_bufs r)" using assms by (simp add: owned_def)
  finally show ?thesis by (simp add: posted_def)
qed

lemma res_ok_small:
  assumes "res_ok r free busy"
  shows "length (pkt_bufs r) < 2 ^ 30"
proof -
  have ok: "rxq_ok (res_vi r)" using assms by (simp add: res_ok_def)
  have "int (length (pkt_bufs r)) \<le> int (unat (rxq_mask (vi_rxq (res_vi r))))"
    using assms receive_capacity [OF ok] by (simp add: res_ok_def)
  then show ?thesis using rxq_ok_bounds(2) [OF ok] by linarith
qed

section \<open>Refilling\<close>

text \<open>The parts of the resources a refill leaves alone.\<close>

definition same_pool :: "resources \<Rightarrow> resources \<Rightarrow> bool" where
  "same_pool r r' \<longleftrightarrow> pkt_bufs r' = pkt_bufs r \<and> pkt_bufs_n r' = pkt_bufs_n r \<and>
     rx_prefix_len r' = rx_prefix_len r \<and> refill_level r' = refill_level r \<and>
     refill_min r' = refill_min r \<and> n_rx_pkts r' = n_rx_pkts r \<and> n_rx_bytes r' = n_rx_bytes r \<and>
     same_config (res_vi r) (res_vi r')"

lemma same_pool_refl [simp]: "same_pool r r"
  by (simp add: same_pool_def same_config_def)

lemma same_pool_trans: "same_pool a b \<Longrightarrow> same_pool b c \<Longrightarrow> same_pool a c"
  by (simp add: same_pool_def same_config_def)

lemma capacity_config: "same_config vi vi' \<Longrightarrow> ef_vi_receive_capacity vi' = ef_vi_receive_capacity vi"
  by (simp add: same_config_def ef_vi_receive_capacity_def)

lemma driver_init:
  assumes "driver_ok ops" "rxq_ok vi" "0 < ef_vi_receive_space vi"
  obtains vi' where "receive_init ops vi a rid = (0, vi')" "rx_ring vi' = rx_ring vi @ [(a, rid)]"
    "rxq_ok vi'" "same_config vi vi'"
proof -
  obtain rc vi' where "receive_init ops vi a rid = (rc, vi')" by (cases "receive_init ops vi a rid")
  moreover have "case receive_init ops vi a rid of (rc, vi') \<Rightarrow>
      rc = 0 \<and> rx_ring vi' = rx_ring vi @ [(a, rid)] \<and> rxq_ok vi' \<and> same_config vi vi'"
    by (rule driver_ok_def [THEN iffD1, OF assms(1), THEN conjunct1, rule_format, OF assms(2,3)])
  ultimately show thesis using that by auto
qed

lemma driver_push:
  assumes "driver_ok ops" "rxq_ok vi"
  shows "rx_ring (receive_push ops vi) = rx_ring vi" "rxq_ok (receive_push ops vi)"
    "same_config vi (receive_push ops vi)"
  using assms by (simp_all add: driver_ok_def)

lemma pkt_buf_take_eq:
  "pkt_buf_take r = Some (b, r') \<Longrightarrow>
   r' = r\<lparr>free_pkt_bufs := pb_next (pkt_bufs r ! b), free_pkt_bufs_n := free_pkt_bufs_n r - 1\<rparr>"
  by (auto simp: pkt_buf_take_def split: option.splits if_splits)

lemma refill_one_ok:
  assumes drv: "driver_ok ops" and ok: "res_ok r (b # free) busy"
  shows "\<exists>r'. refill_one ops r = Some r' \<and> res_ok r' free busy \<and> same_pool r r' \<and>
    rx_fill (res_vi r') = rx_fill (res_vi r) + 1"
proof -
  have own: "owned r (b # free) busy" and vi: "rxq_ok (res_vi r)" and bok: "bufs_ok r"
    using ok by (simp_all add: res_ok_def)
  obtain r1 where r1: "pkt_buf_take r = Some (b, r1)" "pool r1 free"
    using free_list.pop_ok [of r b free] own by (auto simp: owned_def)
  have b: "b < length (pkt_bufs r)" using own by (auto simp: owned_def)
  note r1_eq = pkt_buf_take_eq [OF r1(1)]
  let ?a = "efvi_addr (pkt_bufs r ! b) + 64" and ?id = "pb_id (pkt_bufs r ! b)"
  have "rx_fill (res_vi r) < length (pkt_bufs r)" using owned_length [OF own] by simp
  then have "0 < ef_vi_receive_space (res_vi r)"
    using ok receive_space [OF vi] receive_fill_level [OF vi] by (simp add: res_ok_def)
  then obtain vi' where vi': "receive_init ops (res_vi r) ?a ?id = (0, vi')"
    "rx_ring vi' = rx_ring (res_vi r) @ [(?a, ?id)]" "rxq_ok vi'" "same_config (res_vi r) vi'"
    using driver_init [OF drv vi] by blast
  define r' where "r' = r1\<lparr>res_vi := vi'\<rparr>"
  have id: "unat ?id = b"
    using bok b res_ok_small [OF ok] by (simp add: bufs_ok_def unat_of_nat)
  have posted: "posted r' = posted r @ [b]" using vi'(2) id by (simp add: posted_def r'_def)
  have "refill_one ops r = Some r'"
    by (simp add: refill_one_def r1 r1_eq vi' r'_def Let_def)
  moreover have "owned r' free busy"
    using own posted r1(2) r1_eq by (auto simp: owned_def r'_def pool_def)
  moreover have "bufs_ok r'" using bok r1_eq by (simp add: bufs_ok_def r'_def)
  moreover have "ring_addrs r'"
    using ok vi'(2) id r1_eq by (auto simp: ring_addrs_def res_ok_def r'_def)
  moreover have "same_pool r r'" using vi'(4) r1_eq by (simp add: same_pool_def r'_def)
  moreover have "rx_fill (res_vi r') = rx_fill (res_vi r) + 1"
    using arg_cong [OF vi'(2), of length] by (simp add: r'_def)
  ultimately show ?thesis
    using ok vi'(3) capacity_config [OF vi'(4)] r1_eq by (auto simp: res_ok_def r'_def)
qed

lemma refill_batch_ok:
  assumes drv: "driver_ok ops"
  shows "res_ok r free busy \<Longrightarrow> k \<le> length free \<Longrightarrow>
    \<exists>r'. refill_batch ops k r = Some r' \<and> res_ok r' (drop k free) busy \<and> same_pool r r' \<and>
      rx_fill (res_vi r') = rx_fill (res_vi r) + k"
proof (induction k arbitrary: r free)
  case (Suc k)
  then obtain b free' where f: "free = b # free'" by (cases free) auto
  obtain r1 where r1: "refill_one ops r = Some r1" "res_ok r1 free' busy" "same_pool r r1"
    "rx_fill (res_vi r1) = rx_fill (res_vi r) + 1"
    using refill_one_ok [OF drv] Suc.prems(1) f by blast
  obtain r2 where "refill_batch ops k r1 = Some r2" "res_ok r2 (drop k free') busy" "same_pool r1 r2"
    "rx_fill (res_vi r2) = rx_fill (res_vi r1) + k"
    using Suc.IH [OF r1(2)] Suc.prems(2) f by auto
  with r1 f show ?case by (auto intro: same_pool_trans)
qed simp

lemma res_ok_free_n: "res_ok r free busy \<Longrightarrow> free_pkt_bufs_n r = int (length free)"
  by (simp add: res_ok_def owned_def pool_def)

lemma refill_loop_ok:
  assumes drv: "driver_ok ops"
  shows "res_ok r free busy \<Longrightarrow> 16 \<le> length free \<Longrightarrow>
    \<exists>r' k. refill_loop ops r = Some r' \<and> res_ok r' (drop k free) busy \<and> same_pool r r' \<and>
      16 \<le> k \<and> k \<le> length free \<and> rx_fill (res_vi r') = rx_fill (res_vi r) + k \<and>
      (refill_min r \<le> int (rx_fill (res_vi r')) \<or> length free < k + 16)"
proof (induction "length free" arbitrary: r free rule: less_induct)
  case less
  obtain r1 where r1: "refill_batch ops 16 r = Some r1" "res_ok r1 (drop 16 free) busy" "same_pool r r1"
    "rx_fill (res_vi r1) = rx_fill (res_vi r) + 16"
    using refill_batch_ok [OF drv less.prems] by blast
  have n: "free_pkt_bufs_n r1 = int (length free - 16)" using res_ok_free_n [OF r1(2)] by simp
  have fl: "ef_vi_receive_fill_level (res_vi r1) = int (rx_fill (res_vi r1))"
    using receive_fill_level r1(2) by (simp add: res_ok_def)
  have rm: "refill_min r1 = refill_min r" using r1(3) by (simp add: same_pool_def)
  show ?case
  proof (cases "ef_vi_receive_fill_level (res_vi r1) < refill_min r1 \<and> 16 \<le> free_pkt_bufs_n r1")
    case True
    then have "16 \<le> length (drop 16 free)" using n by simp
    moreover have "length (drop 16 free) < length free" using less.prems by simp
    ultimately obtain r2 k where r2:
      "refill_loop ops r1 = Some r2" "res_ok r2 (drop k (drop 16 free)) busy" "same_pool r1 r2"
      "16 \<le> k" "k \<le> length (drop 16 free)" "rx_fill (res_vi r2) = rx_fill (res_vi r1) + k"
      "refill_min r1 \<le> int (rx_fill (res_vi r2)) \<or> length (drop 16 free) < k + 16"
      using less.hyps [OF _ r1(2)] by blast
    have "refill_loop ops r = Some r2"
      using True r1(1) r2(1) by (simp add: refill_loop.simps [of ops r])
    moreover have "res_ok r2 (drop (k + 16) free) busy" using r2(2) by simp
    ultimately show ?thesis
      using r1 r2 less.prems same_pool_trans [OF r1(3) r2(3)] rm
      by (intro exI [of _ r2] exI [of _ "k + 16"]) auto
  next
    case False
    then have "refill_loop ops r = Some r1" using r1(1) by (auto simp: refill_loop.simps [of ops r])
    with r1 less.prems n fl rm False show ?thesis by (intro exI [of _ r1] exI [of _ 16]) auto
  qed
qed

lemma refill_rx_ring_ok:
  assumes drv: "driver_ok ops" and ok: "res_ok r free busy"
  shows "\<exists>r' k. refill_rx_ring ops r =
      Some (r', ef_vi_receive_fill_level (res_vi r) \<le> refill_level r \<and> 16 \<le> length free) \<and>
    res_ok r' (drop k free) busy \<and> same_pool r r' \<and> k \<le> length free \<and>
    rx_fill (res_vi r') = rx_fill (res_vi r) + k \<and>
    (if ef_vi_receive_fill_level (res_vi r) \<le> refill_level r \<and> 16 \<le> length free then 16 \<le> k else k = 0) \<and>
    (refill_level r < int (rx_fill (res_vi r')) \<or> refill_min r \<le> int (rx_fill (res_vi r')) \<or>
     length free < k + 16)"
proof (cases "ef_vi_receive_fill_level (res_vi r) \<le> refill_level r \<and> 16 \<le> length free")
  case True
  obtain r1 k where r1: "refill_loop ops r = Some r1" "res_ok r1 (drop k free) busy" "same_pool r r1"
    "16 \<le> k" "k \<le> length free" "rx_fill (res_vi r1) = rx_fill (res_vi r) + k"
    "refill_min r \<le> int (rx_fill (res_vi r1)) \<or> length free < k + 16"
    using refill_loop_ok [OF drv ok] True by blast
  define r' where "r' = r1\<lparr>res_vi := receive_push ops (res_vi r1)\<rparr>"
  have push: "rx_ring (res_vi r') = rx_ring (res_vi r1)" "rxq_ok (res_vi r')"
    "same_config (res_vi r1) (res_vi r')"
    using driver_push [OF drv, of "res_vi r1"] r1(2) by (simp_all add: r'_def res_ok_def)
  have "refill_rx_ring ops r = Some (r', True)"
    using True r1(1) res_ok_free_n [OF ok] by (simp add: refill_rx_ring_def r'_def)
  moreover have "res_ok r' (drop k free) busy"
    using r1(2) push capacity_config [OF push(3)]
    by (simp add: res_ok_def bufs_ok_def owned_def pool_def posted_def ring_addrs_def r'_def)
  moreover have "same_pool r r'"
    using r1(3) push(3) by (simp add: same_pool_def same_config_def r'_def)
  moreover have "rx_fill (res_vi r') = rx_fill (res_vi r1)"
    using arg_cong [OF push(1), of length] by simp
  ultimately show ?thesis using True r1 by (intro exI [of _ r'] exI [of _ k]) auto
next
  case False
  then have "refill_rx_ring ops r = Some (r, False)"
    using res_ok_free_n [OF ok] by (auto simp: refill_rx_ring_def)
  moreover have "ef_vi_receive_fill_level (res_vi r) = int (rx_fill (res_vi r))"
    using receive_fill_level ok by (simp add: res_ok_def)
  ultimately show ?thesis using False ok by (intro exI [of _ r] exI [of _ 0]) auto
qed

text \<open>The filling loop of \<open>init\<close> ends, with fewer than a batch of buffers left over.\<close>

lemma fill_rx_ring_ok:
  assumes drv: "driver_ok ops"
  shows "res_ok r free [] \<Longrightarrow> refill_level r = int (length (pkt_bufs r)) - 16 \<Longrightarrow>
    \<exists>r' k. fill_rx_ring ops r = Some r' \<and> res_ok r' (drop k free) [] \<and> same_pool r r' \<and>
      length (drop k free) < 16"
proof (induction "length free" arbitrary: r free rule: less_induct)
  case less
  have own: "owned r free []" and vi: "rxq_ok (res_vi r)" using less.prems by (simp_all add: res_ok_def)
  note len = owned_length [OF own] and fl = receive_fill_level [OF vi]
  show ?case
  proof (cases "ef_vi_receive_fill_level (res_vi r) \<le> refill_level r")
    case True
    have "16 \<le> length free" using True len fl less.prems(2) by simp
    then obtain r1 k where r1: "refill_rx_ring ops r = Some (r1, True)" "res_ok r1 (drop k free) []"
      "same_pool r r1" "16 \<le> k" "k \<le> length free"
      using refill_rx_ring_ok [OF drv less.prems(1)] True by auto
    have "refill_level r1 = int (length (pkt_bufs r1)) - 16" "length (drop k free) < length free"
      using r1 less.prems(2) by (simp_all add: same_pool_def)
    then obtain r2 j where r2: "fill_rx_ring ops r1 = Some r2" "res_ok r2 (drop j (drop k free)) []"
      "same_pool r1 r2" "length (drop j (drop k free)) < 16"
      using less.hyps [OF _ r1(2)] by blast
    have "fill_rx_ring ops r = Some r2"
      using True r1(1) r2(1) by (simp add: fill_rx_ring.simps [of ops r])
    with r2 same_pool_trans [OF r1(3) r2(3)] show ?thesis
      by (intro exI [of _ r2] exI [of _ "j + k"]) simp
  next
    case False
    then have "fill_rx_ring ops r = Some r" by (simp add: fill_rx_ring.simps)
    moreover have "length free < 16" using False len fl less.prems(2) by simp
    ultimately show ?thesis using less.prems by (intro exI [of _ r] exI [of _ 0]) simp
  qed
qed

section \<open>Handling events\<close>

definition same_headers :: "pkt_buf list \<Rightarrow> pkt_buf list \<Rightarrow> bool" where
  "same_headers bs bs' \<longleftrightarrow> length bs' = length bs \<and>
     (\<forall>i<length bs. efvi_addr (bs' ! i) = efvi_addr (bs ! i) \<and> rx_ptr (bs' ! i) = rx_ptr (bs ! i) \<and>
        pb_id (bs' ! i) = pb_id (bs ! i) \<and> pb_next (bs' ! i) = pb_next (bs ! i) \<and>
        length (pb_mem (bs' ! i)) = length (pb_mem (bs ! i)))"

lemma same_headers_trans: "same_headers a b \<Longrightarrow> same_headers b c \<Longrightarrow> same_headers a c"
  by (simp add: same_headers_def)

lemma dma_write_headers: "same_headers bs (dma_write w bs)"
  by (auto simp: same_headers_def dma_write_def)

lemma same_headers_refl [simp]: "same_headers bs bs"
  by (simp add: same_headers_def)

lemma dma_writes_headers: "same_headers bs (fold dma_write ws bs)"
  by (induction ws arbitrary: bs) (auto intro: same_headers_trans dma_write_headers)

lemma same_headers_inj:
  assumes "same_headers bs bs'"
  shows "inj_on (\<lambda>i. efvi_addr (bs' ! i)) {..<length bs'} = inj_on (\<lambda>i. efvi_addr (bs ! i)) {..<length bs}"
  using assms by (simp add: same_headers_def inj_on_def)

lemma posted_valid: "owned r free busy \<Longrightarrow> (a, rid) \<in> set (rx_ring (res_vi r)) \<Longrightarrow> unat rid < length (pkt_bufs r)"
  by (force simp: owned_def posted_def)

lemma res_ok_bufs:
  assumes ok: "res_ok r free busy" and hd: "same_headers (pkt_bufs r) bs"
  shows "res_ok (r\<lparr>pkt_bufs := bs\<rparr>) free busy"
proof -
  let ?r = "r\<lparr>pkt_bufs := bs\<rparr>"
  have len: "length bs = length (pkt_bufs r)" using hd by (simp add: same_headers_def)
  have own: "owned r free busy" using ok by (simp add: res_ok_def)
  have "chain (\<lambda>i. pb_next (bs ! i)) p free = chain (\<lambda>i. pb_next (pkt_bufs r ! i)) p free" for p
    by (rule chain_cong) (use own hd in \<open>auto simp: owned_def pool_def same_headers_def\<close>)
  then have "owned ?r free busy" using own len by (simp add: owned_def pool_def posted_def)
  moreover have "bufs_ok ?r"
    using ok hd same_headers_inj [OF hd] by (simp add: res_ok_def bufs_ok_def same_headers_def)
  moreover have "ring_addrs ?r"
    using ok hd posted_valid [OF own] by (fastforce simp: res_ok_def ring_addrs_def same_headers_def)
  ultimately show ?thesis using ok len by (simp add: res_ok_def)
qed

text \<open>A poll moves the buffers of its events from the ring into the program's hands.\<close>

lemma poll_moves_buffers:
  assumes ok: "res_ok r free []" and poll: "poll_ok (res_vi r) n (evs, vi, dma)"
  shows "res_ok (r\<lparr>res_vi := vi, pkt_bufs := fold dma_write dma (pkt_bufs r)\<rparr>) free
    (map (unat \<circ> EF_EVENT_RX_RQ_ID) (filter completes evs))"
proof -
  define ids where "ids = map EF_EVENT_RX_RQ_ID (filter completes evs)"
  have p: "rxq_ok vi" "same_config (res_vi r) vi" "length ids \<le> rx_fill (res_vi r)"
    "ids = map snd (take (length ids) (rx_ring (res_vi r)))" "rx_ring vi = drop (length ids) (rx_ring (res_vi r))"
    using poll by (simp_all add: poll_ok_def Let_def ids_def)
  let ?r = "r\<lparr>res_vi := vi\<rparr>"
  have "map unat ids @ posted ?r = posted r"
  proof -
    have "map unat ids = map (unat \<circ> snd) (take (length ids) (rx_ring (res_vi r)))"
      by (subst p(4)) simp
    moreover have "posted ?r = map (unat \<circ> snd) (drop (length ids) (rx_ring (res_vi r)))"
      by (simp add: posted_def p(5))
    ultimately show ?thesis by (simp add: posted_def flip: map_append)
  qed
  moreover have "owned r free []" using ok by (simp add: res_ok_def)
  ultimately have "owned ?r free (map unat ids)" by (simp add: owned_def pool_def)
  moreover have "ring_addrs ?r"
    using ok p(5) by (auto simp: res_ok_def ring_addrs_def dest: in_set_dropD)
  ultimately have "res_ok ?r free (map unat ids)"
    using ok p(1) capacity_config [OF p(2)] by (simp add: res_ok_def bufs_ok_def)
  from res_ok_bufs [OF this, of "fold dma_write dma (pkt_bufs r)"] dma_writes_headers
  show ?thesis by (simp add: ids_def)
qed

interpretation efvi_fmt: report_format "efvi_best_line i" "efvi_deep_line i" for i
  by unfold_locales
    (auto elim!: terminated_parts simp: efvi_best_line_def efvi_deep_line_def)

lemma efvi_accepts_total: "p + 28 \<le> length mem \<Longrightarrow> \<exists>b. efvi_accepts mem p len = Some b"
  using load16_total [of "p + 6" mem] load32_total [of "p + 24" mem] by (auto simp: efvi_accepts_def)

lemma handle_pkt_total:
  assumes "handler_ok h" "6 \<le> p" "p + 32 \<le> length mem"
  shows "\<exists>prev' mem' out. handle_pkt h prev mem p len = Some (prev', mem', out) \<and>
    length mem' = length mem"
proof -
  obtain b where b: "efvi_accepts mem p len = Some b" using efvi_accepts_total [of p mem] assms by auto
  let ?st = "\<lparr>rx_buf = drop (p - 6) mem, rx_prev_ip_id = prev\<rparr>"
  have "38 \<le> length (rx_buf ?st)" using assms by simp
  then obtain st out where "report_frame efvi_best_line efvi_deep_line h ?st (len - 36) = Some (st, out)"
    "length (rx_buf st) = length (drop (p - 6) mem)"
    using report_frame_total [where best_line = efvi_best_line and deep_line = efvi_deep_line,
        OF efvi_fmt.report_format_axioms assms(1), of ?st "len - 36"] by auto
  with b assms show ?thesis by (auto simp: handle_pkt_def)
qed

lemma pkt_buf_free_fields:
  assumes "b < length (pkt_bufs r)" "i < length (pkt_bufs r)"
  shows "efvi_addr (pkt_bufs (pkt_buf_free b r) ! i) = efvi_addr (pkt_bufs r ! i)"
    "rx_ptr (pkt_bufs (pkt_buf_free b r) ! i) = rx_ptr (pkt_bufs r ! i)"
    "pb_id (pkt_bufs (pkt_buf_free b r) ! i) = pb_id (pkt_bufs r ! i)"
    "pb_mem (pkt_bufs (pkt_buf_free b r) ! i) = pb_mem (pkt_bufs r ! i)"
  using assms by (simp_all add: pkt_buf_free_def nth_list_update)

lemma pkt_buf_free_other [simp]:
  "length (pkt_bufs (pkt_buf_free b r)) = length (pkt_bufs r)"
  "res_vi (pkt_buf_free b r) = res_vi r" "pkt_bufs_n (pkt_buf_free b r) = pkt_bufs_n r"
  "rx_prefix_len (pkt_buf_free b r) = rx_prefix_len r" "refill_level (pkt_buf_free b r) = refill_level r"
  "refill_min (pkt_buf_free b r) = refill_min r" "n_rx_pkts (pkt_buf_free b r) = n_rx_pkts r"
  "n_rx_bytes (pkt_buf_free b r) = n_rx_bytes r"
  by (simp_all add: pkt_buf_free_def)

lemma give_back:
  assumes ok: "res_ok r free (b # busy)"
  shows "res_ok (pkt_buf_free b r) (b # free) busy"
proof -
  have own: "owned r free (b # busy)" using ok by (simp add: res_ok_def)
  then have b: "b < length (pkt_bufs r)" "b \<notin> set free" by (auto simp: owned_def)
  have "pool (pkt_buf_free b r) (b # free)"
    using free_list.push_ok [of r free b] own b by (simp add: owned_def)
  moreover have "posted (pkt_buf_free b r) = posted r" by (simp add: posted_def)
  ultimately have "owned (pkt_buf_free b r) (b # free) busy"
    using own by (auto simp: owned_def)
  moreover have "bufs_ok (pkt_buf_free b r)"
    using ok b(1) by (simp add: res_ok_def bufs_ok_def pkt_buf_free_fields inj_on_def)
  moreover have "ring_addrs (pkt_buf_free b r)"
    using ok posted_valid [OF own] b(1)
    by (fastforce simp: res_ok_def ring_addrs_def pkt_buf_free_fields)
  ultimately show ?thesis using ok by (simp add: res_ok_def)
qed

lemma pkt_buf_from_id_ok:
  assumes ok: "res_ok r free busy" and b: "unat rid < length (pkt_bufs r)"
  shows "pkt_buf_from_id r rid = Some (unat rid)"
proof -
  have "pkt_bufs_n r = int (length (pkt_bufs r))" using ok by (simp add: res_ok_def bufs_ok_def)
  moreover have "unat (of_nat (length (pkt_bufs r)) :: u32) = length (pkt_bufs r)"
    using res_ok_small [OF ok] by (simp add: unat_of_nat)
  ultimately show ?thesis using b by (simp add: pkt_buf_from_id_def word_less_nat_alt)
qed

lemma res_ok_buffer:
  assumes "res_ok r free busy" "b < length (pkt_bufs r)"
  shows "rx_ptr (pkt_bufs r ! b) = 64 + nat (rx_prefix_len r)" "nat (rx_prefix_len r) \<le> 1792"
    "length (pb_mem (pkt_bufs r ! b)) = 2048"
  using assms by (auto simp: res_ok_def bufs_ok_def)

text \<open>The fields of the client and its resources an event does not touch.\<close>

definition same_setup :: "mc_client_efvi \<Rightarrow> mc_client_efvi \<Rightarrow> bool" where
  "same_setup c c' \<longleftrightarrow> stop c' = stop c \<and> refill_level (res c') = refill_level (res c) \<and>
     refill_min (res c') = refill_min (res c) \<and> rx_prefix_len (res c') = rx_prefix_len (res c) \<and>
     length (pkt_bufs (res c')) = length (pkt_bufs (res c)) \<and> res_vi (res c') = res_vi (res c)"

lemma handle_rx_core_ok:
  assumes h: "handler_ok h" and ok: "res_ok (res c) free busy" and b: "b < length (pkt_bufs (res c))"
  shows "\<exists>c' out. handle_rx_core h c b len = Some (c', out) \<and> res_ok (res c') free busy \<and>
    same_setup c c' \<and> n_rx_pkts (res c') = n_rx_pkts (res c) + 1 \<and>
    n_rx_bytes (res c') = n_rx_bytes (res c) + of_int len"
proof -
  let ?pb = "pkt_bufs (res c) ! b"
  note f = res_ok_buffer [OF ok b]
  obtain prev' mem' out where hp: "handle_pkt h (prev_ip_id c) (pb_mem ?pb) (rx_ptr ?pb) len =
      Some (prev', mem', out)" "length mem' = length (pb_mem ?pb)"
    using handle_pkt_total [OF h, of "rx_ptr ?pb" "pb_mem ?pb" "prev_ip_id c" len] f by auto
  let ?bs = "(pkt_bufs (res c))[b := ?pb\<lparr>pb_mem := mem'\<rparr>]"
  have "same_headers (pkt_bufs (res c)) ?bs"
    using b hp(2) by (auto simp: same_headers_def nth_list_update)
  from res_ok_bufs [OF ok this] have "res_ok ((res c)\<lparr>pkt_bufs := ?bs,
      n_rx_pkts := n_rx_pkts (res c) + 1, n_rx_bytes := n_rx_bytes (res c) + of_int len\<rparr>) free busy"
    by (simp add: res_ok_def bufs_ok_def owned_def pool_def posted_def ring_addrs_def)
  with hp b show ?thesis by (auto simp: handle_rx_core_def Let_def same_setup_def)
qed

lemma discard_rq_id: "EF_EVENT_RX_DISCARD_RQ_ID e = EF_EVENT_RX_RQ_ID e"
  by (simp add: EF_EVENT_RX_DISCARD_RQ_ID_def EF_EVENT_RX_RQ_ID_def ev_get_def bit_place_def)

lemma handle_event_completes:
  assumes h: "handler_ok h" and ev: "completes e"
    and ok: "res_ok (res c) free (unat (EF_EVENT_RX_RQ_ID e) # busy)"
  shows "\<exists>c' out fl. handle_event h c e = Some (c', out, fl) \<and> (fl = Continue \<or> fl = Abort) \<and>
    same_setup c c' \<and>
    (fl = Continue \<longrightarrow> res_ok (res c') (unat (EF_EVENT_RX_RQ_ID e) # free) busy)"
proof -
  let ?b = "unat (EF_EVENT_RX_RQ_ID e)"
  have b: "?b < length (pkt_bufs (res c))" using ok by (auto simp: res_ok_def owned_def)
  note id = pkt_buf_from_id_ok [OF ok b]
  show ?thesis
  proof (cases "EF_EVENT_TYPE e = event_type_code EF_EVENT_TYPE_RX")
    case True
    let ?len = "int (unat (EF_EVENT_RX_BYTES e)) - rx_prefix_len (res c)"
    obtain c' out where c': "handle_rx_core h c ?b ?len = Some (c', out)"
      "res_ok (res c') free (?b # busy)" "same_setup c c'"
      using handle_rx_core_ok [OF h ok b, of ?len] by blast
    have "handle_rx h c (EF_EVENT_RX_RQ_ID e) ?len =
        Some (c'\<lparr>res := pkt_buf_free ?b (res c')\<rparr>, out, Continue)"
      using c'(1) by (simp add: handle_rx_def id)
    with True give_back [OF c'(2)] c'(3) show ?thesis
      by (cases "EF_EVENT_RX_SOP e \<and> \<not> EF_EVENT_RX_CONT e")
        (auto simp: handle_event_def same_setup_def)
  next
    case False
    then have "EF_EVENT_TYPE e = 2" using ev by (simp add: completes_def)
    then show ?thesis
      using give_back [OF ok] id b
      by (simp add: handle_event_def handle_rx_discard_def discard_rq_id same_setup_def Let_def)
  qed
qed

lemma handle_event_other:
  assumes "\<not> completes e"
  shows "\<exists>out. handle_event h c e = Some (c, out, Continue)"
  using assms by (simp add: handle_event_def completes_def)

lemma same_setup_trans: "same_setup a b \<Longrightarrow> same_setup b c \<Longrightarrow> same_setup a c"
  by (simp add: same_setup_def)

lemma same_setup_refl [simp]: "same_setup c c"
  by (simp add: same_setup_def)

lemma handle_events_ok:
  assumes h: "handler_ok h"
  shows "res_ok (res c) free (map (unat \<circ> EF_EVENT_RX_RQ_ID) (filter completes evs)) \<Longrightarrow>
    \<exists>c' out fl. run_loop (handle_event h) c evs = Some (c', out, fl) \<and> (fl = Continue \<or> fl = Abort) \<and>
      same_setup c c' \<and>
      (fl = Continue \<longrightarrow> (\<exists>free'. res_ok (res c') free' []))"
proof (induction evs arbitrary: c free)
  case Nil
  then show ?case by auto
next
  case (Cons e evs)
  show ?case
  proof (cases "completes e")
    case True
    have pre: "res_ok (res c) free (unat (EF_EVENT_RX_RQ_ID e) #
        map (unat \<circ> EF_EVENT_RX_RQ_ID) (filter completes evs))"
      using Cons.prems True by (simp add: comp_def)
    obtain c1 out fl where c1: "handle_event h c e = Some (c1, out, fl)" "fl = Continue \<or> fl = Abort"
      "same_setup c c1"
      "fl = Continue \<longrightarrow> res_ok (res c1) (unat (EF_EVENT_RX_RQ_ID e) # free)
         (map (unat \<circ> EF_EVENT_RX_RQ_ID) (filter completes evs))"
      using handle_event_completes [OF h True pre] by blast
    show ?thesis
    proof (cases "fl = Continue")
      case go: True
      with c1 Cons.IH [of c1 "unat (EF_EVENT_RX_RQ_ID e) # free"] obtain c2 out2 fl2 where c2:
        "run_loop (handle_event h) c1 evs = Some (c2, out2, fl2)" "fl2 = Continue \<or> fl2 = Abort"
        "same_setup c1 c2" "fl2 = Continue \<longrightarrow> (\<exists>free'. res_ok (res c2) free' [])" by blast
      have "run_loop (handle_event h) c (e # evs) = Some (c2, out @ out2, fl2)"
        using go c1(1) c2(1) by simp
      with c2 same_setup_trans [OF c1(3) c2(3)] show ?thesis by blast
    qed (use c1 in auto)
  next
    case False
    obtain out where o: "handle_event h c e = Some (c, out, Continue)"
      using handle_event_other [OF False] by blast
    obtain c2 out2 fl2 where c2: "run_loop (handle_event h) c evs = Some (c2, out2, fl2)"
      "fl2 = Continue \<or> fl2 = Abort" "same_setup c c2"
      "fl2 = Continue \<longrightarrow> (\<exists>free'. res_ok (res c2) free' [])"
      using Cons.IH [of c free] Cons.prems False by auto
    have "run_loop (handle_event h) c (e # evs) = Some (c2, out @ out2, fl2)" using o c2(1) by simp
    with c2 show ?thesis by blast
  qed
qed

section \<open>The event loop\<close>

definition client_ok :: "mc_client_efvi \<Rightarrow> bool" where
  "client_ok c \<longleftrightarrow> (\<exists>free. res_ok (res c) free []) \<and>
     refill_level (res c) = int (length (pkt_bufs (res c))) - 16 \<and>
     refill_min (res c) = int (length (pkt_bufs (res c))) div 2"

lemma driver_poll:
  assumes "driver_ok ops" "rxq_ok vi"
  shows "poll_ok vi 16 (eventq_poll ops w vi 16)"
  by (rule driver_ok_def [THEN iffD1, OF assms(1), THEN conjunct2, THEN conjunct2, rule_format, OF assms(2)]) simp

lemma poll_evq_ok:
  assumes drv: "driver_ok ops" and h: "handler_ok h" and ok: "res_ok (res c) free []"
  shows "\<exists>c' out fl. poll_evq ops h c w = Some (c', out, fl) \<and> (fl = Continue \<or> fl = Abort) \<and>
    (fl = Continue \<longrightarrow> (\<exists>free'. res_ok (res c') free' [])) \<and> stop c' = stop c \<and>
    refill_level (res c') = refill_level (res c) \<and> refill_min (res c') = refill_min (res c) \<and>
    length (pkt_bufs (res c')) = length (pkt_bufs (res c))"
proof -
  obtain evs vi dma where e: "eventq_poll ops w (res_vi (res c)) 16 = (evs, vi, dma)" by (metis prod_cases3)
  have "rxq_ok (res_vi (res c))" using ok by (simp add: res_ok_def)
  from driver_poll [OF drv this, of w] have p: "poll_ok (res_vi (res c)) 16 (evs, vi, dma)" by (simp add: e)
  let ?bs = "fold dma_write dma (pkt_bufs (res c))"
  let ?c = "c\<lparr>res := (res c)\<lparr>res_vi := vi, pkt_bufs := ?bs\<rparr>\<rparr>"
  have "res_ok (res ?c) free (map (unat \<circ> EF_EVENT_RX_RQ_ID) (filter completes evs))"
    using poll_moves_buffers [OF ok p] by simp
  from handle_events_ok [OF h this] obtain c' out fl where
    "run_loop (handle_event h) ?c evs = Some (c', out, fl)" "fl = Continue \<or> fl = Abort"
    "same_setup ?c c'" "fl = Continue \<longrightarrow> (\<exists>free'. res_ok (res c') free' [])" by blast
  moreover have "length ?bs = length (pkt_bufs (res c))"
    using dma_writes_headers [of "pkt_bufs (res c)" dma] by (simp add: same_headers_def)
  ultimately show ?thesis by (auto simp: poll_evq_def e same_setup_def)
qed

lemma efvi_step_ok:
  assumes drv: "driver_ok ops" and h: "handler_ok h" and ok: "client_ok c"
  shows "\<exists>c' out fl. efvi_step (ops, h) c w = Some (c', out, fl) \<and> (fl = Continue \<or> fl = Abort) \<and>
    (fl = Continue \<longrightarrow> client_ok c') \<and> stop c' = stop c \<and>
    length (pkt_bufs (res c')) = length (pkt_bufs (res c))"
proof -
  obtain free where free: "res_ok (res c) free []" using ok by (auto simp: client_ok_def)
  obtain r b k where r: "refill_rx_ring ops (res c) = Some (r, b)" "res_ok r (drop k free) []"
    "same_pool (res c) r"
    using refill_rx_ring_ok [OF drv free] by blast
  let ?c = "c\<lparr>res := r\<rparr>"
  have "res_ok (res ?c) (drop k free) []" using r(2) by simp
  from poll_evq_ok [OF drv h this, of w] obtain c' out fl where
    "poll_evq ops h ?c w = Some (c', out, fl)" "fl = Continue \<or> fl = Abort"
    "fl = Continue \<longrightarrow> (\<exists>free'. res_ok (res c') free' [])" "stop c' = stop c"
    "refill_level (res c') = refill_level r" "refill_min (res c') = refill_min r" "length (pkt_bufs (res c')) = length (pkt_bufs r)" by auto
  with r ok show ?thesis by (auto simp: efvi_step_def client_ok_def same_pool_def)
qed

interpretation efvi_run: rx_loop efvi_step "\<lambda>(ops, h). driver_ok ops \<and> handler_ok h" client_ok
  by unfold_locales (use efvi_step_ok in \<open>fastforce split: prod.splits\<close>)

section \<open>Set-up\<close>

definition fresh_pool :: "(nat \<Rightarrow> byte list) \<Rightarrow> nat \<Rightarrow> nat \<Rightarrow> resources \<Rightarrow> bool" where
  "fresh_pool memory n k r \<longleftrightarrow> length (pkt_bufs r) = n \<and> pool r (rev [0..<k]) \<and>
     (\<forall>i<k. pb_id (pkt_bufs r ! i) = of_nat i \<and> rx_ptr (pkt_bufs r ! i) = 64 + nat (rx_prefix_len r)) \<and>
     (\<forall>i<n. pb_mem (pkt_bufs r ! i) = memory i)"

lemma init_buf_step:
  assumes "fresh_pool memory n k r" "k < n"
  shows "fresh_pool memory n (Suc k) (init_buf k r)"
proof -
  let ?r = "r\<lparr>pkt_bufs := (pkt_bufs r)[k := (pkt_bufs r ! k)\<lparr>rx_ptr := RX_DMA_OFF + nat (rx_prefix_len r),
      pb_id := of_nat k\<rparr>]\<rparr>"
  have k: "k < length (pkt_bufs r)" using assms by (simp add: fresh_pool_def)
  have "chain (\<lambda>i. pb_next (pkt_bufs ?r ! i)) p (rev [0..<k]) =
      chain (\<lambda>i. pb_next (pkt_bufs r ! i)) p (rev [0..<k])" for p
    by (rule chain_cong) (auto simp: nth_list_update)
  then have "pool ?r (rev [0..<k])" using assms(1) k by (auto simp: fresh_pool_def pool_def)
  then have "pool (init_buf k r) (k # rev [0..<k])"
    unfolding init_buf_def by (rule free_list.push_ok) (use k in auto)
  then show ?thesis
    using assms k
    by (auto simp: fresh_pool_def init_buf_def pkt_buf_free_def nth_list_update less_Suc_eq)
qed

lemma init_bufs_fold:
  assumes "fresh_pool memory n 0 r" "k \<le> n"
  shows "fresh_pool memory n k (fold init_buf [0..<k] r)"
  using assms(2)
proof (induction k)
  case (Suc k)
  then show ?case using init_buf_step [of memory n k] by simp
qed (use assms in simp)

lemma init_buf_other [simp]:
  "res_vi (init_buf i r) = res_vi r" "rx_prefix_len (init_buf i r) = rx_prefix_len r"
  "pkt_bufs_n (init_buf i r) = pkt_bufs_n r"
  by (simp_all add: init_buf_def)

lemma fold_init_other [simp]:
  "res_vi (fold init_buf xs r) = res_vi r" "rx_prefix_len (fold init_buf xs r) = rx_prefix_len r"
  "pkt_bufs_n (fold init_buf xs r) = pkt_bufs_n r"
  by (induction xs arbitrary: r) simp_all

lemma length_block: "(i + 1) * 2048 \<le> length memory \<Longrightarrow> length (block memory i) = 2048"
  by (simp add: block_def)

lemma init_pool_fresh:
  assumes "free_pkt_bufs r = None" "free_pkt_bufs_n r = 0" "pkt_bufs_n r = int n" "n * 2048 \<le> length memory"
  shows "\<exists>r'. init_pool memory r = Some r' \<and> fresh_pool (block memory) n n r' \<and> res_vi r' = res_vi r \<and>
    rx_prefix_len r' = rx_prefix_len r \<and> pkt_bufs_n r' = pkt_bufs_n r"
proof -
  obtain bufs where bufs: "raw_bufs memory n = Some bufs" using assms(4) by (simp add: raw_bufs_def)
  have "fresh_pool (block memory) n 0 (r\<lparr>pkt_bufs := bufs\<rparr>)"
    using assms bufs by (auto simp: fresh_pool_def pool_def raw_bufs_def)
  from init_bufs_fold [OF this order.refl] show ?thesis using assms(3) bufs by (simp add: init_pool_def Let_def)
qed

lemma dma_addr_total:
  assumes "k * 2048 < 4096 * length pages" "k < 2 ^ 30"
  shows "\<exists>a. ef_memreg_dma_addr pages (of_nat (k * 2048)) = Some a"
proof -
  have "unat (of_nat (k * 2048) :: u64) = k * 2048 mod 2 ^ 64" by (simp only: unat_of_nat) simp
  then have "unat (of_nat (k * 2048) :: u64) = k * 2048" using assms(2) by simp
  then have "unat (drop_bit 12 (of_nat (k * 2048) :: u64)) = k * 2048 div 4096"
    by (simp only: unsigned_drop_bit_eq) (use assms(2) in \<open>simp add: drop_bit_eq_div take_bit_eq_mod\<close>)
  moreover have "k * 2048 div 4096 < length pages" using assms(1) by (simp add: div_less_iff_less_mult)
  ultimately show ?thesis by (simp add: ef_memreg_dma_addr_def Let_def)
qed

lemma set_addrs_ok:
  assumes "length pages * 4096 \<ge> (i + length pbs) * 2048" "i + length pbs \<le> 2 ^ 20"
  shows "\<exists>bs. set_addrs pages i pbs = Some bs \<and> length bs = length pbs \<and>
    (\<forall>j<length pbs. \<exists>a. ef_memreg_dma_addr pages (of_nat ((i + j) * 2048)) = Some a \<and>
       bs ! j = (pbs ! j)\<lparr>efvi_addr := a\<rparr>)"
  using assms
proof (induction pbs arbitrary: i)
  case (Cons pb pbs)
  obtain a where a: "ef_memreg_dma_addr pages (of_nat (i * 2048)) = Some a"
    using dma_addr_total [of i pages] Cons.prems by auto
  have "int i * 2048 < 2 ^ 31" using Cons.prems(2) by simp
  then have c: "c_int (int i * 2048) = Some (int (i * 2048))" by (simp add: c_int_def)
  obtain bs where bs: "set_addrs pages (Suc i) pbs = Some bs" "length bs = length pbs"
    "\<forall>j<length pbs. \<exists>a. ef_memreg_dma_addr pages (of_nat ((Suc i + j) * 2048)) = Some a \<and>
       bs ! j = (pbs ! j)\<lparr>efvi_addr := a\<rparr>"
    using Cons.IH [of "Suc i"] Cons.prems by auto
  have "\<exists>a'. ef_memreg_dma_addr pages (of_nat ((i + j) * 2048)) = Some a' \<and>
      (pb\<lparr>efvi_addr := a\<rparr> # bs) ! j = ((pb # pbs) ! j)\<lparr>efvi_addr := a'\<rparr>" if "j < length (pb # pbs)" for j
    using that bs(3) a by (cases j) auto
  with a bs(1,2) c show ?case by simp
qed simp

end
