(* ===== verification/McSetup.thy ===== *)
theory McSetup
  imports McInvariant
begin

text \<open>
  The set-up of the ef_vi client (\<open>init\<close> in \<open>EF_VI/mc_client_efvi.cpp\<close>) establishes the
  ownership invariant of \<open>McInvariant\<close>, and every state the event loop reaches from it keeps the
  invariant.  The two ways in which the set-up is undefined are exactly described: the size of
  the pool may exceed an \<open>int\<close>, and the result of \<open>localtime\<close> is not checked.
\<close>

section \<open>What successful calls provide\<close>

definition vi_fresh :: "ef_vi \<Rightarrow> bool" where
  "vi_fresh vi \<longleftrightarrow> rxq_ok vi \<and> rx_ring vi = [] \<and> 15 \<le> ef_vi_receive_capacity vi \<and>
     0 \<le> ef_vi_receive_prefix_len vi \<and> ef_vi_receive_prefix_len vi \<le> 1792"

text \<open>
  The documented results of the calls: a successful allocation gives an empty interface, new
  memory has the requested size, and registered memory has an address for each of its pages.
\<close>

definition env_ok :: "'fs init_env \<Rightarrow> bool" where
  "env_ok env \<longleftrightarrow>
     (0 \<le> fst (ie_vi_alloc env) \<longrightarrow> vi_fresh (snd (ie_vi_alloc env))) \<and>
     (\<forall>n. length (ie_memory env n) = unat n) \<and>
     (\<forall>n. 0 \<le> fst (ie_memreg_alloc env n) \<longrightarrow>
        pages_ok (snd (ie_memreg_alloc env n)) \<and> unat n \<le> 4096 * length (snd (ie_memreg_alloc env n)))"

definition sniff_ok :: "'fs init_env \<Rightarrow> bool" where
  "sniff_ok env =
     (let ops = ie_filter_ops env; (rc, fs) = fs_set_port_sniff ops 1 (fs_init ops EF_FILTER_FLAG_NONE)
      in 0 \<le> rc \<and> 0 \<le> ie_filter_add env fs)"

text \<open>The calls up to the allocation of the interface, whose ring decides the size of the pool.\<close>

definition opened :: "'fs init_env \<Rightarrow> string \<Rightarrow> bool" where
  "opened env name \<longleftrightarrow>
     ie_calloc env \<and> 0 \<le> ie_driver_open env \<and> 0 \<le> ie_pd_alloc env name \<and> 0 \<le> fst (ie_vi_alloc env)"

definition pool_bytes :: "'fs init_env \<Rightarrow> int" where
  "pool_bytes env = (ef_vi_receive_capacity (snd (ie_vi_alloc env)) - 15) * int PKT_BUF_SIZE"

definition alloc_bytes :: "'fs init_env \<Rightarrow> u64" where
  "alloc_bytes env = ROUND_UP (of_int (pool_bytes env)) huge_page_size"

text \<open>Every call of \<open>init\<close> that it checks succeeds.\<close>

definition calls_ok :: "'fs init_env \<Rightarrow> string \<Rightarrow> bool" where
  "calls_ok env name \<longleftrightarrow> opened env name \<and>
     (ie_mmap env (alloc_bytes env) \<or> ie_memalign env (alloc_bytes env) = 0) \<and>
     0 \<le> fst (ie_memreg_alloc env (alloc_bytes env)) \<and> sniff_ok env"

text \<open>\<open>localtime\<close> returns a null pointer, or a year that leaves the range of \<open>int\<close> when 1900 is added.\<close>

definition no_time :: "'fs init_env \<Rightarrow> bool" where
  "no_time env \<longleftrightarrow> (case ie_localtime env of None \<Rightarrow> True | Some tm \<Rightarrow> c_int (fst tm + 1900) = None)"

text \<open>The size of the pool exceeds an \<open>int\<close>, or everything succeeds but the time.\<close>

definition init_undefined :: "'fs init_env \<Rightarrow> string \<Rightarrow> bool" where
  "init_undefined env name \<longleftrightarrow>
     opened env name \<and> 2 ^ 31 \<le> pool_bytes env \<or> calls_ok env name \<and> no_time env"

section \<open>The pool after the first two loops\<close>

lemma dma_block_inj:
  assumes "pages_ok pages" "i < 2 ^ 30" "j < 2 ^ 30"
    and "ef_memreg_dma_addr pages (of_nat (i * 2048)) = Some a"
    and "ef_memreg_dma_addr pages (of_nat (j * 2048)) = Some a"
  shows "i = j"
proof -
  have "(of_nat (i * 2048) :: u64) = of_nat (j * 2048)" using dma_addr_inj [OF assms(1,4,5)] .
  then have "unat (of_nat (i * 2048) :: u64) = unat (of_nat (j * 2048) :: u64)" by simp
  then have "i * 2048 mod 2 ^ 64 = j * 2048 mod 2 ^ 64" by (simp only: unat_of_nat) simp
  then show ?thesis using assms(2,3) by simp
qed

lemma pool_ready:
  assumes fresh: "vi_fresh (res_vi r)" and n: "int (length (pkt_bufs r)) \<le> ef_vi_receive_capacity (res_vi r)"
    and r: "fresh_pool memory n n r" "pkt_bufs_n r = int n" "0 \<le> rx_prefix_len r" "rx_prefix_len r \<le> 1792"
    and mem: "\<And>i. i < n \<Longrightarrow> length (memory i) = 2048" and small: "n \<le> 2 ^ 20"
    and pages: "pages_ok pages" "n * 2048 \<le> 4096 * length pages"
  shows "\<exists>bs. set_addrs pages 0 (pkt_bufs r) = Some bs \<and> length bs = n \<and>
    res_ok (r\<lparr>memreg := pages, pkt_bufs := bs, refill_level := l, refill_min := m\<rparr>) (rev [0..<n]) []"
proof -
  have vi: "rxq_ok (res_vi r)" and ring: "rx_ring (res_vi r) = []" using fresh by (simp_all add: vi_fresh_def)
  have len: "length (pkt_bufs r) = n" using r by (simp add: fresh_pool_def)
  obtain bs where bs: "set_addrs pages 0 (pkt_bufs r) = Some bs" "length bs = n"
    "\<And>j. j < n \<Longrightarrow> \<exists>a. ef_memreg_dma_addr pages (of_nat (j * 2048)) = Some a \<and>
       bs ! j = (pkt_bufs r ! j)\<lparr>efvi_addr := a\<rparr>"
    using set_addrs_ok [of 0 "pkt_bufs r" pages] pages(2) small len by auto
  let ?r = "r\<lparr>memreg := pages, pkt_bufs := bs, refill_level := l, refill_min := m\<rparr>"
  have hd: "pb_id (bs ! i) = of_nat i \<and> rx_ptr (bs ! i) = 64 + nat (rx_prefix_len r) \<and>
      length (pb_mem (bs ! i)) = 2048 \<and> pb_next (bs ! i) = pb_next (pkt_bufs r ! i)" if "i < n" for i
    using bs(3) [OF that] r(1) that mem by (auto simp: fresh_pool_def)
  have "inj_on (\<lambda>i. efvi_addr (bs ! i)) {..<n}"
  proof (rule inj_onI)
    fix i j
    assume ij: "i \<in> {..<n}" "j \<in> {..<n}" "efvi_addr (bs ! i) = efvi_addr (bs ! j)"
    then show "i = j"
      using bs(3) [of i] bs(3) [of j] dma_block_inj [OF pages(1), of i j] small by auto
  qed
  then have "bufs_ok ?r" using hd r(2-4) bs(2) by (simp add: bufs_ok_def)
  moreover have "chain (\<lambda>i. pb_next (bs ! i)) p (rev [0..<n]) =
      chain (\<lambda>i. pb_next (pkt_bufs r ! i)) p (rev [0..<n])" for p
    by (rule chain_cong) (use hd in auto)
  then have "owned ?r (rev [0..<n]) []"
    using r(1) bs(2) by (auto simp: owned_def pool_def posted_def ring fresh_pool_def)
  ultimately show ?thesis
    using bs(1,2) vi n len ring
    by (intro exI [of _ bs]) (simp add: res_ok_def ring_addrs_def)
qed

section \<open>The rest of init\<close>

lemma ready_line_None: "ready_line (ie_localtime env) = None \<longleftrightarrow> no_time env"
  by (auto simp: ready_line_def no_time_def split: option.splits prod.splits bind_splits)

lemma init_filters_ok:
  "\<exists>out'. init_filters env c out =
     (if sniff_ok env \<and> no_time env then None else Some (c, out', if sniff_ok env then Continue else Abort))"
proof -
  obtain rc fs where r: "fs_set_port_sniff (ie_filter_ops env) 1
      (fs_init (ie_filter_ops env) EF_FILTER_FLAG_NONE) = (rc, fs)" by fastforce
  have "strtok (Some ''sniff'') [] '':'' = (Some ''sniff'', [])"
    by (simp add: strtok_def strtok_from_def Let_def)
  then show ?thesis
    using ready_line_None [of env]
    by (cases "ready_line (ie_localtime env)")
      (simp_all add: init_filters_def filter_parse_def filter_sniff_def TRY_def good_filter_def mc_try_def
        sniff_ok_def r Let_def)
qed

lemma same_pool_client:
  assumes "res_ok r free []" "same_pool r0 r" "refill_level r0 = int (length (pkt_bufs r0)) - 16"
    "refill_min r0 = int (length (pkt_bufs r0)) div 2"
  shows "client_ok (c\<lparr>res := r\<rparr>)"
  using assms by (auto simp: client_ok_def same_pool_def)

lemma init_ring_ok:
  assumes drv: "driver_ok ops" and fresh: "fresh_pool memory n n (res c)" and vi: "vi_fresh (res_vi (res c))"
    and r: "pkt_bufs_n (res c) = int n" "0 \<le> rx_prefix_len (res c)" "rx_prefix_len (res c) \<le> 1792"
    and n: "int n \<le> ef_vi_receive_capacity (res_vi (res c))" "n \<le> 2 ^ 20"
    and fill: "cfg_max_fill c = int n" and mem: "\<And>i. i < n \<Longrightarrow> length (memory i) = 2048"
    and reg: "ie_memreg_alloc env bytes = (rc, pages)" "0 \<le> rc \<Longrightarrow> pages_ok pages \<and> n * 2048 \<le> 4096 * length pages"
  shows "\<exists>c' out'. init_ring ops env bytes c out =
      (if 0 \<le> rc \<and> sniff_ok env \<and> no_time env then None
       else Some (c', out', if 0 \<le> rc \<and> sniff_ok env then Continue else Abort)) \<and>
    (0 \<le> rc \<longrightarrow> client_ok c' \<and> stop c' = stop c \<and> prev_ip_id c' = prev_ip_id c \<and>
       length (pkt_bufs (res c')) = n \<and> int n - 16 < ef_vi_receive_fill_level (res_vi (res c')))"
proof (cases "0 \<le> rc")
  case True
  have "length (pkt_bufs (res c)) = n" using fresh by (simp add: fresh_pool_def)
  then obtain bs where bs: "set_addrs pages 0 (pkt_bufs (res c)) = Some bs" "length bs = n"
    "res_ok ((res c)\<lparr>memreg := pages, pkt_bufs := bs, refill_level := int n - 16,
       refill_min := int n div 2\<rparr>) (rev [0..<n]) []" (is "res_ok ?r _ _")
    using pool_ready [OF vi _ fresh r mem n(2), of pages "int n div 2" "int n - 16"] n(1) reg(2) [OF True] by auto
  obtain r1 k where r1: "fill_rx_ring ops ?r = Some r1" "res_ok r1 (drop k (rev [0..<n])) []" "same_pool ?r r1"
    "length (drop k (rev [0..<n])) < 16"
    using fill_rx_ring_ok [OF drv bs(3)] bs(2) by auto
  have len: "length (pkt_bufs r1) = n" using r1(3) bs(2) by (simp add: same_pool_def)
  have "int n - 16 < ef_vi_receive_fill_level (res_vi r1)"
    using r1(2,4) owned_length [of r1 "drop k (rev [0..<n])" "[]"] receive_fill_level [of "res_vi r1"] len
    by (simp add: res_ok_def)
  moreover have "client_ok (c\<lparr>res := r1\<rparr>)"
    using same_pool_client [OF r1(2,3)] bs(2) by simp
  moreover obtain out' where "init_filters env (c\<lparr>res := r1\<rparr>) out =
      (if sniff_ok env \<and> no_time env then None else Some (c\<lparr>res := r1\<rparr>, out', if sniff_ok env then Continue else Abort))"
    using init_filters_ok by blast
  moreover have "half (int n) = int n div 2" by (simp add: half_def)
  ultimately show ?thesis
    using bs(1) r1(1) len fill reg(1) True
    by (intro exI [of _ "c\<lparr>res := r1\<rparr>"] exI [of _ out']) (simp add: init_ring_def mc_try_def)
qed (simp add: init_ring_def mc_try_def reg(1))

text \<open>
  A client that \<open>init\<close> has set up: the invariant holds, the loop flag is still set, and fewer
  than a batch of buffers are left off the ring.
\<close>

definition client_ready :: "mc_client_efvi \<Rightarrow> bool" where
  "client_ready c \<longleftrightarrow> client_ok c \<and>
     int (length (pkt_bufs (res c))) - 16 < ef_vi_receive_fill_level (res_vi (res c))"

lemma alloc_covers_pool:
  assumes "0 \<le> pool_bytes env" "pool_bytes env < 2 ^ 31"
  shows "nat (pool_bytes env) \<le> unat (alloc_bytes env)"
proof -
  let ?p = "of_int (pool_bytes env) :: u64"
  have "uint ?p = pool_bytes env mod 2 ^ 64" by (simp add: uint_word_of_int)
  also have "\<dots> = pool_bytes env" by (rule mod_pos_pos_trivial) (use assms in simp_all)
  finally have u: "unat ?p = nat (pool_bytes env)" by (simp only: unat_eq_nat_uint)
  have "nat (pool_bytes env) < 2 ^ 31" using assms by simp
  then have "unat ?p + 2 ^ 21 \<le> 2 ^ 64" unfolding u by simp
  then have "unat ?p \<le> unat (ROUND_UP ?p 0x200000)"
    by (rule ROUND_UP_next_multiple [THEN conjunct2, THEN conjunct1, rotated 2]) simp_all
  then show ?thesis by (simp only: alloc_bytes_def u)
qed

text \<open>The pool and the client as the set-up has them when the memory is allocated.\<close>

definition pool_start :: "ef_vi \<Rightarrow> resources" where
  "pool_start vi = (zero_resources vi)\<lparr>rx_prefix_len := ef_vi_receive_prefix_len vi,
     pkt_bufs_n := ef_vi_receive_capacity vi - 15\<rparr>"

lemma init_start:
  assumes "cstring (main_interface c) = Some name"
  shows "\<not> opened env name \<Longrightarrow> \<exists>c' out. init ops env c = Some (c', out, Abort)"
    "opened env name \<Longrightarrow> 2 ^ 31 \<le> pool_bytes env \<Longrightarrow> init ops env c = None"
    "opened env name \<Longrightarrow> - (2 ^ 31) \<le> pool_bytes env \<Longrightarrow> pool_bytes env < 2 ^ 31 \<Longrightarrow>
      \<not> ie_mmap env (alloc_bytes env) \<Longrightarrow> ie_memalign env (alloc_bytes env) \<noteq> 0 \<Longrightarrow>
      \<exists>c' out. init ops env c = Some (c', out, Abort)"
    "opened env name \<Longrightarrow> - (2 ^ 31) \<le> pool_bytes env \<Longrightarrow> pool_bytes env < 2 ^ 31 \<Longrightarrow>
      ie_mmap env (alloc_bytes env) \<or> ie_memalign env (alloc_bytes env) = 0 \<Longrightarrow>
      init_pool (ie_memory env (alloc_bytes env)) (pool_start (snd (ie_vi_alloc env))) = Some r \<Longrightarrow>
      \<exists>out. init ops env c = init_ring ops env (alloc_bytes env)
        (c\<lparr>cfg_max_fill := ef_vi_receive_capacity (snd (ie_vi_alloc env)) - 15, res := r\<rparr>) out"
  by (auto simp: init_def assms mc_try_def mc_test_def opened_def pool_bytes_def alloc_bytes_def
      pool_start_def c_int_def Let_def)

lemma init_ok:
  assumes drv: "driver_ok ops" and env: "env_ok env" and name: "cstring (main_interface c) = Some name"
  shows "if init_undefined env name then init ops env c = None
    else \<exists>c' out. init ops env c = Some (c', out, if calls_ok env name then Continue else Abort) \<and>
      (calls_ok env name \<longrightarrow> client_ready c' \<and> stop c' = stop c \<and> prev_ip_id c' = prev_ip_id c \<and>
         int (length (pkt_bufs (res c'))) = ef_vi_receive_capacity (snd (ie_vi_alloc env)) - 15)"
proof (cases "opened env name \<and> pool_bytes env < 2 ^ 31 \<and>
    (ie_mmap env (alloc_bytes env) \<or> ie_memalign env (alloc_bytes env) = 0)")
  case True
  let ?vi = "snd (ie_vi_alloc env)" and ?size = "alloc_bytes env"
  define n where "n = nat (ef_vi_receive_capacity ?vi - 15)"
  have "0 \<le> fst (ie_vi_alloc env)" using True by (simp add: opened_def)
  then have vi: "vi_fresh ?vi" "15 \<le> ef_vi_receive_capacity ?vi" "0 \<le> ef_vi_receive_prefix_len ?vi"
    "ef_vi_receive_prefix_len ?vi \<le> 1792"
    using env by (simp_all add: env_ok_def vi_fresh_def)
  then have n: "int n = ef_vi_receive_capacity ?vi - 15" by (simp add: n_def)
  have bytes: "pool_bytes env = int (n * 2048)" by (simp add: pool_bytes_def flip: n)
  then have small: "n < 2 ^ 20" using True by simp
  have fits: "n * 2048 \<le> unat ?size" using alloc_covers_pool [of env] bytes True by simp
  have mem: "length (ie_memory env ?size) = unat ?size" using env by (simp add: env_ok_def)
  obtain r where r: "init_pool (ie_memory env ?size) (pool_start ?vi) = Some r"
    "fresh_pool (block (ie_memory env ?size)) n n r" "res_vi r = ?vi"
    "rx_prefix_len r = ef_vi_receive_prefix_len ?vi" "pkt_bufs_n r = int n"
    using init_pool_fresh [of "pool_start ?vi" n "ie_memory env ?size"] fits mem n
    by (auto simp: pool_start_def zero_resources_def)
  let ?c = "c\<lparr>cfg_max_fill := ef_vi_receive_capacity ?vi - 15, res := r\<rparr>"
  obtain out where o: "init ops env c = init_ring ops env ?size ?c out"
    using init_start(4) [OF name _ _ _ _ r(1)] True bytes by auto
  obtain rc pages where reg: "ie_memreg_alloc env ?size = (rc, pages)" by fastforce
  have pages: "pages_ok pages \<and> n * 2048 \<le> 4096 * length pages" if "0 \<le> rc"
  proof -
    have "0 \<le> fst (ie_memreg_alloc env ?size)" using that reg by simp
    with env have "pages_ok (snd (ie_memreg_alloc env ?size)) \<and> unat ?size \<le> 4096 * length (snd (ie_memreg_alloc env ?size))"
      unfolding env_ok_def by blast
    with fits reg show ?thesis by auto
  qed
  have blk: "length (block (ie_memory env ?size) i) = 2048" if "i < n" for i
  proof (rule length_block)
    have "(i + 1) * 2048 \<le> n * 2048" by (rule mult_le_mono1) (use that in simp)
    then show "(i + 1) * 2048 \<le> length (ie_memory env ?size)" using fits mem by simp
  qed
  have "\<exists>c' out'. init_ring ops env ?size ?c out =
      (if 0 \<le> rc \<and> sniff_ok env \<and> no_time env then None
       else Some (c', out', if 0 \<le> rc \<and> sniff_ok env then Continue else Abort)) \<and>
    (0 \<le> rc \<longrightarrow> client_ok c' \<and> stop c' = stop ?c \<and> prev_ip_id c' = prev_ip_id ?c \<and>
       length (pkt_bufs (res c')) = n \<and> int n - 16 < ef_vi_receive_fill_level (res_vi (res c')))"
    by (rule init_ring_ok [OF drv, where memory = "block (ie_memory env ?size)"])
      (use vi r(2-5) n small reg pages blk in simp_all)
  moreover have "calls_ok env name \<longleftrightarrow> 0 \<le> rc \<and> sniff_ok env" using True reg by (simp add: calls_ok_def)
  moreover have "init_undefined env name \<longleftrightarrow> calls_ok env name \<and> no_time env" using True by (auto simp: init_undefined_def)
  ultimately show ?thesis using o n by (auto simp: client_ready_def)
next
  case False
  show ?thesis
  proof (cases "opened env name")
    case op: True
    then have "vi_fresh (snd (ie_vi_alloc env))" using env by (simp add: env_ok_def opened_def)
    then have "0 \<le> pool_bytes env" by (simp add: pool_bytes_def vi_fresh_def)
    then show ?thesis
      using False op init_start(2,3) [OF name op, of ops] by (auto simp: init_undefined_def calls_ok_def not_less)
  next
    case False
    then show ?thesis using init_start(1) [OF name False, of ops] by (auto simp: init_undefined_def calls_ok_def)
  qed
qed

section \<open>Reachable states\<close>

inductive efvi_reach ::
  "'w vi_ops \<times> handler \<Rightarrow> 'fs init_env \<Rightarrow> mc_client_efvi \<Rightarrow> mc_client_efvi \<Rightarrow> bool"
  for d env c0 where
  set_up: "init (fst d) env c0 = Some (c, out, Continue) \<Longrightarrow> efvi_reach d env c0 c"
| turn: "efvi_reach d env c0 c \<Longrightarrow> efvi_step d c w = Some (c', out, Continue) \<Longrightarrow> efvi_reach d env c0 c'"

inductive_cases efvi_reachE: "efvi_reach d env c0 c"

lemma reach_ok:
  assumes drv: "driver_ok ops" and h: "handler_ok h" and env: "env_ok env"
  shows "efvi_reach (ops, h) env c0 c \<Longrightarrow> client_ok c \<and>
    int (length (pkt_bufs (res c))) = ef_vi_receive_capacity (snd (ie_vi_alloc env)) - 15 \<and> stop c = stop c0"
proof (induction rule: efvi_reach.induct)
  case (set_up c out)
  then obtain name where name: "cstring (main_interface c0) = Some name"
    by (cases "cstring (main_interface c0)") (auto simp: init_def)
  with set_up show ?case using init_ok [OF drv env name] by (auto simp: client_ready_def split: if_splits)
next
  case (turn c w c' out)
  then show ?case using efvi_step_ok [OF drv h, of c w] by auto
qed

lemma reach_run:
  assumes "efvi_reach d env c0 c" "run_loop (efvi_step d) c ws = Some (c', out, Continue)"
  shows "efvi_reach d env c0 c'"
  using assms
proof (induction ws arbitrary: c out)
  case (Cons w ws)
  then obtain c1 o1 fl where st: "efvi_step d c w = Some (c1, o1, fl)" by (cases "efvi_step d c w") auto
  with Cons.prems(2) have "fl = Continue" by (cases "fl = Continue") auto
  with st Cons show ?case by (auto simp: bind_eq_Some_conv intro: efvi_reach.turn)
qed simp


section \<open>Properties\<close>


definition sample_env :: "(int \<times> byte list) init_env" where
  "sample_env = \<lparr>ie_calloc = True, ie_driver_open = 0, ie_pd_alloc = (\<lambda>_. 0), ie_vi_alloc = (0, sample_vi),
     ie_eventq_capacity = (\<lambda>_. 1024), ie_mmap = (\<lambda>_. False), ie_memalign = (\<lambda>_. 0),
     ie_memory = (\<lambda>n. replicate (unat n) 0),
     ie_memreg_alloc = (\<lambda>n. if n \<le> 0x200000 then (0, map (\<lambda>i. of_nat (4096 * (i + 1))) [0..<512]) else (- 1, [])),
     ie_filter_ops = sample_filter_ops, ie_filter_add = (\<lambda>fs. if fst fs = 1 then 0 else - 1),
     ie_localtime = Some (124, 0, 8, 9, 0, 0), ie_errno = (0, [])\<rparr>"

definition sample_client :: mc_client_efvi where
  "sample_client = \<lparr>main_interface = INTERFACE @ [0xAA, 0xBB], cfg_max_fill = - 1, stop = 1, prev_ip_id = 0,
     res = zero_resources sample_vi\<rparr>"

lemma sample_name: "cstring (INTERFACE @ junk) = Some ''ens1f0''"
  by (simp add: INTERFACE_def char_of_eq_iff)

lemma sample_pages: "pages_ok (map (\<lambda>i. of_nat (4096 * (i + 1))) [0..<512])"
proof -
  have "inj_on (\<lambda>i. of_nat (4096 * (i + 1)) :: u64) {0..<512}"
    by (rule inj_onI) (simp only: word_of_nat_eq_iff, simp add: take_bit_nat_eq_self)
  moreover have "take_bit 12 (of_nat (4096 * m) :: u64) = 0" for m
    by (simp only: take_bit_of_nat) (simp add: take_bit_eq_mod)
  ultimately show ?thesis unfolding pages_ok_def distinct_map set_upt set_map using distinct_upt by blast
qed

lemma sample_capacity: "ef_vi_receive_capacity sample_vi = 63" "ef_vi_receive_prefix_len sample_vi = 14"
  by (simp_all add: ef_vi_receive_capacity_def ef_vi_receive_prefix_len_def sample_vi_def)

lemma sample_sizes: "pool_bytes sample_env = 98304" "alloc_bytes sample_env = 0x200000"
  using sample_capacity by (simp_all add: pool_bytes_def alloc_bytes_def sample_env_def ROUND_UP_def)

lemma sample_env_ok: "env_ok sample_env" "calls_ok sample_env name" "\<not> init_undefined sample_env name"
proof -
  have "unat n \<le> 4096 * 512" if "n \<le> 0x200000" for n :: u64 using that by (simp add: word_le_nat_alt)
  then show "env_ok sample_env"
    using sample_pages sample_vi_ok sample_capacity by (simp add: env_ok_def vi_fresh_def sample_env_def)
  show "calls_ok sample_env name"
    unfolding calls_ok_def sample_sizes by (simp add: opened_def sniff_ok_def sample_env_def sample_filter_ops_def Let_def)
  have "\<not> no_time sample_env" by (simp add: no_time_def sample_env_def c_int_def)
  then show "\<not> init_undefined sample_env name" by (simp add: init_undefined_def sample_sizes)
qed


text \<open>
  C4.  No packet buffer is ever lost or owned twice.  In every state the event loop
  reaches after a successful set-up, the free list has exactly as many buffers as its
  counter says, and the free buffers and the buffers posted on the receive ring are all
  the buffers of the pool, each exactly once.
\<close>

theorem buffers_never_lost:
  assumes "driver_ok ops" "handler_ok h" "env_ok env" "efvi_reach (ops, h) env c0 c"
  shows "\<exists>free. chain (\<lambda>i. pb_next (pkt_bufs (res c) ! i)) (free_pkt_bufs (res c)) free \<and>
    free_pkt_bufs_n (res c) = int (length free) \<and> distinct (free @ posted (res c)) \<and>
    set (free @ posted (res c)) = {..<length (pkt_bufs (res c))} \<and>
    int (length (pkt_bufs (res c))) = ef_vi_receive_capacity (snd (ie_vi_alloc env)) - 15"
proof -
  have "client_ok c" "int (length (pkt_bufs (res c))) = ef_vi_receive_capacity (snd (ie_vi_alloc env)) - 15"
    using reach_ok [OF assms] by simp_all
  then show ?thesis by (auto simp: client_ok_def res_ok_def owned_def pool_def)
qed

lemma sample_reach:
  "\<exists>c. efvi_reach (ring_driver, quiet_handler) sample_env sample_client c \<and> client_ready c"
proof -
  have "cstring (main_interface sample_client) = Some ''ens1f0''"
    using sample_name by (simp add: sample_client_def)
  then obtain c out where "init ring_driver sample_env sample_client = Some (c, out, Continue)" "client_ready c"
    using init_ok [OF ring_driver_ok sample_env_ok(1)] sample_env_ok(2,3) by fastforce
  then show ?thesis
    using efvi_reach.set_up [of "(ring_driver, quiet_handler)" sample_env sample_client c out] by auto
qed

theorem buffers_never_lost_witness:
  "\<exists>c free. efvi_reach (ring_driver, quiet_handler) sample_env sample_client c \<and>
     distinct (free @ posted (res c)) \<and> set (free @ posted (res c)) = {..<48}"
proof -
  obtain c where c: "efvi_reach (ring_driver, quiet_handler) sample_env sample_client c"
    using sample_reach by blast
  have "ef_vi_receive_capacity (snd (ie_vi_alloc sample_env)) = 63"
    using sample_capacity by (simp add: sample_env_def)
  then have "length (pkt_bufs (res c)) = 48"
    using reach_ok [OF ring_driver_ok quiet_handler_ok sample_env_ok(1) c] by simp
  moreover obtain free where "distinct (free @ posted (res c))"
    "set (free @ posted (res c)) = {..<length (pkt_bufs (res c))}"
    using buffers_never_lost [OF ring_driver_ok quiet_handler_ok sample_env_ok(1) c] by blast
  ultimately show ?thesis using c by (intro exI [of _ c] exI [of _ free]) simp
qed

text \<open>
  C6.  The adapter is never starved: in every reachable state the refill at the start of a
  turn succeeds and leaves at least half of the buffers posted when the pool has twenty-nine
  or more, and all but fifteen of a smaller pool.
\<close>

theorem ring_stays_half_full:
  assumes "driver_ok ops" "handler_ok h" "env_ok env" "efvi_reach (ops, h) env c0 c"
  shows "\<exists>r refilled. refill_rx_ring ops (res c) = Some (r, refilled) \<and>
    (if 29 \<le> pkt_bufs_n r then pkt_bufs_n r div 2 else pkt_bufs_n r - 15) \<le> ef_vi_receive_fill_level (res_vi r)"
proof -
  let ?n = "length (pkt_bufs (res c))"
  have c: "client_ok c" using reach_ok [OF assms] by simp
  then obtain free where free: "res_ok (res c) free []" by (auto simp: client_ok_def)
  obtain r b k where r: "refill_rx_ring ops (res c) = Some (r, b)" "res_ok r (drop k free) []"
    "same_pool (res c) r" "k \<le> length free"
    "refill_level (res c) < int (rx_fill (res_vi r)) \<or> refill_min (res c) \<le> int (rx_fill (res_vi r)) \<or>
     length free < k + 16"
    using refill_rx_ring_ok [OF assms(1) free] by blast
  have n: "pkt_bufs_n r = int ?n" "length (pkt_bufs r) = ?n"
    using free r(3) by (simp_all add: res_ok_def bufs_ok_def same_pool_def)
  have fl: "ef_vi_receive_fill_level (res_vi r) = int (rx_fill (res_vi r))"
    "length free - k + rx_fill (res_vi r) = ?n"
    using r(2) receive_fill_level owned_length [of r "drop k free" "[]"] n by (auto simp: res_ok_def)
  have "(if 29 \<le> pkt_bufs_n r then pkt_bufs_n r div 2 else pkt_bufs_n r - 15) \<le> ef_vi_receive_fill_level (res_vi r)"
    using r(5) c n fl by (auto simp: client_ok_def)
  with r(1) show ?thesis by blast
qed

theorem ring_stays_half_full_witness:
  "\<exists>c r refilled. efvi_reach (ring_driver, quiet_handler) sample_env sample_client c \<and>
     refill_rx_ring ring_driver (res c) = Some (r, refilled) \<and> 24 \<le> ef_vi_receive_fill_level (res_vi r)"
proof -
  obtain c where c: "efvi_reach (ring_driver, quiet_handler) sample_env sample_client c"
    using sample_reach by blast
  obtain r b where r: "refill_rx_ring ring_driver (res c) = Some (r, b)"
    "(if 29 \<le> pkt_bufs_n r then pkt_bufs_n r div 2 else pkt_bufs_n r - 15) \<le> ef_vi_receive_fill_level (res_vi r)"
    using ring_stays_half_full [OF ring_driver_ok quiet_handler_ok sample_env_ok(1) c] by blast
  have ok: "client_ok c" "int (length (pkt_bufs (res c))) = 48"
    using reach_ok [OF ring_driver_ok quiet_handler_ok sample_env_ok(1) c] sample_capacity by (simp_all add: sample_env_def)
  then obtain free where free: "res_ok (res c) free []" by (auto simp: client_ok_def)
  then have "pkt_bufs_n r = 48"
    using refill_rx_ring_ok [OF ring_driver_ok free] r(1) ok(2) by (auto simp: same_pool_def res_ok_def bufs_ok_def)
  with c r show ?thesis by auto
qed



end
