(* ===== verification/McReport.thy ===== *)
theory McReport
  imports McSetup
begin

text \<open>
  What the ef_vi client prints: the filter of \<open>handle_pkt\<close> on the bytes behind the packet
  pointer, and the reports of one turn of the event loop for the frames the adapter has
  written into the posted buffers.
\<close>

section \<open>The packet filter\<close>

definition efvi_wants :: "byte list \<Rightarrow> nat \<Rightarrow> int \<Rightarrow> bool" where
  "efvi_wants mem p len \<longleftrightarrow> 60 \<le> len \<and> mem ! (p + 6) = 0x08 \<and> mem ! (p + 7) = 0 \<and> mem ! (p + 8) = 0x45 \<and>
     mem ! (p + 17) = 0x11 \<and> take 4 (drop (p + 24) mem) = group_bytes"

definition efvi_ip_id :: "byte list \<Rightarrow> nat \<Rightarrow> u16" where
  "efvi_ip_id mem p = of_nat (256 * unat (mem ! (p + 12)) + unat (mem ! (p + 13)))"

lemma word_of_le_group:
  assumes "length bs = 4"
  shows "(word_of_le bs :: u32) = 0x08efefef \<longleftrightarrow> bs = group_bytes"
proof -
  have g: "(word_of_le group_bytes :: u32) = 0x08efefef" by (simp add: word_of_le_def group_bytes_def)
  show ?thesis
    using u32f.dec_inject [of bs group_bytes] assms unfolding g [symmetric]
    by (auto simp: group_bytes_def)
qed

lemma load32_group:
  assumes "off + 4 \<le> length bs"
  shows "\<exists>w. load32 bs off = Some w \<and> (w = 0x08efefef \<longleftrightarrow> take 4 (drop off bs) = group_bytes)"
  using assms word_of_le_group [of "take 4 (drop off bs)"] by (simp add: load32_def load_def)

lemma efvi_accepts_wants:
  assumes "p + 28 \<le> length mem"
  shows "efvi_accepts mem p len = Some (efvi_wants mem p len)"
proof -
  obtain t where t: "load16 mem (p + 6) = Some t" using load16_total [of "p + 6" mem] assms by auto
  obtain d where d: "load32 mem (p + 24) = Some d" "d = 0x08efefef \<longleftrightarrow> take 4 (drop (p + 24) mem) = group_bytes"
    using load32_group [of "p + 24" mem] assms by auto
  have "t = 8 \<longleftrightarrow> mem ! (p + 6) = 8 \<and> mem ! (p + 7) = 0"
    using load16_types(1) [of "p + 6" mem] t assms by (simp add: add.commute)
  then show ?thesis using t d assms by (auto simp: efvi_accepts_def efvi_wants_def)
qed

lemma handle_pkt_wants:
  assumes p: "6 \<le> p" "p + 28 \<le> length mem" and w: "efvi_wants mem p len"
  shows "handle_pkt h prev mem p len =
    map_option (\<lambda>(b, line). (efvi_ip_id mem p, take (p - 6) mem @ b,
        gap_check prev (efvi_ip_id mem p) @ [Out line]))
      (dispatch (efvi_best_line (efvi_ip_id mem p)) (efvi_deep_line (efvi_ip_id mem p)) h
        (drop (p - 6) mem) (len - 36))"
proof -
  let ?b = "drop (p - 6) mem" and ?i = "efvi_ip_id mem p"
  let ?st = "\<lparr>rx_buf = ?b, rx_prev_ip_id = prev\<rparr>"
  have "load16 ?b 12 = Some IPV4_PACKET"
    using load16_types(1) [of 12 ?b] p w by (simp add: efvi_wants_def add.commute)
  then have "frame_shift ?b = Some (Some 0)" by (simp add: frame_shift_def)
  then have grp: "in_group (rx_buf ?st) 0"
    using p w by (simp add: in_group_def load_def efvi_wants_def add.commute)
  have id: "load16 (rx_buf ?st) (0 + 18) = Some (word_of_le [mem ! (p + 12), mem ! (p + 13)])"
    using load2 [of 18 ?b] p by (simp add: load16_def add.commute)
  have i: "ntohs (word_of_le [mem ! (p + 12), mem ! (p + 13)]) = ?i"
    unfolding ntohs_def bswap16_bytes by (simp add: word_of_le2 efvi_ip_id_def algebra_simps)
  have acc: "efvi_accepts mem p len = Some True" using efvi_accepts_wants [OF p(2)] w by simp
  show ?thesis
  proof (cases "dispatch (efvi_best_line ?i) (efvi_deep_line ?i) h ?b (len - 36)")
    case None
    then have "report_frame efvi_best_line efvi_deep_line h ?st (len - 36) = None"
      using grp id i ntohl_filter_iff [of group_bytes]
      by (simp add: report_frame_def in_group_def load32_def) (simp add: group_bytes_def)
    then show ?thesis using None acc p by (simp add: handle_pkt_def)
  next
    case (Some bl)
    obtain b line where bl: "bl = (b, line)" by (cases bl)
    have "report_frame efvi_best_line efvi_deep_line h ?st (len - 36) =
        Some (\<lparr>rx_buf = b, rx_prev_ip_id = ?i\<rparr>, gap_check prev ?i @ [Out line])"
      using report_frame_accepts [where best_line = efvi_best_line and deep_line = efvi_deep_line,
          OF grp id, of h "len - 36" b line] Some bl i by simp
    then show ?thesis using Some bl acc p by (simp add: handle_pkt_def)
  qed
qed

section \<open>One event, one packet\<close>

text \<open>The packets of a batch of events, each in the memory it was written to.\<close>

fun efvi_lines :: "handler \<Rightarrow> u16 \<Rightarrow> (byte list \<times> nat \<times> int) list \<Rightarrow> (u16 \<times> msg list) option" where
  "efvi_lines h prev [] = Some (prev, [])"
| "efvi_lines h prev ((mem, p, len) # pkts) = do {
     (prev, mem', out) \<leftarrow> handle_pkt h prev mem p len;
     (prev, rest) \<leftarrow> efvi_lines h prev pkts;
     Some (prev, out @ rest)
   }"

definition good_rx :: "ef_event \<Rightarrow> bool" where
  "good_rx e \<longleftrightarrow> EF_EVENT_TYPE e = event_type_code EF_EVENT_TYPE_RX \<and> EF_EVENT_RX_SOP e \<and> \<not> EF_EVENT_RX_CONT e"

definition event_pkt :: "resources \<Rightarrow> ef_event \<Rightarrow> byte list \<times> nat \<times> int" where
  "event_pkt r e = (let pb = pkt_bufs r ! unat (EF_EVENT_RX_RQ_ID e)
     in (pb_mem pb, rx_ptr pb, int (unat (EF_EVENT_RX_BYTES e)) - rx_prefix_len r))"

lemma handle_event_line:
  assumes h: "handler_ok h" and e: "good_rx e"
    and ok: "res_ok (res c) free (unat (EF_EVENT_RX_RQ_ID e) # busy)" and pk: "event_pkt (res c) e = (mem, p, len)"
  shows "\<exists>c' mem' out. handle_event h c e = Some (c', out, Continue) \<and>
    handle_pkt h (prev_ip_id c) mem p len = Some (prev_ip_id c', mem', out) \<and>
    res_ok (res c') (unat (EF_EVENT_RX_RQ_ID e) # free) busy \<and>
    (\<forall>e'. unat (EF_EVENT_RX_RQ_ID e') \<in> set busy \<longrightarrow> event_pkt (res c') e' = event_pkt (res c) e')"
proof -
  let ?b = "unat (EF_EVENT_RX_RQ_ID e)" and ?r = "res c"
  let ?pb = "pkt_bufs ?r ! ?b" and ?len = "int (unat (EF_EVENT_RX_BYTES e)) - rx_prefix_len (res c)"
  have b: "?b < length (pkt_bufs ?r)" and busy: "?b \<notin> set busy" and sub: "set busy \<subseteq> {..<length (pkt_bufs ?r)}"
    using ok by (auto simp: res_ok_def owned_def)
  note f = res_ok_buffer [OF ok b]
  obtain prev' mem' out where hp: "handle_pkt h (prev_ip_id c) (pb_mem ?pb) (rx_ptr ?pb) ?len =
      Some (prev', mem', out)"
    using handle_pkt_total [OF h, of "rx_ptr ?pb" "pb_mem ?pb" "prev_ip_id c" ?len] f by auto
  let ?r1 = "?r\<lparr>pkt_bufs := (pkt_bufs ?r)[?b := ?pb\<lparr>pb_mem := mem'\<rparr>], n_rx_pkts := n_rx_pkts ?r + 1,
      n_rx_bytes := n_rx_bytes ?r + of_int ?len\<rparr>"
  let ?c = "c\<lparr>prev_ip_id := prev', res := pkt_buf_free ?b ?r1\<rparr>"
  have ev: "handle_event h c e = Some (?c, out, Continue)"
    using e hp b pkt_buf_from_id_ok [OF ok b]
    by (simp add: handle_event_def good_rx_def handle_rx_def handle_rx_core_def Let_def)
  obtain c' fl out' where "handle_event h c e = Some (c', out', fl)"
    "fl = Continue \<longrightarrow> res_ok (res c') (?b # free) busy"
    using handle_event_completes [OF h _ ok] e by (auto simp: good_rx_def completes_def)
  then have "res_ok (res ?c) (?b # free) busy" using ev by simp
  moreover have "event_pkt (res ?c) e' = event_pkt (res c) e'" if "unat (EF_EVENT_RX_RQ_ID e') \<in> set busy" for e'
  proof -
    have "unat (EF_EVENT_RX_RQ_ID e') \<noteq> ?b" "unat (EF_EVENT_RX_RQ_ID e') < length (pkt_bufs ?r)"
      using that busy sub by auto
    then show ?thesis by (simp add: event_pkt_def Let_def pkt_buf_free_def nth_list_update)
  qed
  ultimately show ?thesis using ev hp pk
    by (intro exI [of _ ?c] exI [of _ mem'] exI [of _ out]) (auto simp: event_pkt_def Let_def)
qed

lemma handle_events_lines:
  assumes h: "handler_ok h"
  shows "\<forall>e\<in>set evs. good_rx e \<Longrightarrow> res_ok (res c) free (map (unat \<circ> EF_EVENT_RX_RQ_ID) evs) \<Longrightarrow>
    \<exists>c' out. run_loop (handle_event h) c evs = Some (c', out, Continue) \<and>
      efvi_lines h (prev_ip_id c) (map (event_pkt (res c)) evs) = Some (prev_ip_id c', out)"
proof (induction evs arbitrary: c free)
  case (Cons e evs)
  let ?busy = "map (unat \<circ> EF_EVENT_RX_RQ_ID) evs"
  have e: "good_rx e" and ok: "res_ok (res c) free (unat (EF_EVENT_RX_RQ_ID e) # ?busy)"
    using Cons.prems by (simp_all add: comp_def)
  obtain mem p len where pk: "event_pkt (res c) e = (mem, p, len)" by (metis prod_cases3)
  obtain c1 mem' out where c1: "handle_event h c e = Some (c1, out, Continue)"
    "handle_pkt h (prev_ip_id c) mem p len = Some (prev_ip_id c1, mem', out)"
    "res_ok (res c1) (unat (EF_EVENT_RX_RQ_ID e) # free) ?busy"
    "\<forall>e'. unat (EF_EVENT_RX_RQ_ID e') \<in> set ?busy \<longrightarrow> event_pkt (res c1) e' = event_pkt (res c) e'"
    using handle_event_line [OF h e ok pk] by blast
  have same: "map (event_pkt (res c1)) evs = map (event_pkt (res c)) evs"
    using c1(4) by (simp add: image_iff) blast
  obtain c2 out2 where c2: "run_loop (handle_event h) c1 evs = Some (c2, out2, Continue)"
    "efvi_lines h (prev_ip_id c1) (map (event_pkt (res c1)) evs) = Some (prev_ip_id c2, out2)"
    using Cons.IH [OF _ c1(3)] Cons.prems(1) by auto
  from c1(1,2) c2(1) c2(2) [unfolded same] pk show ?case by simp
qed simp

section \<open>DMA\<close>

definition received :: "byte list \<Rightarrow> byte list \<Rightarrow> byte list" where
  "received mem f = take RX_DMA_OFF mem @ fill_buffer (drop RX_DMA_OFF mem) f"

lemma dma_write_nth:
  assumes "i < length bufs"
  shows "pb_mem (dma_write (a, f) bufs ! i) =
      (if efvi_addr (bufs ! i) + 64 = a then received (pb_mem (bufs ! i)) f else pb_mem (bufs ! i))"
    "efvi_addr (dma_write w bufs ! i) = efvi_addr (bufs ! i)"
  using assms by (simp_all add: dma_write_def received_def)

lemma length_dma_write [simp]: "length (dma_write w bufs) = length bufs"
  by (simp add: dma_write_def)

lemma dma_writes_other:
  assumes "i < length bufs" "efvi_addr (bufs ! i) + 64 \<notin> fst ` set ws"
  shows "pb_mem (fold dma_write ws bufs ! i) = pb_mem (bufs ! i)"
  using assms
proof (induction ws arbitrary: bufs)
  case (Cons w ws)
  then have "pb_mem (fold dma_write ws (dma_write w bufs) ! i) = pb_mem (dma_write w bufs ! i)"
    by (simp add: dma_write_nth)
  then show ?case using Cons.prems by (cases w) (auto simp: dma_write_nth)
qed simp

lemma dma_writes_nth:
  assumes "i < length bufs" "j < length ws" "distinct (map fst ws)" "fst (ws ! j) = efvi_addr (bufs ! i) + 64"
  shows "pb_mem (fold dma_write ws bufs ! i) = received (pb_mem (bufs ! i)) (snd (ws ! j))"
  using assms
proof (induction ws arbitrary: bufs j)
  case (Cons w ws)
  obtain a f where w: "w = (a, f)" by (cases w)
  show ?case
  proof (cases j)
    case 0
    then have "pb_mem (fold dma_write ws (dma_write w bufs) ! i) = pb_mem (dma_write w bufs ! i)"
      using Cons.prems w by (intro dma_writes_other) (auto simp: dma_write_nth)
    with 0 Cons.prems w show ?thesis by (simp add: dma_write_nth)
  next
    case (Suc j')
    then have "a \<noteq> fst (ws ! j')" using Cons.prems w by (metis distinct.simps(2) fst_conv
        image_eqI length_Cons list.simps(9) list.set_map not_less_eq nth_Cons_Suc nth_mem)
    with Suc Cons.prems w Cons.IH [of "dma_write w bufs" j'] show ?thesis
      by (simp add: dma_write_nth)
  qed
qed simp

section \<open>A turn of the event loop\<close>

text \<open>
  A poll that reports the given frames: each is written into the buffer of the next posted
  descriptor and announced by one receive event.
\<close>

definition delivers :: "'w vi_ops \<Rightarrow> 'w \<Rightarrow> ef_vi \<Rightarrow> byte list list \<Rightarrow> bool" where
  "delivers ops w vi fs \<longleftrightarrow> length fs \<le> rx_fill vi \<and> (\<forall>f\<in>set fs. length f \<le> 1984) \<and>
     (\<exists>vi'. eventq_poll ops w vi EV_POLL_BATCH_SIZE =
        (map2 (\<lambda>d f. rx_event (snd d) (length f)) (take (length fs) (rx_ring vi)) fs, vi',
         zip (map fst (rx_ring vi)) fs))"

text \<open>The packets the frames become in the buffers at the head of the ring.\<close>

definition delivered :: "resources \<Rightarrow> byte list list \<Rightarrow> (byte list \<times> nat \<times> int) list" where
  "delivered r fs = map2 (\<lambda>i f. (received (pb_mem (pkt_bufs r ! i)) f, RX_DMA_OFF + nat (rx_prefix_len r),
      int (length f) - rx_prefix_len r)) (take (length fs) (posted r)) fs"

lemma ring_addr_distinct:
  assumes "res_ok r free busy"
  shows "distinct (map fst (rx_ring (res_vi r)))"
proof -
  let ?xs = "rx_ring (res_vi r)"
  have own: "owned r free busy" and inj: "inj_on (\<lambda>i. efvi_addr (pkt_bufs r ! i)) {..<length (pkt_bufs r)}"
    using assms by (simp_all add: res_ok_def bufs_ok_def)
  have "map fst ?xs = map (\<lambda>i. efvi_addr (pkt_bufs r ! i) + 64) (posted r)"
    using assms by (auto simp: posted_def res_ok_def ring_addrs_def)
  moreover have "inj_on (\<lambda>i. efvi_addr (pkt_bufs r ! i) + 64) (set (posted r))"
    using own by (intro inj_onI) (auto simp: owned_def dest: inj_onD [OF inj])
  ultimately show ?thesis using own by (simp add: distinct_map owned_def)
qed

lemma delivered_events:
  assumes ok: "res_ok r free busy" and len: "length fs \<le> rx_fill (res_vi r)" "\<forall>f\<in>set fs. length f \<le> 1984"
  shows "map (event_pkt (r\<lparr>res_vi := vi, pkt_bufs := fold dma_write (zip (map fst (rx_ring (res_vi r))) fs) (pkt_bufs r)\<rparr>))
      (map2 (\<lambda>d f. rx_event (snd d) (length f)) (take (length fs) (rx_ring (res_vi r))) fs) = delivered r fs"
    (is "map (event_pkt ?r) ?evs = _")
proof (rule nth_equalityI)
  show "length (map (event_pkt ?r) ?evs) = length (delivered r fs)"
    using len by (simp add: delivered_def posted_def)
next
  fix j
  assume "j < length (map (event_pkt ?r) ?evs)"
  then have j: "j < length fs" by simp
  let ?ws = "zip (map fst (rx_ring (res_vi r))) fs" and ?d = "rx_ring (res_vi r) ! j"
  let ?i = "unat (snd ?d)"
  have d: "?d \<in> set (rx_ring (res_vi r))" using j len by (simp add: nth_mem)
  have i: "?i < length (pkt_bufs r)"
    using posted_valid [of r free busy "fst ?d" "snd ?d"] ok d by (simp add: res_ok_def)
  have a: "fst ?d = efvi_addr (pkt_bufs r ! ?i) + 64"
    using ok d by (auto simp: res_ok_def ring_addrs_def split_beta)
  have dist: "distinct (map fst ?ws)"
    using ring_addr_distinct [OF ok] len by (simp add: map_fst_zip_take)
  have mem: "pb_mem (fold dma_write ?ws (pkt_bufs r) ! ?i) = received (pb_mem (pkt_bufs r ! ?i)) (fs ! j)"
    using dma_writes_nth [OF i _ dist, of j] a j len by simp
  have ptr: "rx_ptr (fold dma_write ?ws (pkt_bufs r) ! ?i) = 64 + nat (rx_prefix_len r)"
    using dma_writes_headers [of "pkt_bufs r" ?ws] i res_ok_buffer(1) [OF ok i]
    by (simp add: same_headers_def)
  have "length (fs ! j) < 2 ^ 16" using len(2) j by (fastforce dest: nth_mem)
  then have "unat (take_bit 16 (of_nat (length (fs ! j))) :: u32) = length (fs ! j)"
    by (simp add: unsigned_take_bit_eq unat_of_nat take_bit_nat_eq_self)
  then show "map (event_pkt ?r) ?evs ! j = delivered r fs ! j"
    using j len mem ptr
    by (simp add: event_pkt_def delivered_def posted_def rx_event_fields Let_def)
qed

lemma turn_lines:
  assumes drv: "driver_ok ops" and h: "handler_ok h" and c: "client_ok c"
    and r: "refill_rx_ring ops (res c) = Some (r, refilled)" and del: "delivers ops w (res_vi r) fs"
  shows "\<exists>c' out. efvi_step (ops, h) c w = Some (c', out, Continue) \<and>
    efvi_lines h (prev_ip_id c) (delivered r fs) = Some (prev_ip_id c', out)"
proof -
  obtain free where "res_ok (res c) free []" using c by (auto simp: client_ok_def)
  from refill_rx_ring_ok [OF drv this] r obtain k where ok: "res_ok r (drop k free) []" by auto
  let ?evs = "map2 (\<lambda>d f. rx_event (snd d) (length f)) (take (length fs) (rx_ring (res_vi r))) fs"
  let ?ws = "zip (map fst (rx_ring (res_vi r))) fs"
  obtain vi' where e: "eventq_poll ops w (res_vi r) 16 = (?evs, vi', ?ws)"
    and len: "length fs \<le> rx_fill (res_vi r)" "\<forall>f\<in>set fs. length f \<le> 1984"
    using del by (auto simp: delivers_def)
  let ?r = "r\<lparr>res_vi := vi', pkt_bufs := fold dma_write ?ws (pkt_bufs r)\<rparr>"
  have good: "\<forall>e\<in>set ?evs. good_rx e" by (auto simp: good_rx_def rx_event_fields)
  then have "filter completes ?evs = ?evs" by (auto simp: filter_id_conv good_rx_def completes_def)
  moreover have "poll_ok (res_vi r) 16 (?evs, vi', ?ws)"
    using driver_poll [OF drv, of "res_vi r" w] ok e by (simp add: res_ok_def)
  ultimately have "res_ok ?r (drop k free) (map (unat \<circ> EF_EVENT_RX_RQ_ID) ?evs)"
    using poll_moves_buffers [OF ok] by metis
  then obtain c' out where "run_loop (handle_event h) (c\<lparr>res := ?r\<rparr>) ?evs = Some (c', out, Continue)"
    "efvi_lines h (prev_ip_id c) (map (event_pkt ?r) ?evs) = Some (prev_ip_id c', out)"
    using handle_events_lines [OF h good, of "c\<lparr>res := ?r\<rparr>" "drop k free"] by auto
  then show ?thesis
    unfolding delivered_events [OF ok len] by (simp add: efvi_step_def poll_evq_def r e)
qed

section \<open>Properties\<close>

text \<open>
  C3.  In a turn of the event loop the client reports the frames the adapter delivered,
  in order and each exactly as it lies in the buffer it was written to: handling one
  packet, freeing its buffer and the writes into other buffers disturb none of the others,
  and the identification of the last report carries over to the next turn.
\<close>

theorem turn_reports_frames:
  assumes "driver_ok ops" "handler_ok h" "env_ok env" "efvi_reach (ops, h) env c0 c"
    and "refill_rx_ring ops (res c) = Some (r, refilled)" "delivers ops w (res_vi r) fs"
  shows "\<exists>c' out. efvi_step (ops, h) c w = Some (c', out, Continue) \<and>
    efvi_lines h (prev_ip_id c) (delivered r fs) = Some (prev_ip_id c', out)"
  using turn_lines [OF assms(1,2) _ assms(5,6)] reach_ok [OF assms(1-4)] by blast

lemma sample_delivers:
  assumes "0 < rx_fill vi"
  shows "\<exists>f. length f \<le> 65 \<and> delivers ring_driver [sample_frame] vi [f]"
proof -
  let ?f = "take (unat (vi_rx_buffer_len vi)) sample_frame"
  have "deliver vi 16 [sample_frame] = [?f]"
    using assms by (cases "rx_fill vi") (auto simp: deliver_def min_def)
  moreover have "length ?f \<le> 65" by (simp add: length_sample_frame)
  ultimately have "delivers ring_driver [sample_frame] vi [?f]"
    using assms by (simp add: delivers_def ring_driver_def Let_def)
  then show ?thesis using \<open>length ?f \<le> 65\<close> by blast
qed

theorem turn_reports_frames_witness:
  "\<exists>c r refilled f c' out. efvi_reach (ring_driver, quiet_handler) sample_env sample_client c \<and>
     refill_rx_ring ring_driver (res c) = Some (r, refilled) \<and>
     delivers ring_driver [sample_frame] (res_vi r) [f] \<and>
     efvi_step (ring_driver, quiet_handler) c [sample_frame] = Some (c', out, Continue) \<and>
     efvi_lines quiet_handler (prev_ip_id c) (delivered r [f]) = Some (prev_ip_id c', out)"
proof -
  obtain c where c: "efvi_reach (ring_driver, quiet_handler) sample_env sample_client c" "client_ready c"
    using sample_reach by blast
  have "client_ok c" using c(2) by (simp add: client_ready_def)
  then obtain free where free: "res_ok (res c) free []" by (auto simp: client_ok_def)
  have "int (length (pkt_bufs (res c))) = 48"
    using reach_ok [OF ring_driver_ok quiet_handler_ok sample_env_ok(1) c(1)] sample_capacity
    by (simp add: sample_env_def)
  then have "0 < rx_fill (res_vi (res c))"
    using c(2) receive_fill_level [of "res_vi (res c)"] free by (simp add: client_ready_def res_ok_def)
  moreover obtain r b k where r: "refill_rx_ring ring_driver (res c) = Some (r, b)"
    "rx_fill (res_vi r) = rx_fill (res_vi (res c)) + k"
    using refill_rx_ring_ok [OF ring_driver_ok free] by blast
  ultimately obtain f where f: "delivers ring_driver [sample_frame] (res_vi r) [f]"
    using sample_delivers [of "res_vi r"] by auto
  from turn_reports_frames [OF ring_driver_ok quiet_handler_ok sample_env_ok(1) c(1) r(1) f] c(1) r(1) f
  show ?thesis by blast
qed

text \<open>
  C8.  The packet handler of the ef_vi client is exactly this filter: of packets of at
  least sixty bytes, those with the IPv4 type, a header of twenty bytes, the UDP protocol
  and the destination 239.239.239.8, read at offsets 6, 8, 17 and 24 from the packet
  pointer, are decoded and reported with their IP identification and a gap warning; every
  other packet leaves no trace.  The second test on the frame, with its 802.1Q branch,
  never decides anything.
\<close>

theorem efvi_packet_filter:
  assumes "6 \<le> p" "p + 28 \<le> length mem"
  shows "handle_pkt h prev mem p len =
    (if efvi_wants mem p len
     then map_option (\<lambda>(b, line). (efvi_ip_id mem p, take (p - 6) mem @ b,
            gap_check prev (efvi_ip_id mem p) @ [Out line]))
          (dispatch (efvi_best_line (efvi_ip_id mem p)) (efvi_deep_line (efvi_ip_id mem p)) h
            (drop (p - 6) mem) (len - 36))
     else Some (prev, mem, []))"
proof (cases "efvi_wants mem p len")
  case True
  then show ?thesis using handle_pkt_wants [OF assms] by simp
next
  case False
  then show ?thesis using efvi_accepts_wants [OF assms(2), of len] by (simp add: handle_pkt_def)
qed

definition sample_packet :: "byte list" where
  "sample_packet = replicate 12 0 @ [8, 0, 0x45] @ replicate 3 0 @ [0, 7] @ replicate 3 0 @ [0x11] @
     replicate 6 0 @ [239, 239, 239, 8] @ replicate 31 0"

lemma sample_packet_wanted: "efvi_wants sample_packet 6 60" "efvi_ip_id sample_packet 6 = 7"
  "length sample_packet = 65"
  by (simp_all add: efvi_wants_def efvi_ip_id_def sample_packet_def group_bytes_def nth_append)

theorem efvi_packet_filter_witness:
  "handle_pkt quiet_handler 6 sample_packet 6 60 = Some (7, sample_packet, [Out (decode_err_line 24)]) \<and>
   handle_pkt quiet_handler 6 sample_packet 6 59 = Some (6, sample_packet, [])"
proof -
  have d: "dispatch (efvi_best_line 7) (efvi_deep_line 7) quiet_handler sample_packet 24 =
      Some (sample_packet, decode_err_line 24)"
    by (simp add: dispatch_def quiet_handler_def)
  have "handle_pkt quiet_handler 6 sample_packet 6 60 = Some (7, sample_packet, [Out (decode_err_line 24)])"
    using efvi_packet_filter [of 6 sample_packet quiet_handler 6 60] sample_packet_wanted d
    by (simp add: gap_check_def)
  moreover have "handle_pkt quiet_handler 6 sample_packet 6 59 = Some (6, sample_packet, [])"
    using efvi_packet_filter [of 6 sample_packet quiet_handler 6 59] sample_packet_wanted(3)
    by (simp add: efvi_wants_def)
  ultimately show ?thesis by blast
qed

text \<open>
  C9.  The packet pointer the client hands to its handler is the first byte behind the
  prefix, where the packet data starts; the handler takes it for a point six bytes into
  the frame.  An Ethernet frame that starts at the pointer is therefore ignored, although
  it belongs to the group, unless its source address happens to begin with 08:00.
\<close>

theorem efvi_frame_at_pointer_ignored:
  assumes "wire_group frame" "load (length frame) mem p = Some frame"
    and "take 2 (drop 6 frame) \<noteq> [0x08, 0x00]"
  shows "handle_pkt h prev mem p len = Some (prev, mem, [])"
proof -
  have len: "64 < length frame" using assms(1) by (simp add: wire_group_def)
  have f: "frame = take (length frame) (drop p mem)" "p + length frame \<le> length mem"
    using assms(2) by (auto simp: load_def split: if_splits)
  have nth: "frame ! i = mem ! (p + i)" if "i < length frame" for i
    using f that by (metis add_leD1 nth_drop nth_take)
  have "take 2 (drop 6 frame) = [frame ! 6, frame ! 7]"
    using load2 [of 6 frame] len by (simp add: load_def)
  then have "\<not> efvi_wants mem p len" using assms(3) nth [of 6] nth [of 7] len by (auto simp: efvi_wants_def)
  then show ?thesis using efvi_accepts_wants [of p mem len] f(2) len by (simp add: handle_pkt_def)
qed

theorem efvi_frame_at_pointer_ignored_witness:
  "wire_group sample_frame \<and>
   handle_pkt quiet_handler 6 (replicate 78 0 @ sample_frame) 78 65 = Some (6, replicate 78 0 @ sample_frame, [])"
proof -
  have "take 2 (drop 6 sample_frame) = [0, 0]" by (simp add: sample_frame_def) (simp add: numeral_2_eq_2)
  then show ?thesis
    using efvi_frame_at_pointer_ignored [OF sample_frame_group, of "replicate 78 0 @ sample_frame" 78]
      sample_frame_group by (simp add: load_def)
qed

end
