(* ===== verification/CiTools.thy ===== *)
theory CiTools
  imports Prelude
begin

text \<open>
  The arithmetic helpers of the adapter library's headers: powers of two
  (\<open>ci/tools/log2.h\<close>), alignment (\<open>ci/compat/utils.h\<close>) and comparison of sequence numbers
  (\<open>ci/tools/utils.h\<close>).  An \<open>unsigned long\<close> has 64 bits; shifting it by 64 or more is
  undefined behaviour, the value \<^term>\<open>None\<close>.
\<close>

section \<open>Powers of two\<close>

definition shl1 :: "u32 \<Rightarrow> u64 option" where
  "shl1 order = (if unat order < 64 then Some (push_bit (unat order) 1) else None)"

definition ci_pow2 :: "u32 \<Rightarrow> u64 option" where
  "ci_pow2 order = shl1 order"

definition CI_IS_POW2 :: "'a::len word \<Rightarrow> bool" where
  "CI_IS_POW2 x \<longleftrightarrow> x \<noteq> 0 \<and> x AND (x - 1) = 0"

text \<open>The loop shared by the three functions, up to the comparison that continues it.\<close>

function log2_loop :: "(u64 \<Rightarrow> bool) \<Rightarrow> u32 \<Rightarrow> u32 option" where
  "log2_loop go order =
     (case shl1 order of
        None \<Rightarrow> None
      | Some p \<Rightarrow> if go p then log2_loop go (order + 1) else Some order)"
  by pat_completeness auto

termination
proof (relation "measure (\<lambda>(go, order). 64 - unat order)")
  fix go :: "u64 \<Rightarrow> bool" and order :: u32 and p
  assume "shl1 order = Some p"
  then have "unat order < 64" by (auto simp: shl1_def split: if_splits)
  moreover from this have "unat (order + 1) = unat order + 1" by (simp add: unat_word_ariths)
  ultimately show "((go, order + 1), (go, order)) \<in> measure (\<lambda>(go, order). 64 - unat order)" by simp
qed simp

declare log2_loop.simps [simp del]

definition ci_log2_ge :: "u64 \<Rightarrow> u32 \<Rightarrow> u32 option" where
  "ci_log2_ge n min_order = log2_loop (\<lambda>p. p < n) min_order"

definition ci_log2_g :: "u64 \<Rightarrow> u32 \<Rightarrow> u32 option" where
  "ci_log2_g n min_order = log2_loop (\<lambda>p. p \<le> n) min_order"

definition ci_log2_le :: "u64 \<Rightarrow> u32 option" where
  "ci_log2_le n = map_option (\<lambda>order. order - 1) (log2_loop (\<lambda>p. p \<le> n) 1)"

section \<open>Alignment\<close>

text \<open>\<open>align\<close> is a power of two; sizes and offsets have 64 bits.\<close>

definition CI_ALIGN_FWD :: "u64 \<Rightarrow> u64 \<Rightarrow> u64" where
  "CI_ALIGN_FWD p align = (p + align - 1) AND NOT (align - 1)"

definition CI_ALIGN_BACK :: "u64 \<Rightarrow> u64 \<Rightarrow> u64" where
  "CI_ALIGN_BACK p align = p AND NOT (align - 1)"

definition CI_ALIGN_NEEDED :: "u64 \<Rightarrow> u64 \<Rightarrow> u64" where
  "CI_ALIGN_NEEDED p align = (- p) AND (align - 1)"

definition CI_OFFSET :: "u64 \<Rightarrow> u64 \<Rightarrow> u64" where
  "CI_OFFSET p align = p AND (align - 1)"

definition CI_FITS :: "u64 \<Rightarrow> u64 \<Rightarrow> u64 \<Rightarrow> bool" where
  "CI_FITS p sz align \<longleftrightarrow> sz \<le> CI_ALIGN_NEEDED (p + 1) align + 1"

definition CI_PTR_ALIGN_NEEDED_NZ :: "u64 \<Rightarrow> u64 \<Rightarrow> u64" where
  "CI_PTR_ALIGN_NEEDED_NZ p align = align - (p - CI_ALIGN_BACK p align)"

definition CI_ROUND_UP :: "u64 \<Rightarrow> u64 \<Rightarrow> u64" where
  "CI_ROUND_UP i align = (i + align - 1) AND NOT (align - 1)"

definition CI_ROUND_DOWN :: "u64 \<Rightarrow> u64 \<Rightarrow> u64" where
  "CI_ROUND_DOWN i align = i AND NOT (align - 1)"

definition CI_MIN :: "'a::linorder \<Rightarrow> 'a \<Rightarrow> 'a" where
  "CI_MIN x y = (if x < y then x else y)"

definition CI_MAX :: "'a::linorder \<Rightarrow> 'a \<Rightarrow> 'a" where
  "CI_MAX x y = (if x > y then x else y)"

section \<open>Sequence numbers\<close>

text \<open>Sequence numbers of the given number of bits, compared in 32-bit arithmetic.\<close>

definition ci_seq_eq :: "u32 \<Rightarrow> u32 \<Rightarrow> nat \<Rightarrow> bool" where
  "ci_seq_eq a b bits \<longleftrightarrow> (a - b) AND (push_bit bits 1 - 1) = 0"

definition ci_seq_neq :: "u32 \<Rightarrow> u32 \<Rightarrow> nat \<Rightarrow> bool" where
  "ci_seq_neq a b bits \<longleftrightarrow> (a - b) AND (push_bit bits 1 - 1) \<noteq> 0"

definition ci_seq_lt :: "u32 \<Rightarrow> u32 \<Rightarrow> nat \<Rightarrow> bool" where
  "ci_seq_lt a b bits \<longleftrightarrow> (a - b) AND push_bit (bits - 1) 1 \<noteq> 0"

definition ci_seq_gt :: "u32 \<Rightarrow> u32 \<Rightarrow> nat \<Rightarrow> bool" where
  "ci_seq_gt a b bits \<longleftrightarrow> ci_seq_lt b a bits"

definition ci_seq_le :: "u32 \<Rightarrow> u32 \<Rightarrow> nat \<Rightarrow> bool" where
  "ci_seq_le a b bits \<longleftrightarrow> \<not> ci_seq_lt b a bits"

definition ci_seq_ge :: "u32 \<Rightarrow> u32 \<Rightarrow> nat \<Rightarrow> bool" where
  "ci_seq_ge a b bits \<longleftrightarrow> \<not> ci_seq_lt a b bits"

definition ci_seqm_eq :: "u32 \<Rightarrow> u32 \<Rightarrow> u32 \<Rightarrow> bool" where
  "ci_seqm_eq a b m \<longleftrightarrow> (a - b) AND m = 0"

definition ci_seqm_neq :: "u32 \<Rightarrow> u32 \<Rightarrow> u32 \<Rightarrow> bool" where
  "ci_seqm_neq a b m \<longleftrightarrow> (a - b) AND m \<noteq> 0"

definition ci_seqm_lt :: "u32 \<Rightarrow> u32 \<Rightarrow> u32 \<Rightarrow> bool" where
  "ci_seqm_lt a b m \<longleftrightarrow> (a - b) AND drop_bit 1 (m + 1) \<noteq> 0"

definition ci_seqm_gt :: "u32 \<Rightarrow> u32 \<Rightarrow> u32 \<Rightarrow> bool" where
  "ci_seqm_gt a b m \<longleftrightarrow> ci_seqm_lt b a m"

definition ci_seqm_le :: "u32 \<Rightarrow> u32 \<Rightarrow> u32 \<Rightarrow> bool" where
  "ci_seqm_le a b m \<longleftrightarrow> \<not> ci_seqm_lt b a m"

definition ci_seqm_ge :: "u32 \<Rightarrow> u32 \<Rightarrow> u32 \<Rightarrow> bool" where
  "ci_seqm_ge a b m \<longleftrightarrow> \<not> ci_seqm_lt a b m"

definition ci_int32_lt :: "u32 \<Rightarrow> u32 \<Rightarrow> bool" where "ci_int32_lt a b \<longleftrightarrow> ci_seq_lt a b 32"
definition ci_int32_gt :: "u32 \<Rightarrow> u32 \<Rightarrow> bool" where "ci_int32_gt a b \<longleftrightarrow> ci_seq_gt a b 32"
definition ci_int32_le :: "u32 \<Rightarrow> u32 \<Rightarrow> bool" where "ci_int32_le a b \<longleftrightarrow> ci_seq_le a b 32"
definition ci_int32_ge :: "u32 \<Rightarrow> u32 \<Rightarrow> bool" where "ci_int32_ge a b \<longleftrightarrow> ci_seq_ge a b 32"

section \<open>Lemmas\<close>

lemma unat_push_bit_1: "k < 64 \<Longrightarrow> unat (push_bit k 1 :: u64) = 2 ^ k"
proof -
  assume k: "k < 64"
  then have "(2::nat) ^ k < 2 ^ 64" by (intro power_strict_increasing) simp_all
  then show ?thesis
    by (simp only: unsigned_push_bit_eq) (use k in \<open>simp add: push_bit_eq_mult take_bit_eq_mod\<close>)
qed

lemma log2_loop_least:
  fixes order :: u32
  assumes "unat order \<le> k" "k < 64" "\<not> go (push_bit k 1)" "\<And>j. unat order \<le> j \<Longrightarrow> j < k \<Longrightarrow> go (push_bit j 1)"
  shows "log2_loop go order = Some (of_nat k)"
  using assms
proof (induction "k - unat order" arbitrary: order)
  case 0
  then have "unat order = k" by simp
  then have "order = of_nat k" "unat (of_nat k :: u32) = k" by auto
  with 0 show ?case by (simp add: log2_loop.simps shl1_def)
next
  case (Suc d)
  have o: "unat (order + 1) = unat order + 1" using Suc.prems Suc.hyps by (simp add: unat_word_ariths)
  then have "log2_loop go (order + 1) = Some (of_nat k)"
    using Suc by (intro Suc.hyps(1)) auto
  moreover have "go (push_bit (unat order) 1)" using Suc.prems(4) [of "unat order"] Suc.hyps by simp
  ultimately show ?case using Suc by (simp add: log2_loop.simps [of go order] shl1_def)
qed

lemma log2_loop_undefined:
  assumes "\<And>j. unat order \<le> j \<Longrightarrow> j < 64 \<Longrightarrow> go (push_bit j 1)"
  shows "log2_loop go order = None"
  using assms
proof (induction "64 - unat order" arbitrary: order)
  case 0
  then show ?case by (simp add: log2_loop.simps shl1_def)
next
  case (Suc d)
  have o: "unat (order + 1) = unat order + 1" using Suc.hyps by (simp add: unat_word_ariths)
  then have "log2_loop go (order + 1) = None" using Suc by (intro Suc.hyps(1)) auto
  moreover have "go (push_bit (unat order) 1)" using Suc.prems [of "unat order"] Suc.hyps by simp
  ultimately show ?case using Suc.hyps by (simp add: log2_loop.simps [of go order] shl1_def)
qed

lemma word_less_pow2: "k < 64 \<Longrightarrow> 2 ^ k < (n :: u64) \<longleftrightarrow> 2 ^ k < unat n"
  using unat_push_bit_1 [of k] by (simp add: word_less_nat_alt)

lemma word_le_pow2: "k < 64 \<Longrightarrow> 2 ^ k \<le> (n :: u64) \<longleftrightarrow> 2 ^ k \<le> unat n"
  using unat_push_bit_1 [of k] by (simp add: word_le_nat_alt)

text \<open>The least number from \<open>m\<close> on with a property: what each loop looks for.\<close>

definition least_from :: "nat \<Rightarrow> (nat \<Rightarrow> bool) \<Rightarrow> nat \<Rightarrow> bool" where
  "least_from m P k \<longleftrightarrow> m \<le> k \<and> P k \<and> (\<forall>j. m \<le> j \<and> j < k \<longrightarrow> \<not> P j)"

lemma log2_loop_exact:
  assumes go: "\<And>j. j < 64 \<Longrightarrow> go (push_bit j 1) \<longleftrightarrow> \<not> P j" and mono: "\<And>j. j < 64 \<Longrightarrow> P j \<Longrightarrow> P 63"
  shows "if unat order < 64 \<and> P 63
    then \<exists>k < 64. log2_loop go order = Some (of_nat k) \<and> least_from (unat order) P k
    else log2_loop go order = None"
proof (cases "unat order < 64 \<and> P 63")
  case True
  define k where "k = (LEAST k. unat order \<le> k \<and> P k)"
  have "unat order \<le> 63 \<and> P 63" using True by simp
  then have k: "unat order \<le> k \<and> P k" "k \<le> 63" unfolding k_def by (rule LeastI, rule Least_le)
  have least: "\<not> P j" if "unat order \<le> j" "j < k" for j
    using not_less_Least [of j "\<lambda>k. unat order \<le> k \<and> P k"] that by (simp add: k_def)
  have "log2_loop go order = Some (of_nat k)" by (rule log2_loop_least) (use k least go in auto)
  moreover have "least_from (unat order) P k" using k least by (simp add: least_from_def)
  ultimately show ?thesis using True k(2) by (auto intro: exI [of _ k])
next
  case False
  have "log2_loop go order = None" by (rule log2_loop_undefined) (use False go mono in force)
  then show ?thesis using False by simp
qed

lemma pow2_le_63: "j < 64 \<Longrightarrow> (2::nat) ^ j \<le> 2 ^ 63"
  by (intro power_increasing) auto

lemma log2_ge_exact: "if unat m < 64 \<and> unat n \<le> 2 ^ 63
    then \<exists>k < 64. ci_log2_ge n m = Some (of_nat k) \<and> least_from (unat m) (\<lambda>k. unat n \<le> 2 ^ k) k
    else ci_log2_ge n m = None"
  unfolding ci_log2_ge_def
proof (rule log2_loop_exact)
  show "push_bit j 1 < n \<longleftrightarrow> \<not> unat n \<le> 2 ^ j" if "j < 64" for j using that by (simp add: word_less_pow2 not_le)
  show "unat n \<le> 2 ^ 63" if "j < 64" "unat n \<le> 2 ^ j" for j using that(2) pow2_le_63 [OF that(1)] by linarith
qed

lemma log2_g_exact: "if unat m < 64 \<and> unat n < 2 ^ 63
    then \<exists>k < 64. ci_log2_g n m = Some (of_nat k) \<and> least_from (unat m) (\<lambda>k. unat n < 2 ^ k) k
    else ci_log2_g n m = None"
  unfolding ci_log2_g_def
proof (rule log2_loop_exact)
  show "push_bit j 1 \<le> n \<longleftrightarrow> \<not> unat n < 2 ^ j" if "j < 64" for j using that by (simp add: word_le_pow2 not_less)
  show "unat n < 2 ^ 63" if "j < 64" "unat n < 2 ^ j" for j using that(2) pow2_le_63 [OF that(1)] by linarith
qed

lemma log2_le_g: "ci_log2_le n = map_option (\<lambda>order. order - 1) (ci_log2_g n 1)"
  by (simp add: ci_log2_le_def ci_log2_g_def)

section \<open>Sequence comparison\<close>

lemma and_push_bit_1: "x AND push_bit k 1 \<noteq> 0 \<longleftrightarrow> bit (x :: u32) k"
  by (simp only: bit_iff_and_push_bit_not_eq_0)

lemma top_digit: "a = p * q + r \<Longrightarrow> r < p \<Longrightarrow> q < 2 \<Longrightarrow> p \<le> a \<longleftrightarrow> q = (1 :: nat)"
  by (auto simp: less_2_cases_iff)

lemma top_bit_iff:
  assumes "0 < n"
  shows "bit (x :: u32) (n - 1) \<longleftrightarrow> n \<le> 32 \<and> 2 ^ (n - 1) \<le> unat x mod 2 ^ n"
proof -
  obtain m where n: "n = Suc m" using assms by (cases n) auto
  have "bit x m \<longleftrightarrow> m < 32 \<and> odd (unat x div 2 ^ m)"
    using bit_imp_le_length [of x m] by (auto simp: bit_unsigned_iff simp flip: bit_iff_odd)
  also have "odd (unat x div 2 ^ m) \<longleftrightarrow> 2 ^ m \<le> unat x mod 2 ^ Suc m"
  proof -
    have "unat x mod (2 ^ m * 2) = 2 ^ m * (unat x div 2 ^ m mod 2) + unat x mod 2 ^ m"
      by (rule mod_mult2_eq)
    from top_digit [OF this] show ?thesis
      by (simp add: odd_iff_mod_2_eq_one mult.commute)
  qed
  finally show ?thesis by (auto simp: n Suc_le_eq)
qed

lemma ci_seq_lt_iff:
  assumes "0 < n" "n \<le> 32"
  shows "ci_seq_lt a b n \<longleftrightarrow> 2 ^ (n - 1) \<le> unat (a - b) mod 2 ^ n"
  using assms top_bit_iff [of n "a - b"] by (simp only: ci_seq_lt_def and_push_bit_1) simp

lemma ci_seq_order:
  fixes a :: u32
  assumes n: "0 < n" "n \<le> 32" and k: "0 < k" "k < 2 ^ (n - 1)"
  shows "ci_seq_lt a (a + of_nat k) n" "\<not> ci_seq_lt (a + of_nat k) a n"
proof -
  have p: "(2::nat) ^ (n - 1) + 2 ^ (n - 1) = 2 ^ n" using n by (cases n) auto
  have le: "(2::nat) ^ n \<le> 2 ^ 32" using n by (intro power_increasing) auto
  have kk: "unat (of_nat k :: u32) = k" using k p le by (simp add: unat_of_nat)
  let ?m = "unat (- of_nat k :: u32)"
  have "(?m + k) mod 2 ^ 32 = unat (- of_nat k + of_nat k :: u32)"
    by (simp only: unat_word_ariths kk) simp
  then have "(?m + k) mod 2 ^ 32 = 0" by simp
  moreover have "?m < 2 ^ 32" using unsigned_less [where w = "- of_nat k :: u32"] by simp
  moreover have "k < 2 ^ 32" using k(2) p le by linarith
  ultimately have m: "?m + k = 2 ^ 32" using k(1) by (auto elim!: dvdE simp: mod_eq_0_iff_dvd)
  have "?m mod 2 ^ n = 2 ^ n - k"
  proof -
    obtain q where q: "(2::nat) ^ 32 = 2 ^ n * q" using n(2) by (metis dvdE le_imp_power_dvd)
    then obtain q' where "q = Suc q'" by (cases q) auto
    with q m k(2) p have "?m = (2 ^ n - k) + 2 ^ n * q'" by simp
    moreover have "2 ^ n - k < 2 ^ n" using k p by simp
    ultimately show ?thesis by simp
  qed
  then show "ci_seq_lt a (a + of_nat k) n" using n k p by (simp add: ci_seq_lt_iff)
  have "k mod 2 ^ n = k" using k p by simp
  then show "\<not> ci_seq_lt (a + of_nat k) a n" using n k kk by (simp add: ci_seq_lt_iff)
qed

section \<open>Powers of two\<close>

lemma nat_pow2_if_and: "0 < n \<Longrightarrow> n AND (n - 1) = 0 \<Longrightarrow> \<exists>k. n = (2::nat) ^ k"
proof (induction n rule: less_induct)
  case (less n)
  show ?case
  proof (cases "even n")
    case True
    then obtain m where m: "n = 2 * m" by (elim evenE)
    then have "(n - 1) div 2 = m - 1" using less.prems(1) by simp
    then have "n AND (n - 1) = 2 * (m AND (m - 1))" using m by (subst and_nat_rec) simp
    then have "m AND (m - 1) = 0" "0 < m" "m < n" using less.prems m by auto
    then obtain k where "m = 2 ^ k" using less.IH by blast
    then have "n = 2 ^ Suc k" by (simp add: m)
    then show ?thesis ..
  next
    case False
    then have "even (n - 1)" "(n - 1) div 2 = n div 2" using less.prems(1) by (auto elim!: oddE)
    then have "n AND (n - 1) = 2 * (n div 2)" by (subst and_nat_rec) simp
    then have "n = 2 ^ 0" using less.prems False by (auto elim!: oddE)
    then show ?thesis ..
  qed
qed

lemma CI_IS_POW2_pow2:
  assumes "CI_IS_POW2 (x :: u32)"
  shows "\<exists>k<32. x = 2 ^ k"
proof -
  have x: "x \<noteq> 0" "x AND (x - 1) = 0" using assms by (auto simp: CI_IS_POW2_def)
  then have "unat (x - 1) = unat x - 1" by (simp add: unat_minus_one)
  then have "unat x AND (unat x - 1) = 0" using x(2) by (metis unsigned_and_eq unsigned_0)
  moreover have "0 < unat x" using x(1) by (simp add: unat_gt_0)
  ultimately obtain k where k: "unat x = 2 ^ k" using nat_pow2_if_and by blast
  moreover have "unat x < 2 ^ 32" using unsigned_less [where w = x] by simp
  ultimately have "(2::nat) ^ k < 2 ^ 32" by (simp only:)
  then have "k < 32" by (rule power_less_imp_less_exp [rotated]) simp
  moreover have "of_nat (unat x) = (of_nat (2 ^ k) :: u32)" by (simp only: k)
  then have "x = 2 ^ k" by simp
  ultimately show ?thesis by blast
qed

section \<open>Properties\<close>

text \<open>
  C25.  The order functions return the order their comments promise whenever an
  \<open>unsigned long\<close> has it.  \<open>ci_log2_ge\<close> gives the least order from the given minimum on whose
  power is at least the number, and does so exactly when the minimum is below 64 and the
  number at most 2^63; \<open>ci_log2_g\<close> gives the least one whose power is greater, exactly when
  the minimum is below 64 and the number below 2^63; \<open>ci_log2_le\<close> gives the position of
  the leading bit, and zero for zero, exactly when the number is below 2^63.  In every other
  case the loop reaches a shift by 64 or more, which is undefined.
\<close>

theorem log2_returns:
  "(if unat m < 64 \<and> unat n \<le> 2 ^ 63
    then \<exists>k < 64. ci_log2_ge n m = Some (of_nat k) \<and> least_from (unat m) (\<lambda>k. unat n \<le> 2 ^ k) k
    else ci_log2_ge n m = None) \<and>
   (if unat m < 64 \<and> unat n < 2 ^ 63
    then \<exists>k < 64. ci_log2_g n m = Some (of_nat k) \<and> least_from (unat m) (\<lambda>k. unat n < 2 ^ k) k
    else ci_log2_g n m = None) \<and>
   (if unat n < 2 ^ 63
    then \<exists>k < 63. ci_log2_le n = Some (of_nat k) \<and> unat n < 2 ^ (k + 1) \<and> (if n = 0 then k = 0 else 2 ^ k \<le> unat n)
    else ci_log2_le n = None)"
proof (intro conjI log2_ge_exact log2_g_exact, cases "unat n < 2 ^ 63")
  case True
  then obtain k where k: "k < 64" "ci_log2_g n 1 = Some (of_nat k)" "1 \<le> k" "unat n < 2 ^ k" "\<forall>j. 1 \<le> j \<and> j < k \<longrightarrow> \<not> unat n < 2 ^ j"
    using log2_g_exact [of 1 n] by (auto simp: least_from_def)
  have "2 ^ (k - 1) \<le> unat n" if "n \<noteq> 0"
  proof (cases "k = 1")
    case True
    then show ?thesis using that by (simp add: Suc_le_eq unat_gt_0)
  qed (use k(3) spec [OF k(5), of "k - 1"] in auto)
  moreover have "(2::nat) * 2 ^ (k - 1) = 2 ^ k" using k(3) by (simp flip: power_Suc)
  moreover have "k = 1" if "n = 0" using spec [OF k(5), of 1] k(3) that by auto
  ultimately show "if unat n < 2 ^ 63
    then \<exists>k < 63. ci_log2_le n = Some (of_nat k) \<and> unat n < 2 ^ (k + 1) \<and> (if n = 0 then k = 0 else 2 ^ k \<le> unat n)
    else ci_log2_le n = None" using True k by (auto simp: log2_le_g of_nat_diff intro!: exI [of _ "k - 1"])
qed (use log2_g_exact [of 1 n] in \<open>simp add: log2_le_g\<close>)

theorem log2_returns_witness:
  "(\<exists>k < 64. ci_log2_ge 1500 4 = Some (of_nat k) \<and> least_from 4 (\<lambda>k. 1500 \<le> (2::nat) ^ k) k) \<and> ci_log2_le (2 ^ 63) = None"
  using log2_returns [of 4 1500] log2_returns [of 4 "2 ^ 63"] by simp

end
