(* ===== verification/CiFifo.thy ===== *)
theory CiFifo
  imports CiTools
begin

text \<open>
  The two circular buffers of \<open>ci/tools/fifo.h\<close>: \<open>ci_fifo\<close>, whose indices are kept below
  the buffer size, and \<open>ci_fifo2\<close>, whose 32-bit indices run freely and are masked.  Every
  macro is a function on the structure it is used with.  The locale \<open>bounded_queue\<close> is
  what a user of either relies on; both are interpretations of it.
\<close>

section \<open>Bounded queues\<close>

datatype 'a queue_op = Put 'a | Get

text \<open>The specification: a list of bounded length; \<^term>\<open>None\<close> is a misuse.\<close>

fun queue_spec :: "nat \<Rightarrow> 'a list \<Rightarrow> 'a queue_op list \<Rightarrow> ('a list \<times> 'a list) option" where
  "queue_spec cap q [] = Some ([], q)"
| "queue_spec cap q (Put v # ops) = (if length q < cap then queue_spec cap (q @ [v]) ops else None)"
| "queue_spec cap [] (Get # ops) = None"
| "queue_spec cap (v # q) (Get # ops) = map_option (\<lambda>(outs, q'). (v # outs, q')) (queue_spec cap q ops)"

fun queue_run :: "('a \<Rightarrow> 'q \<Rightarrow> 'q option) \<Rightarrow> ('q \<Rightarrow> ('a \<times> 'q) option) \<Rightarrow> 'q \<Rightarrow> 'a queue_op list \<Rightarrow>
    ('a list \<times> 'q) option" where
  "queue_run put get q [] = Some ([], q)"
| "queue_run put get q (Put v # ops) = do {
     q \<leftarrow> put v q;
     queue_run put get q ops
   }"
| "queue_run put get q (Get # ops) = do {
     (v, q) \<leftarrow> get q;
     (outs, q) \<leftarrow> queue_run put get q ops;
     Some (v # outs, q)
   }"

lemma queue_spec_mono: "queue_spec c q ops = Some r \<Longrightarrow> c \<le> c' \<Longrightarrow> queue_spec c' q ops = Some r"
  by (induction c q ops arbitrary: r rule: queue_spec.induct) (auto split: if_splits)

locale bounded_queue =
  fixes contents :: "'q \<Rightarrow> 'a list" and ok :: "'q \<Rightarrow> bool" and cap :: "'q \<Rightarrow> nat"
    and put :: "'a \<Rightarrow> 'q \<Rightarrow> 'q option" and get :: "'q \<Rightarrow> ('a \<times> 'q) option"
  assumes put_ok: "ok q \<Longrightarrow> length (contents q) < cap q \<Longrightarrow>
      \<exists>q'. put v q = Some q' \<and> ok q' \<and> contents q' = contents q @ [v] \<and> cap q' = cap q"
    and get_ok: "ok q \<Longrightarrow> contents q = v # vs \<Longrightarrow>
      \<exists>q'. get q = Some (v, q') \<and> ok q' \<and> contents q' = vs \<and> cap q' = cap q"
begin

lemma run_spec:
  "ok q \<Longrightarrow> queue_spec (cap q) (contents q) ops = Some (outs, xs) \<Longrightarrow>
   \<exists>q'. queue_run put get q ops = Some (outs, q') \<and> ok q' \<and> contents q' = xs \<and> cap q' = cap q"
proof (induction ops arbitrary: q outs)
  case (Cons p ops)
  show ?case
  proof (cases p)
    case (Put v)
    with Cons.prems have room: "length (contents q) < cap q"
      and rest: "queue_spec (cap q) (contents q @ [v]) ops = Some (outs, xs)"
      by (auto split: if_splits)
    obtain q1 where q1: "put v q = Some q1" "ok q1" "contents q1 = contents q @ [v]" "cap q1 = cap q"
      using put_ok [OF Cons.prems(1) room] by blast
    then show ?thesis using Cons.IH [of q1 outs] rest Put by auto
  next
    case Get
    then obtain v vs outs' where c: "contents q = v # vs" "outs = v # outs'"
      "queue_spec (cap q) vs ops = Some (outs', xs)"
      using Cons.prems(2) by (cases "contents q") auto
    obtain q1 where q1: "get q = Some (v, q1)" "ok q1" "contents q1 = vs" "cap q1 = cap q"
      using get_ok [OF Cons.prems(1) c(1)] by blast
    then show ?thesis using Cons.IH [of q1 outs'] c Get by auto
  qed
qed simp

end

section \<open>Fifos with indices below the size\<close>

record 'a ci_fifo =
  fifo_size :: u32
  fifo_rd_i :: u32
  fifo_wr_i :: u32
  fifo :: "'a list"

definition CI_FIFO_M :: "'a ci_fifo \<Rightarrow> u32 \<Rightarrow> u32" where
  "CI_FIFO_M f x = x mod fifo_size f"

definition ci_fifo_valid :: "'a ci_fifo \<Rightarrow> bool" where
  "ci_fifo_valid f \<longleftrightarrow> 1 < fifo_size f \<and> fifo_rd_i f < fifo_size f \<and> fifo_wr_i f < fifo_size f"

definition ci_fifo_init :: "'a ci_fifo \<Rightarrow> u32 \<Rightarrow> 'a ci_fifo" where
  "ci_fifo_init f capacity = f\<lparr>fifo_rd_i := 0, fifo_wr_i := 0, fifo_size := capacity + 1\<rparr>"

text \<open>The allocator gives the array or nothing; a failing assertion is \<^term>\<open>None\<close>.\<close>

definition ci_fifo_ctor :: "(nat \<Rightarrow> 'a list option) \<Rightarrow> 'a ci_fifo \<Rightarrow> u32 \<Rightarrow> ('a ci_fifo \<times> int) option" where
  "ci_fifo_ctor ci_alloc f capacity =
     (let f' = ci_fifo_init f capacity
      in case ci_alloc (unat (capacity + 1)) of
           None \<Rightarrow> Some (f', - 12)
         | Some mem \<Rightarrow> if ci_fifo_valid f' then Some (f'\<lparr>fifo := mem\<rparr>, 0) else None)"

definition ci_fifo_is_empty :: "'a ci_fifo \<Rightarrow> bool" where
  "ci_fifo_is_empty f \<longleftrightarrow> fifo_rd_i f = fifo_wr_i f"

definition ci_fifo_not_empty :: "'a ci_fifo \<Rightarrow> bool" where
  "ci_fifo_not_empty f \<longleftrightarrow> fifo_rd_i f \<noteq> fifo_wr_i f"

definition ci_fifo_is_full :: "'a ci_fifo \<Rightarrow> bool" where
  "ci_fifo_is_full f \<longleftrightarrow> CI_FIFO_M f (fifo_wr_i f + 1) = fifo_rd_i f"

definition ci_fifo_not_full :: "'a ci_fifo \<Rightarrow> bool" where
  "ci_fifo_not_full f \<longleftrightarrow> CI_FIFO_M f (fifo_wr_i f + 1) \<noteq> fifo_rd_i f"

definition ci_fifo_num :: "'a ci_fifo \<Rightarrow> u32" where
  "ci_fifo_num f = CI_FIFO_M f (fifo_wr_i f + fifo_size f - fifo_rd_i f)"

definition ci_fifo_space :: "'a ci_fifo \<Rightarrow> u32" where
  "ci_fifo_space f = CI_FIFO_M f (fifo_rd_i f + fifo_size f - fifo_wr_i f - 1)"

definition ci_fifo_buf_size :: "'a ci_fifo \<Rightarrow> u32" where
  "ci_fifo_buf_size f = fifo_size f"

definition ci_fifo_capacity :: "'a ci_fifo \<Rightarrow> u32" where
  "ci_fifo_capacity f = fifo_size f - 1"

text \<open>Reading and writing an element; outside the array it is undefined.\<close>

definition fifo_at :: "'a list \<Rightarrow> u32 \<Rightarrow> 'a option" where
  "fifo_at xs i = (if unat i < length xs then Some (xs ! unat i) else None)"

definition fifo_upd :: "'a list \<Rightarrow> u32 \<Rightarrow> 'a \<Rightarrow> 'a list option" where
  "fifo_upd xs i v = (if unat i < length xs then Some (xs[unat i := v]) else None)"

definition ci_fifo_peek :: "'a ci_fifo \<Rightarrow> 'a option" where
  "ci_fifo_peek f = fifo_at (fifo f) (fifo_rd_i f)"

definition ci_fifo_poke :: "'a ci_fifo \<Rightarrow> 'a \<Rightarrow> 'a ci_fifo option" where
  "ci_fifo_poke f v = map_option (\<lambda>m. f\<lparr>fifo := m\<rparr>) (fifo_upd (fifo f) (fifo_wr_i f) v)"

definition ci_fifo_peek_i :: "'a ci_fifo \<Rightarrow> u32 \<Rightarrow> 'a option" where
  "ci_fifo_peek_i f i = fifo_at (fifo f) (CI_FIFO_M f (fifo_rd_i f + i))"

definition ci_fifo_poke_i :: "'a ci_fifo \<Rightarrow> u32 \<Rightarrow> 'a \<Rightarrow> 'a ci_fifo option" where
  "ci_fifo_poke_i f i v = map_option (\<lambda>m. f\<lparr>fifo := m\<rparr>) (fifo_upd (fifo f) (CI_FIFO_M f (fifo_wr_i f + i)) v)"

definition ci_fifo_rd_next :: "'a ci_fifo \<Rightarrow> 'a ci_fifo" where
  "ci_fifo_rd_next f = f\<lparr>fifo_rd_i := CI_FIFO_M f (fifo_rd_i f + 1)\<rparr>"

definition ci_fifo_wr_next :: "'a ci_fifo \<Rightarrow> 'a ci_fifo" where
  "ci_fifo_wr_next f = f\<lparr>fifo_wr_i := CI_FIFO_M f (fifo_wr_i f + 1)\<rparr>"

definition ci_fifo_rd_adv :: "'a ci_fifo \<Rightarrow> u32 \<Rightarrow> 'a ci_fifo" where
  "ci_fifo_rd_adv f n = f\<lparr>fifo_rd_i := CI_FIFO_M f (fifo_rd_i f + n)\<rparr>"

definition ci_fifo_wr_adv :: "'a ci_fifo \<Rightarrow> u32 \<Rightarrow> 'a ci_fifo" where
  "ci_fifo_wr_adv f n = f\<lparr>fifo_wr_i := CI_FIFO_M f (fifo_wr_i f + n)\<rparr>"

definition ci_fifo_wr_retreat :: "'a ci_fifo \<Rightarrow> u32 \<Rightarrow> 'a ci_fifo" where
  "ci_fifo_wr_retreat f n = f\<lparr>fifo_wr_i := CI_FIFO_M f (fifo_wr_i f + fifo_size f - n)\<rparr>"

definition ci_fifo_put :: "'a \<Rightarrow> 'a ci_fifo \<Rightarrow> 'a ci_fifo option" where
  "ci_fifo_put v f = map_option ci_fifo_wr_next (ci_fifo_poke f v)"

definition ci_fifo_get :: "'a ci_fifo \<Rightarrow> ('a \<times> 'a ci_fifo) option" where
  "ci_fifo_get f = map_option (\<lambda>v. (v, ci_fifo_rd_next f)) (ci_fifo_peek f)"

definition ci_fifo_contig_num :: "'a ci_fifo \<Rightarrow> u32" where
  "ci_fifo_contig_num f =
     (if fifo_rd_i f \<le> fifo_wr_i f then fifo_wr_i f - fifo_rd_i f else fifo_size f - fifo_rd_i f)"

definition ci_fifo_contig_space :: "'a ci_fifo \<Rightarrow> u32" where
  "ci_fifo_contig_space f =
     (if fifo_wr_i f < fifo_rd_i f then fifo_rd_i f - fifo_wr_i f - 1
      else fifo_size f - fifo_wr_i f - (if fifo_rd_i f = 0 then 1 else 0))"

section \<open>Fifos with a power-of-two buffer\<close>

record 'a ci_fifo2 =
  fifo2 :: "'a list"
  fifo_mask :: u32
  fifo2_rd :: u32
  fifo2_wr :: u32

definition CI_FIFO2_M :: "'a ci_fifo2 \<Rightarrow> u32 \<Rightarrow> u32" where
  "CI_FIFO2_M f x = x AND fifo_mask f"

definition ci_fifo2_rd_i :: "'a ci_fifo2 \<Rightarrow> u32" where
  "ci_fifo2_rd_i f = CI_FIFO2_M f (fifo2_rd f)"

definition ci_fifo2_wr_i :: "'a ci_fifo2 \<Rightarrow> u32" where
  "ci_fifo2_wr_i f = CI_FIFO2_M f (fifo2_wr f)"

definition ci_fifo2_num :: "'a ci_fifo2 \<Rightarrow> u32" where
  "ci_fifo2_num f = fifo2_wr f - fifo2_rd f"

definition ci_fifo2_capacity :: "'a ci_fifo2 \<Rightarrow> u32" where
  "ci_fifo2_capacity f = fifo_mask f + 1"

definition ci_fifo2_space :: "'a ci_fifo2 \<Rightarrow> u32" where
  "ci_fifo2_space f = ci_fifo2_capacity f - ci_fifo2_num f"

definition ci_fifo2_buf_size :: "'a ci_fifo2 \<Rightarrow> u32" where
  "ci_fifo2_buf_size f = fifo_mask f + 1"

text \<open>The comparison with the unsigned capacity converts the signed count back.\<close>

definition ci_fifo2_valid :: "'a ci_fifo2 \<Rightarrow> bool" where
  "ci_fifo2_valid f \<longleftrightarrow> CI_IS_POW2 (fifo_mask f + 1) \<and> 0 \<le> sint (ci_fifo2_num f) \<and>
     ci_fifo2_num f \<le> ci_fifo2_capacity f"

definition ci_fifo2_init :: "'a ci_fifo2 \<Rightarrow> u32 \<Rightarrow> 'a ci_fifo2 option" where
  "ci_fifo2_init f capacity =
     (if CI_IS_POW2 capacity then Some (f\<lparr>fifo2_rd := 0, fifo2_wr := 0, fifo_mask := capacity - 1\<rparr>) else None)"

definition ci_fifo2_ctor :: "(nat \<Rightarrow> 'a list option) \<Rightarrow> 'a ci_fifo2 \<Rightarrow> u32 \<Rightarrow> ('a ci_fifo2 \<times> int) option" where
  "ci_fifo2_ctor ci_alloc f capacity = do {
     f' \<leftarrow> ci_fifo2_init f capacity;
     (case ci_alloc (unat capacity) of
        None \<Rightarrow> Some (f', - 12)
      | Some mem \<Rightarrow> if ci_fifo2_valid f' then Some (f'\<lparr>fifo2 := mem\<rparr>, 0) else None)
   }"

definition ci_fifo2_is_empty :: "'a ci_fifo2 \<Rightarrow> bool" where
  "ci_fifo2_is_empty f \<longleftrightarrow> fifo2_rd f = fifo2_wr f"

definition ci_fifo2_not_empty :: "'a ci_fifo2 \<Rightarrow> bool" where
  "ci_fifo2_not_empty f \<longleftrightarrow> fifo2_rd f \<noteq> fifo2_wr f"

definition ci_fifo2_is_full :: "'a ci_fifo2 \<Rightarrow> bool" where
  "ci_fifo2_is_full f \<longleftrightarrow> ci_fifo2_num f = ci_fifo2_capacity f"

definition ci_fifo2_not_full :: "'a ci_fifo2 \<Rightarrow> bool" where
  "ci_fifo2_not_full f \<longleftrightarrow> ci_fifo2_num f \<noteq> ci_fifo2_capacity f"

definition ci_fifo2_peek :: "'a ci_fifo2 \<Rightarrow> 'a option" where
  "ci_fifo2_peek f = fifo_at (fifo2 f) (ci_fifo2_rd_i f)"

definition ci_fifo2_poke :: "'a ci_fifo2 \<Rightarrow> 'a \<Rightarrow> 'a ci_fifo2 option" where
  "ci_fifo2_poke f v = map_option (\<lambda>m. f\<lparr>fifo2 := m\<rparr>) (fifo_upd (fifo2 f) (ci_fifo2_wr_i f) v)"

definition ci_fifo2_peek_i :: "'a ci_fifo2 \<Rightarrow> u32 \<Rightarrow> 'a option" where
  "ci_fifo2_peek_i f i = fifo_at (fifo2 f) (CI_FIFO2_M f (fifo2_rd f + i))"

definition ci_fifo2_poke_i :: "'a ci_fifo2 \<Rightarrow> u32 \<Rightarrow> 'a \<Rightarrow> 'a ci_fifo2 option" where
  "ci_fifo2_poke_i f i v = map_option (\<lambda>m. f\<lparr>fifo2 := m\<rparr>) (fifo_upd (fifo2 f) (CI_FIFO2_M f (fifo2_wr f + i)) v)"

definition ci_fifo2_rd_next :: "'a ci_fifo2 \<Rightarrow> 'a ci_fifo2" where
  "ci_fifo2_rd_next f = f\<lparr>fifo2_rd := fifo2_rd f + 1\<rparr>"

definition ci_fifo2_wr_next :: "'a ci_fifo2 \<Rightarrow> 'a ci_fifo2" where
  "ci_fifo2_wr_next f = f\<lparr>fifo2_wr := fifo2_wr f + 1\<rparr>"

definition ci_fifo2_rd_adv :: "'a ci_fifo2 \<Rightarrow> u32 \<Rightarrow> 'a ci_fifo2" where
  "ci_fifo2_rd_adv f n = f\<lparr>fifo2_rd := fifo2_rd f + n\<rparr>"

definition ci_fifo2_wr_adv :: "'a ci_fifo2 \<Rightarrow> u32 \<Rightarrow> 'a ci_fifo2" where
  "ci_fifo2_wr_adv f n = f\<lparr>fifo2_wr := fifo2_wr f + n\<rparr>"

definition ci_fifo2_put :: "'a \<Rightarrow> 'a ci_fifo2 \<Rightarrow> 'a ci_fifo2 option" where
  "ci_fifo2_put v f = map_option ci_fifo2_wr_next (ci_fifo2_poke f v)"

definition ci_fifo2_get :: "'a ci_fifo2 \<Rightarrow> ('a \<times> 'a ci_fifo2) option" where
  "ci_fifo2_get f = map_option (\<lambda>v. (v, ci_fifo2_rd_next f)) (ci_fifo2_peek f)"

definition ci_fifo_min :: "u32 \<Rightarrow> u32 \<Rightarrow> u32" where
  "ci_fifo_min a b = (if a < b then a else b)"

definition ci_fifo2_contig_num :: "'a ci_fifo2 \<Rightarrow> u32" where
  "ci_fifo2_contig_num f = ci_fifo_min (ci_fifo2_num f) (fifo_mask f + 1 - ci_fifo2_rd_i f)"

definition ci_fifo2_contig_space :: "'a ci_fifo2 \<Rightarrow> u32" where
  "ci_fifo2_contig_space f = ci_fifo_min (ci_fifo2_space f) (fifo_mask f + 1 - ci_fifo2_wr_i f)"

section \<open>Contents and invariants\<close>

text \<open>The elements of a ring of the given size from an index on.\<close>

definition ring_list :: "'a list \<Rightarrow> nat \<Rightarrow> nat \<Rightarrow> 'a list" where
  "ring_list buf start n = map (\<lambda>k. buf ! ((start + k) mod length buf)) [0..<n]"

lemma length_ring_list [simp]: "length (ring_list buf s n) = n"
  by (simp add: ring_list_def)

lemma ring_list_put:
  assumes "n < length buf"
  shows "ring_list (buf[(s + n) mod length buf := v]) s (Suc n) = ring_list buf s n @ [v]"
proof (rule nth_equalityI)
  fix k
  assume "k < length (ring_list (buf[(s + n) mod length buf := v]) s (Suc n))"
  then have k: "k \<le> n" by simp
  have "(s + k) mod length buf < length buf" using assms by (intro mod_less_divisor) linarith
  moreover have "(s + k) mod length buf = (s + n) mod length buf \<longleftrightarrow> k = n"
    using mod_add_inj [of s k "length buf" n] k assms by auto
  ultimately show "ring_list (buf[(s + n) mod length buf := v]) s (Suc n) ! k = (ring_list buf s n @ [v]) ! k"
    using k by (auto simp: ring_list_def nth_append nth_list_update simp del: upt_Suc)
qed simp

lemma ring_list_get:
  "ring_list buf s (Suc n) = buf ! (s mod length buf) # ring_list buf (s + 1) n"
  by (simp add: ring_list_def upt_conv_Cons map_Suc_upt [symmetric] comp_def del: upt_Suc map_Suc_upt)

lemma ring_list_mod: "ring_list buf (s mod length buf) n = ring_list buf s n"
  by (simp add: ring_list_def mod_add_left_eq)

definition fifo_ok :: "'a ci_fifo \<Rightarrow> bool" where
  "fifo_ok f \<longleftrightarrow> ci_fifo_valid f \<and> unat (fifo_size f) = length (fifo f) \<and> unat (fifo_size f) \<le> 2 ^ 31"

definition fifo_contents :: "'a ci_fifo \<Rightarrow> 'a list" where
  "fifo_contents f = ring_list (fifo f) (unat (fifo_rd_i f)) (unat (ci_fifo_num f))"

definition fifo2_ok :: "'a ci_fifo2 \<Rightarrow> bool" where
  "fifo2_ok f \<longleftrightarrow> (\<exists>n<31. fifo_mask f = mask n \<and> length (fifo2 f) = 2 ^ n) \<and>
     ci_fifo2_num f \<le> ci_fifo2_capacity f"

definition fifo2_contents :: "'a ci_fifo2 \<Rightarrow> 'a list" where
  "fifo2_contents f = ring_list (fifo2 f) (unat (fifo2_rd f)) (unat (ci_fifo2_num f))"

lemma ring_dist: "r < m \<Longrightarrow> k < m \<Longrightarrow> ((r + k) mod m + m - r) mod m = (k :: nat)"
  by (cases "r + k < m") (auto simp: mod_if)

lemma ring_list_shift: "s mod length buf = t mod length buf \<Longrightarrow> ring_list buf s n = ring_list buf t n"
  by (metis ring_list_mod)

section \<open>The first kind\<close>

lemma fifo_indices:
  assumes "fifo_ok f"
  shows "unat (fifo_rd_i f) < unat (fifo_size f)" "unat (fifo_wr_i f) < unat (fifo_size f)"
    "1 < unat (fifo_size f)" "unat (fifo_size f) \<le> 2 ^ 31" "length (fifo f) = unat (fifo_size f)"
  using assms by (simp_all add: fifo_ok_def ci_fifo_valid_def word_less_nat_alt)

lemma unat_CI_FIFO_M: "unat (CI_FIFO_M f x) = unat x mod unat (fifo_size f)"
  by (simp add: CI_FIFO_M_def unat_mod)

lemma fifo_dist:
  assumes "unat x < m" "unat y < m" "m = unat z" "m \<le> 2 ^ 31"
  shows "unat (x + z - y :: u32) = unat x + m - unat y"
proof -
  have "unat (x + z) = unat x + unat z" using assms by (subst unat_add_lem [THEN iffD1]) auto
  moreover have "y \<le> x + z" using assms calculation by (simp add: word_le_nat_alt)
  ultimately show ?thesis using assms(3) by (simp add: unat_sub)
qed

lemma fifo_num:
  assumes "fifo_ok f"
  shows "unat (ci_fifo_num f) = (unat (fifo_wr_i f) + unat (fifo_size f) - unat (fifo_rd_i f)) mod unat (fifo_size f)"
  using fifo_dist [OF fifo_indices(2,1) [OF assms] refl fifo_indices(4) [OF assms]]
  by (simp add: ci_fifo_num_def unat_CI_FIFO_M)

lemma fifo_num_bound: "fifo_ok f \<Longrightarrow> unat (ci_fifo_num f) < unat (fifo_size f)"
  using fifo_indices(3) [of f] by (simp add: ci_fifo_num_def unat_CI_FIFO_M)

lemma fifo_wr_pos:
  assumes "fifo_ok f"
  shows "unat (fifo_wr_i f) = (unat (fifo_rd_i f) + unat (ci_fifo_num f)) mod unat (fifo_size f)"
proof -
  note i = fifo_indices [OF assms]
  have "(unat (fifo_rd_i f) + unat (ci_fifo_num f)) mod unat (fifo_size f) =
      (unat (fifo_rd_i f) + (unat (fifo_wr_i f) + unat (fifo_size f) - unat (fifo_rd_i f))) mod unat (fifo_size f)"
    by (simp only: fifo_num [OF assms] mod_add_right_eq)
  also have "\<dots> = unat (fifo_wr_i f)" using i by simp
  finally show ?thesis ..
qed

lemma unat_plus_1: "unat (w :: u32) < 2 ^ 31 \<Longrightarrow> unat (w + 1) = unat w + 1"
  by (simp add: unat_word_ariths)

lemma fifo_next:
  assumes "fifo_ok f"
  shows "unat (CI_FIFO_M f (fifo_rd_i f + 1)) = (unat (fifo_rd_i f) + 1) mod unat (fifo_size f)"
    "unat (CI_FIFO_M f (fifo_wr_i f + 1)) = (unat (fifo_wr_i f) + 1) mod unat (fifo_size f)"
  using fifo_indices [OF assms] by (simp_all add: unat_CI_FIFO_M unat_plus_1)

lemma fifo_put_ok:
  assumes ok: "fifo_ok f" and room: "unat (ci_fifo_num f) + 1 < unat (fifo_size f)"
  shows "\<exists>f'. ci_fifo_put v f = Some f' \<and> fifo_ok f' \<and> fifo_contents f' = fifo_contents f @ [v] \<and>
    fifo_size f' = fifo_size f"
proof -
  note i = fifo_indices [OF ok]
  let ?S = "unat (fifo_size f)" and ?r = "unat (fifo_rd_i f)" and ?n = "unat (ci_fifo_num f)"
  let ?f = "f\<lparr>fifo := (fifo f)[unat (fifo_wr_i f) := v], fifo_wr_i := CI_FIFO_M f (fifo_wr_i f + 1)\<rparr>"
  have w: "unat (fifo_wr_i ?f) = (?r + Suc ?n) mod ?S"
    using fifo_next(2) [OF ok] fifo_wr_pos [OF ok] by (simp add: mod_Suc_eq)
  then have "fifo_ok ?f" using ok i by (simp add: fifo_ok_def ci_fifo_valid_def word_less_nat_alt)
  moreover from this have "unat (ci_fifo_num ?f) = Suc ?n"
    using fifo_num [of ?f] w ring_dist [of ?r ?S "Suc ?n"] i room by simp
  then have "fifo_contents ?f = fifo_contents f @ [v]"
    using ring_list_put [of ?n "fifo f" ?r v] fifo_wr_pos [OF ok] i room
    by (simp add: fifo_contents_def)
  moreover have "ci_fifo_put v f = Some ?f"
    using i by (simp add: ci_fifo_put_def ci_fifo_poke_def fifo_upd_def ci_fifo_wr_next_def CI_FIFO_M_def)
  ultimately show ?thesis by simp
qed

lemma fifo_get_ok:
  assumes ok: "fifo_ok f" and c: "fifo_contents f = v # vs"
  shows "\<exists>f'. ci_fifo_get f = Some (v, f') \<and> fifo_ok f' \<and> fifo_contents f' = vs \<and> fifo_size f' = fifo_size f"
proof -
  note i = fifo_indices [OF ok]
  let ?S = "unat (fifo_size f)" and ?r = "unat (fifo_rd_i f)" and ?w = "unat (fifo_wr_i f)"
  let ?f = "f\<lparr>fifo_rd_i := CI_FIFO_M f (fifo_rd_i f + 1)\<rparr>"
  obtain m where n: "unat (ci_fifo_num f) = Suc m"
    using arg_cong [OF c, of length] by (auto simp: fifo_contents_def)
  have cont: "v = fifo f ! ?r" "vs = ring_list (fifo f) (?r + 1) m"
    using c i by (simp_all add: fifo_contents_def n ring_list_get)
  have r: "unat (fifo_rd_i ?f) = (?r + 1) mod ?S" using fifo_next(1) [OF ok] by simp
  then have ok': "fifo_ok ?f" using ok i by (simp add: fifo_ok_def ci_fifo_valid_def word_less_nat_alt)
  have "((?r + 1) mod ?S + m) mod ?S = ?w"
    using fifo_wr_pos [OF ok] n by (simp add: mod_add_left_eq)
  then have "unat (ci_fifo_num ?f) = m"
    using fifo_num [OF ok'] r ring_dist [of "(?r + 1) mod ?S" ?S m] fifo_num_bound [OF ok] n i by simp
  then have "fifo_contents ?f = vs"
    using r cont(2) i ring_list_mod [of "fifo f" "?r + 1" m] by (simp add: fifo_contents_def)
  moreover have "ci_fifo_get f = Some (v, ?f)"
    using i cont(1) by (simp add: ci_fifo_get_def ci_fifo_peek_def fifo_at_def ci_fifo_rd_next_def)
  ultimately show ?thesis using ok' by simp
qed

interpretation fifo1: bounded_queue fifo_contents fifo_ok "\<lambda>f. unat (ci_fifo_capacity f)" ci_fifo_put ci_fifo_get
proof
  have cap: "unat (ci_fifo_capacity f) = unat (fifo_size f) - 1" if "fifo_ok f" for f :: "'a ci_fifo"
    using fifo_indices(3) [OF that] by (simp add: ci_fifo_capacity_def unat_sub word_le_nat_alt)
  fix f :: "'a ci_fifo" and v vs
  assume ok: "fifo_ok f"
  show "\<exists>q'. ci_fifo_put v f = Some q' \<and> fifo_ok q' \<and> fifo_contents q' = fifo_contents f @ [v] \<and>
      unat (ci_fifo_capacity q') = unat (ci_fifo_capacity f)"
    if room: "length (fifo_contents f) < unat (ci_fifo_capacity f)"
  proof -
    have "unat (ci_fifo_num f) + 1 < unat (fifo_size f)"
      using room cap [OF ok] by (simp add: fifo_contents_def)
    from fifo_put_ok [OF ok this, of v] show ?thesis by (auto simp: ci_fifo_capacity_def)
  qed
  show "\<exists>q'. ci_fifo_get f = Some (v, q') \<and> fifo_ok q' \<and> fifo_contents q' = vs \<and>
      unat (ci_fifo_capacity q') = unat (ci_fifo_capacity f)"
    if "fifo_contents f = v # vs"
    using fifo_get_ok [OF ok that] by (auto simp: ci_fifo_capacity_def)
qed

section \<open>The second kind\<close>

lemma fifo2_shape:
  assumes "fifo2_ok f"
  obtains n where "n < 31" "fifo_mask f = mask n" "length (fifo2 f) = 2 ^ n"
    "unat (ci_fifo2_capacity f) = 2 ^ n" "unat (ci_fifo2_num f) \<le> 2 ^ n"
proof -
  obtain n where n: "n < 31" "fifo_mask f = mask n" "length (fifo2 f) = 2 ^ n"
    using assms by (auto simp: fifo2_ok_def)
  have "(2::nat) ^ n \<le> 2 ^ 30" using n(1) by (intro power_increasing) auto
  then have "unat (mask n + 1 :: u32) = 2 ^ n"
    using unat_mask32 [of n] n(1) unat_plus_1 [of "mask n"] by simp
  then have "unat (ci_fifo2_capacity f) = 2 ^ n" by (simp add: ci_fifo2_capacity_def n(2))
  with n assms that show thesis by (auto simp: fifo2_ok_def word_le_nat_alt)
qed

lemma fifo2_index: "fifo_mask f = mask n \<Longrightarrow> unat (CI_FIFO2_M f x) = unat x mod 2 ^ n"
  by (simp add: CI_FIFO2_M_def unat_and_mask_mod)

lemma fifo2_wr_pos:
  assumes "fifo_mask f = mask n" "n < 31"
  shows "unat (ci_fifo2_wr_i f) = (unat (fifo2_rd f) + unat (ci_fifo2_num f)) mod 2 ^ n"
proof -
  have "fifo2_wr f = fifo2_rd f + of_nat (unat (ci_fifo2_num f))" by (simp add: ci_fifo2_num_def)
  then show ?thesis
    using assms unat_add_mod_pow2 [of n "fifo2_rd f" "unat (ci_fifo2_num f)"]
    by (simp add: ci_fifo2_wr_i_def fifo2_index)
qed

lemma fifo2_put_ok:
  assumes ok: "fifo2_ok f" and room: "unat (ci_fifo2_num f) < unat (ci_fifo2_capacity f)"
  shows "\<exists>f'. ci_fifo2_put v f = Some f' \<and> fifo2_ok f' \<and> fifo2_contents f' = fifo2_contents f @ [v] \<and>
    fifo_mask f' = fifo_mask f"
proof -
  obtain n where n: "n < 31" "fifo_mask f = mask n" "length (fifo2 f) = 2 ^ n" "unat (ci_fifo2_capacity f) = 2 ^ n"
    using fifo2_shape [OF ok] by blast
  let ?f = "f\<lparr>fifo2 := (fifo2 f)[unat (ci_fifo2_wr_i f) := v], fifo2_wr := fifo2_wr f + 1\<rparr>"
  have w: "unat (ci_fifo2_wr_i f) < length (fifo2 f)" using fifo2_wr_pos [OF n(2,1)] n(3) by simp
  have "(2::nat) ^ n < 2 ^ 31" using n(1) by (intro power_strict_increasing) auto
  then have "unat (ci_fifo2_num f + 1) = unat (ci_fifo2_num f) + 1"
    using room n(4) by (intro unat_plus_1) linarith
  then have num: "unat (ci_fifo2_num ?f) = Suc (unat (ci_fifo2_num f))"
    by (simp add: ci_fifo2_num_def algebra_simps)
  have "fifo2_contents ?f = fifo2_contents f @ [v]"
    using ring_list_put [of "unat (ci_fifo2_num f)" "fifo2 f" "unat (fifo2_rd f)" v] room n num
      fifo2_wr_pos [OF n(2,1)] by (simp add: fifo2_contents_def)
  moreover have "fifo2_ok ?f"
    using n num room by (auto simp: fifo2_ok_def word_le_nat_alt ci_fifo2_capacity_def)
  moreover have "ci_fifo2_put v f = Some ?f"
    using w by (simp add: ci_fifo2_put_def ci_fifo2_poke_def fifo_upd_def ci_fifo2_wr_next_def)
  ultimately show ?thesis by simp
qed

lemma fifo2_get_ok:
  assumes ok: "fifo2_ok f" and c: "fifo2_contents f = v # vs"
  shows "\<exists>f'. ci_fifo2_get f = Some (v, f') \<and> fifo2_ok f' \<and> fifo2_contents f' = vs \<and> fifo_mask f' = fifo_mask f"
proof -
  obtain n where n: "n < 31" "fifo_mask f = mask n" "length (fifo2 f) = 2 ^ n"
    "unat (ci_fifo2_capacity f) = 2 ^ n" "unat (ci_fifo2_num f) \<le> 2 ^ n"
    using fifo2_shape [OF ok] by blast
  let ?f = "f\<lparr>fifo2_rd := fifo2_rd f + 1\<rparr>"
  obtain m where m: "unat (ci_fifo2_num f) = Suc m"
    using arg_cong [OF c, of length] by (auto simp: fifo2_contents_def)
  have cont: "v = fifo2 f ! unat (ci_fifo2_rd_i f)" "vs = ring_list (fifo2 f) (unat (fifo2_rd f) + 1) m"
    using c n by (simp_all add: fifo2_contents_def m ring_list_get ci_fifo2_rd_i_def fifo2_index)
  have "1 \<le> ci_fifo2_num f" using m by (simp add: word_le_nat_alt)
  then have "unat (ci_fifo2_num f - 1) = m" using m by (simp add: unat_sub)
  then have num: "unat (ci_fifo2_num ?f) = m" by (simp add: ci_fifo2_num_def algebra_simps)
  have "unat (fifo2_rd f + 1) mod 2 ^ n = (unat (fifo2_rd f) + 1) mod 2 ^ n"
    using unat_add_mod_pow2 [of n "fifo2_rd f" 1] n(1) by simp
  then have "fifo2_contents ?f = vs"
    using cont(2) num n(3) ring_list_shift [of "unat (fifo2_rd f + 1)" "fifo2 f" "unat (fifo2_rd f) + 1" m]
    by (simp add: fifo2_contents_def)
  moreover have "fifo2_ok ?f" using n num m by (auto simp: fifo2_ok_def word_le_nat_alt ci_fifo2_capacity_def)
  moreover have "ci_fifo2_get f = Some (v, ?f)"
    using cont(1) n by (simp add: ci_fifo2_get_def ci_fifo2_peek_def fifo_at_def ci_fifo2_rd_next_def
        ci_fifo2_rd_i_def fifo2_index)
  ultimately show ?thesis by simp
qed

interpretation fifo_pow2: bounded_queue fifo2_contents fifo2_ok "\<lambda>f. unat (ci_fifo2_capacity f)" ci_fifo2_put ci_fifo2_get
proof
  fix f :: "'a ci_fifo2" and v vs
  assume ok: "fifo2_ok f"
  show "\<exists>q'. ci_fifo2_put v f = Some q' \<and> fifo2_ok q' \<and> fifo2_contents q' = fifo2_contents f @ [v] \<and>
      unat (ci_fifo2_capacity q') = unat (ci_fifo2_capacity f)"
    if room: "length (fifo2_contents f) < unat (ci_fifo2_capacity f)"
    using fifo2_put_ok [OF ok, of v] room by (auto simp: fifo2_contents_def ci_fifo2_capacity_def)
  show "\<exists>q'. ci_fifo2_get f = Some (v, q') \<and> fifo2_ok q' \<and> fifo2_contents q' = vs \<and>
      unat (ci_fifo2_capacity q') = unat (ci_fifo2_capacity f)"
    if "fifo2_contents f = v # vs"
    using fifo2_get_ok [OF ok that] by (auto simp: ci_fifo2_capacity_def)
qed

lemma fifo2_tests:
  assumes "fifo2_ok f"
  shows "unat (ci_fifo2_space f) = unat (ci_fifo2_capacity f) - length (fifo2_contents f)"
    "ci_fifo2_is_empty f \<longleftrightarrow> fifo2_contents f = []"
    "ci_fifo2_is_full f \<longleftrightarrow> length (fifo2_contents f) = unat (ci_fifo2_capacity f)"
proof -
  show "unat (ci_fifo2_space f) = unat (ci_fifo2_capacity f) - length (fifo2_contents f)"
    using assms by (simp add: ci_fifo2_space_def fifo2_ok_def unat_sub fifo2_contents_def)
  have "fifo2_contents f = [] \<longleftrightarrow> ci_fifo2_num f = 0"
    by (simp add: fifo2_contents_def ring_list_def unat_eq_0)
  then show "ci_fifo2_is_empty f \<longleftrightarrow> fifo2_contents f = []"
    by (auto simp: ci_fifo2_is_empty_def ci_fifo2_num_def)
  show "ci_fifo2_is_full f \<longleftrightarrow> length (fifo2_contents f) = unat (ci_fifo2_capacity f)"
    by (simp add: ci_fifo2_is_full_def fifo2_contents_def word_unat_eq_iff)
qed

section \<open>Properties\<close>

text \<open>
  C22.  The two circular buffers are queues, and the same queue: whatever sequence of puts
  and gets the bounded queue of their contents allows, both buffers run it without leaving
  their arrays and hand out the same elements in the same order -- the free-running indices
  of the power-of-two variant wrap around without being noticed.
\<close>

theorem fifos_agree:
  assumes "fifo_ok f" "fifo2_ok g" "fifo_contents f = fifo2_contents g"
    and "c \<le> unat (ci_fifo_capacity f)" "c \<le> unat (ci_fifo2_capacity g)"
    and "queue_spec c (fifo_contents f) ops = Some (outs, xs)"
  shows "\<exists>f' g'. queue_run ci_fifo_put ci_fifo_get f ops = Some (outs, f') \<and>
    queue_run ci_fifo2_put ci_fifo2_get g ops = Some (outs, g') \<and>
    fifo_contents f' = xs \<and> fifo2_contents g' = xs \<and> ci_fifo_valid f'"
proof -
  have "queue_spec (unat (ci_fifo_capacity f)) (fifo_contents f) ops = Some (outs, xs)"
    "queue_spec (unat (ci_fifo2_capacity g)) (fifo2_contents g) ops = Some (outs, xs)"
    using assms(3-6) by (auto intro: queue_spec_mono)
  with fifo1.run_spec [OF assms(1)] fifo_pow2.run_spec [OF assms(2)] show ?thesis
    by (fastforce simp: fifo_ok_def)
qed

theorem fifos_agree_witness:
  "let f = \<lparr>fifo_size = 3, fifo_rd_i = 2, fifo_wr_i = 0, fifo = [5, 2, 7 :: nat]\<rparr>;
       g = \<lparr>fifo2 = [0, 7 :: nat], fifo_mask = 1, fifo2_rd = 0xFFFFFFFF, fifo2_wr = 0\<rparr>
   in \<exists>f' g'. queue_run ci_fifo_put ci_fifo_get f [Put 8, Get, Put 9, Get] = Some ([7, 8], f') \<and>
        queue_run ci_fifo2_put ci_fifo2_get g [Put 8, Get, Put 9, Get] = Some ([7, 8], g') \<and>
        fifo_contents f' = [9] \<and> fifo2_contents g' = [9]"
proof -
  let ?f = "\<lparr>fifo_size = 3, fifo_rd_i = 2, fifo_wr_i = 0, fifo = [5, 2, 7 :: nat]\<rparr>"
  let ?g = "\<lparr>fifo2 = [0, 7 :: nat], fifo_mask = 1, fifo2_rd = 0xFFFFFFFF, fifo2_wr = 0\<rparr>"
  have "(1 :: u32) = mask 1" by (simp add: mask_eq_exp_minus_1)
  then have g: "fifo2_ok ?g"
    by (auto simp: fifo2_ok_def ci_fifo2_num_def ci_fifo2_capacity_def intro!: exI [of _ 1])
  have f: "fifo_ok ?f" by (simp add: fifo_ok_def ci_fifo_valid_def)
  have cf: "fifo_contents ?f = [7]"
    by (simp add: fifo_contents_def ring_list_def ci_fifo_num_def CI_FIFO_M_def)
  have cg: "fifo2_contents ?g = [7]"
    by (simp add: fifo2_contents_def ring_list_def ci_fifo2_num_def numeral_2_eq_2 [symmetric])
  have cap: "2 \<le> unat (ci_fifo_capacity ?f)" "2 \<le> unat (ci_fifo2_capacity ?g)"
    by (simp_all add: ci_fifo_capacity_def ci_fifo2_capacity_def)
  have "queue_spec 2 (fifo_contents ?f) [Put 8, Get, Put 9, Get] = Some ([7, 8], [9])"
    by (simp add: cf)
  from fifos_agree [OF f g _ cap this] cf cg show ?thesis unfolding Let_def by metis
qed

end
