(* ===== verification/CiList.thy ===== *)
theory CiList
  imports LinkedList
begin

text \<open>
  The intrusive lists of the adapter library: the circular doubly linked list of
  \<open>ci/tools/dllist.h\<close> and the singly linked list of \<open>ci/tools/sllist.h\<close>.  A link is its
  64-bit address; memory is the contents of the \<open>prev\<close> and \<open>next\<close> members of all links; the
  null pointer is 0; a failing \<open>ci_assert\<close> is \<^term>\<open>None\<close>.  A list is the address of its anchor.
  The links of distinct addresses are distinct objects: the model does not describe links
  that overlap in memory, as a caller that places one every sixteen bytes or more has none.
  The locale \<open>deque\<close> is the contract of a doubly linked list over any memory.
\<close>

section \<open>Memory of links\<close>

type_synonym link_ptr = "64 word"

record 'p dl_heap =
  dl_prev :: "'p \<Rightarrow> 'p"
  dl_next :: "'p \<Rightarrow> 'p"

definition set_next :: "'p \<Rightarrow> 'p \<Rightarrow> 'p dl_heap \<Rightarrow> 'p dl_heap" where
  "set_next l v h = h\<lparr>dl_next := (dl_next h)(l := v)\<rparr>"

definition set_prev :: "'p \<Rightarrow> 'p \<Rightarrow> 'p dl_heap \<Rightarrow> 'p dl_heap" where
  "set_prev l v h = h\<lparr>dl_prev := (dl_prev h)(l := v)\<rparr>"

definition CI_DLLIST_LINK_ASSERT_VALID :: "'p \<Rightarrow> 'p dl_heap \<Rightarrow> bool" where
  "CI_DLLIST_LINK_ASSERT_VALID l h \<longleftrightarrow> dl_next h (dl_prev h l) = l \<and> dl_prev h (dl_next h l) = l"

section \<open>Operations on doubly linked lists\<close>

definition ci_dllist_init :: "link_ptr \<Rightarrow> link_ptr dl_heap \<Rightarrow> link_ptr dl_heap" where
  "ci_dllist_init a h = set_prev a a (set_next a a h)"

definition ci_dllist_is_empty :: "link_ptr \<Rightarrow> link_ptr dl_heap \<Rightarrow> bool" where
  "ci_dllist_is_empty a h \<longleftrightarrow> dl_next h a = a"

definition ci_dllist_not_empty :: "link_ptr \<Rightarrow> link_ptr dl_heap \<Rightarrow> bool" where
  "ci_dllist_not_empty a h \<longleftrightarrow> dl_next h a \<noteq> a"

definition ci_dllist_insert_after :: "link_ptr \<Rightarrow> link_ptr \<Rightarrow> link_ptr dl_heap \<Rightarrow> link_ptr dl_heap option" where
  "ci_dllist_insert_after before after h =
     (if CI_DLLIST_LINK_ASSERT_VALID before h then
        let h = set_next after (dl_next h before) h;
            h = set_prev after before h;
            h = set_prev (dl_next h before) after h
        in Some (set_next before after h)
      else None)"

definition ci_dllist_insert_before :: "link_ptr \<Rightarrow> link_ptr \<Rightarrow> link_ptr dl_heap \<Rightarrow> link_ptr dl_heap option" where
  "ci_dllist_insert_before after insrt h =
     (if CI_DLLIST_LINK_ASSERT_VALID after h then
        let h = set_next insrt after h;
            h = set_prev insrt (dl_prev h after) h;
            h = set_next (dl_prev h after) insrt h
        in Some (set_prev after insrt h)
      else None)"

definition ci_dllist_remove :: "link_ptr \<Rightarrow> link_ptr dl_heap \<Rightarrow> link_ptr dl_heap option" where
  "ci_dllist_remove l h =
     (if CI_DLLIST_LINK_ASSERT_VALID l h then
        let h = set_next (dl_prev h l) (dl_next h l) h
        in Some (set_prev (dl_next h l) (dl_prev h l) h)
      else None)"

definition ci_dllist_remove_safe :: "link_ptr \<Rightarrow> link_ptr dl_heap \<Rightarrow> link_ptr dl_heap option" where
  "ci_dllist_remove_safe l h =
     (if CI_DLLIST_LINK_ASSERT_VALID l h then
        let h = set_next (dl_prev h l) (dl_next h l) h;
            h = set_prev (dl_next h l) (dl_prev h l) h
        in Some (set_next l l (set_prev l l h))
      else None)"

definition ci_dllist_head :: "link_ptr \<Rightarrow> link_ptr dl_heap \<Rightarrow> link_ptr" where
  "ci_dllist_head a h = dl_next h a"

definition ci_dllist_tail :: "link_ptr \<Rightarrow> link_ptr dl_heap \<Rightarrow> link_ptr" where
  "ci_dllist_tail a h = dl_prev h a"

definition ci_dllist_is_head :: "link_ptr \<Rightarrow> link_ptr \<Rightarrow> link_ptr dl_heap \<Rightarrow> bool" where
  "ci_dllist_is_head a l h \<longleftrightarrow> l = dl_next h a"

definition ci_dllist_is_tail :: "link_ptr \<Rightarrow> link_ptr \<Rightarrow> link_ptr dl_heap \<Rightarrow> bool" where
  "ci_dllist_is_tail a l h \<longleftrightarrow> l = dl_prev h a"

definition ci_dllist_is_anchor :: "link_ptr \<Rightarrow> link_ptr \<Rightarrow> bool" where
  "ci_dllist_is_anchor a l \<longleftrightarrow> l = a"

text \<open>In the chained assignments the inner pointer is read before the outer store.\<close>

definition ci_dllist_push :: "link_ptr \<Rightarrow> link_ptr \<Rightarrow> link_ptr dl_heap \<Rightarrow> link_ptr dl_heap option" where
  "ci_dllist_push a l h =
     (if CI_DLLIST_LINK_ASSERT_VALID a h then
        let h = set_next l (dl_next h a) h;
            h = set_prev l a h;
            h = set_prev (dl_next h l) l h
        in Some (set_next a l h)
      else None)"

definition ci_dllist_push_tail :: "link_ptr \<Rightarrow> link_ptr \<Rightarrow> link_ptr dl_heap \<Rightarrow> link_ptr dl_heap option" where
  "ci_dllist_push_tail a l h =
     (if CI_DLLIST_LINK_ASSERT_VALID a h then
        let h = set_next l a h;
            h = set_prev l (dl_prev h a) h;
            h = set_next (dl_prev h l) l h
        in Some (set_prev a l h)
      else None)"

definition ci_dllist_pop :: "link_ptr \<Rightarrow> link_ptr dl_heap \<Rightarrow> (link_ptr \<times> link_ptr dl_heap) option" where
  "ci_dllist_pop a h = (let l = dl_next h a in map_option (Pair l) (ci_dllist_remove l h))"

definition ci_dllist_pop_tail :: "link_ptr \<Rightarrow> link_ptr dl_heap \<Rightarrow> (link_ptr \<times> link_ptr dl_heap) option" where
  "ci_dllist_pop_tail a h = (let l = dl_prev h a in map_option (Pair l) (ci_dllist_remove l h))"

definition ci_dllist_try_pop :: "link_ptr \<Rightarrow> link_ptr dl_heap \<Rightarrow> (link_ptr \<times> link_ptr dl_heap) option" where
  "ci_dllist_try_pop a h = (if ci_dllist_is_empty a h then Some (0, h) else ci_dllist_pop a h)"

definition ci_dllist_try_pop_tail :: "link_ptr \<Rightarrow> link_ptr dl_heap \<Rightarrow> (link_ptr \<times> link_ptr dl_heap) option" where
  "ci_dllist_try_pop_tail a h = (if ci_dllist_is_empty a h then Some (0, h) else ci_dllist_pop_tail a h)"

definition ci_dllist_rehome :: "link_ptr \<Rightarrow> link_ptr \<Rightarrow> link_ptr dl_heap \<Rightarrow> link_ptr dl_heap" where
  "ci_dllist_rehome to from h =
     (if ci_dllist_is_empty from h then ci_dllist_init to h
      else
        let h = set_next to (dl_next h from) h;
            h = set_prev to (dl_prev h from) h;
            h = set_next (dl_prev h to) to h;
            h = set_prev (dl_next h to) to h
        in ci_dllist_init from h)"

definition ci_dllist_join :: "link_ptr \<Rightarrow> link_ptr \<Rightarrow> link_ptr dl_heap \<Rightarrow> link_ptr dl_heap" where
  "ci_dllist_join a from h =
     (if ci_dllist_not_empty from h then
        let h = set_next (dl_prev h a) (dl_next h from) h;
            h = set_prev (dl_next h from) (dl_prev h a) h;
            h = set_prev a (dl_prev h from) h;
            h = set_next (dl_prev h from) a h
        in ci_dllist_init from h
      else h)"

definition ci_dllist_start :: "link_ptr \<Rightarrow> link_ptr dl_heap \<Rightarrow> link_ptr" where
  "ci_dllist_start a h = dl_next h a"

definition ci_dllist_last :: "link_ptr \<Rightarrow> link_ptr dl_heap \<Rightarrow> link_ptr" where
  "ci_dllist_last a h = dl_prev h a"

definition ci_dllist_end :: "link_ptr \<Rightarrow> link_ptr" where
  "ci_dllist_end a = a"

text \<open>\<open>CI_DLLIST_FOR_EACH\<close> with a body on a state; the body may leave the loop (\<open>Inl\<close>).\<close>

partial_function (option) CI_DLLIST_FOR_EACH ::
  "link_ptr \<Rightarrow> link_ptr dl_heap \<Rightarrow> (link_ptr \<Rightarrow> 's \<Rightarrow> 'r + 's) \<Rightarrow> link_ptr \<Rightarrow> 's \<Rightarrow> ('r + 's) option" where
  "CI_DLLIST_FOR_EACH a h body l s =
     (if l = a then Some (Inr s)
      else case body l s of
             Inl r \<Rightarrow> Some (Inl r)
           | Inr s \<Rightarrow> CI_DLLIST_FOR_EACH a h body (dl_next h l) s)"

definition ci_dllist_count :: "link_ptr \<Rightarrow> link_ptr dl_heap \<Rightarrow> nat option" where
  "ci_dllist_count a h =
     map_option (case_sum (\<lambda>_. 0) (\<lambda>n. n))
       (CI_DLLIST_FOR_EACH a h (\<lambda>l n. Inr (n + 1) :: unit + nat) (ci_dllist_start a h) 0)"

definition ci_dllist_is_member :: "link_ptr \<Rightarrow> link_ptr \<Rightarrow> link_ptr dl_heap \<Rightarrow> bool option" where
  "ci_dllist_is_member a l h =
     map_option (case_sum (\<lambda>_. True) (\<lambda>_. False))
       (CI_DLLIST_FOR_EACH a h (\<lambda>l' u. if l' = l then Inl () else Inr u) (ci_dllist_start a h) ())"

definition ci_dllink_self_link :: "link_ptr \<Rightarrow> link_ptr dl_heap \<Rightarrow> link_ptr dl_heap" where
  "ci_dllink_self_link l h = set_next l l (set_prev l l h)"

definition ci_dllink_is_self_linked :: "link_ptr \<Rightarrow> link_ptr dl_heap \<Rightarrow> bool" where
  "ci_dllink_is_self_linked l h \<longleftrightarrow> l = dl_next h l"

definition ci_dllink_mark_free :: "link_ptr \<Rightarrow> link_ptr dl_heap \<Rightarrow> link_ptr dl_heap" where
  "ci_dllink_mark_free l h = set_next l 0 h"

definition ci_dllink_is_free :: "link_ptr \<Rightarrow> link_ptr dl_heap \<Rightarrow> bool" where
  "ci_dllink_is_free l h \<longleftrightarrow> dl_next h l = 0"

section \<open>Operations on singly linked lists\<close>

record sl_heap =
  sl_next :: "nat \<Rightarrow> nat"
  sl_head :: nat

abbreviation (input) CI_SLLIST_TAIL :: nat where "CI_SLLIST_TAIL \<equiv> 0xdeaddead"

definition ci_sllink_busy :: "nat \<Rightarrow> sl_heap \<Rightarrow> bool" where
  "ci_sllink_busy l h \<longleftrightarrow> sl_next h l \<noteq> 0"

definition ci_sllist_init :: "sl_heap \<Rightarrow> sl_heap" where
  "ci_sllist_init h = h\<lparr>sl_head := CI_SLLIST_TAIL\<rparr>"

definition ci_sllist_is_empty :: "sl_heap \<Rightarrow> bool" where
  "ci_sllist_is_empty h \<longleftrightarrow> sl_head h = CI_SLLIST_TAIL"

definition ci_sllist_not_empty :: "sl_heap \<Rightarrow> bool" where
  "ci_sllist_not_empty h \<longleftrightarrow> sl_head h \<noteq> CI_SLLIST_TAIL"

definition ci_sllist_push :: "nat \<Rightarrow> sl_heap \<Rightarrow> sl_heap" where
  "ci_sllist_push l h = h\<lparr>sl_next := (sl_next h)(l := sl_head h), sl_head := l\<rparr>"

text \<open>Popping an empty list dereferences the tail mark.\<close>

definition ci_sllist_pop :: "sl_heap \<Rightarrow> (nat \<times> sl_heap) option" where
  "ci_sllist_pop h =
     (let l = sl_head h
      in if l = CI_SLLIST_TAIL then None
         else Some (l, h\<lparr>sl_head := sl_next h l, sl_next := (sl_next h)(l := 0)\<rparr>))"

definition ci_sllist_try_pop :: "sl_heap \<Rightarrow> nat \<times> sl_heap" where
  "ci_sllist_try_pop h =
     (let l = sl_head h
      in if l = CI_SLLIST_TAIL then (0, h)
         else (l, h\<lparr>sl_head := sl_next h l, sl_next := (sl_next h)(l := 0)\<rparr>))"

definition CI_SLLIST_TRY_POP :: "sl_heap \<Rightarrow> (nat \<times> sl_heap) option" where
  "CI_SLLIST_TRY_POP h = (if sl_head h \<noteq> 0 then ci_sllist_pop h else Some (0, h))"

definition ci_sllist_insert_after :: "nat \<Rightarrow> nat \<Rightarrow> sl_heap \<Rightarrow> sl_heap" where
  "ci_sllist_insert_after before after h =
     (let h = h\<lparr>sl_next := (sl_next h)(after := sl_next h before)\<rparr>
      in h\<lparr>sl_next := (sl_next h)(before := after)\<rparr>)"

section \<open>Deques of links\<close>

datatype 'p deque_op = Push 'p | Push_tail 'p | Remove 'p

fun deque_spec :: "'p \<Rightarrow> 'p list \<Rightarrow> 'p deque_op list \<Rightarrow> 'p list option" where
  "deque_spec a xs [] = Some xs"
| "deque_spec a xs (Push x # ops) = (if x \<in> set (a # xs) then None else deque_spec a (x # xs) ops)"
| "deque_spec a xs (Push_tail x # ops) = (if x \<in> set (a # xs) then None else deque_spec a (xs @ [x]) ops)"
| "deque_spec a xs (Remove x # ops) = (if x \<in> set xs then deque_spec a (remove1 x xs) ops else None)"

fun deque_run :: "('p \<Rightarrow> 'p \<Rightarrow> 'h \<Rightarrow> 'h option) \<Rightarrow> ('p \<Rightarrow> 'p \<Rightarrow> 'h \<Rightarrow> 'h option) \<Rightarrow> ('p \<Rightarrow> 'h \<Rightarrow> 'h option) \<Rightarrow>
    'p \<Rightarrow> 'h \<Rightarrow> 'p deque_op list \<Rightarrow> 'h option" where
  "deque_run push pusht rem a h [] = Some h"
| "deque_run push pusht rem a h (Push x # ops) = Option.bind (push a x h) (\<lambda>h. deque_run push pusht rem a h ops)"
| "deque_run push pusht rem a h (Push_tail x # ops) = Option.bind (pusht a x h) (\<lambda>h. deque_run push pusht rem a h ops)"
| "deque_run push pusht rem a h (Remove x # ops) = Option.bind (rem x h) (\<lambda>h. deque_run push pusht rem a h ops)"

locale deque =
  fixes repr :: "'h \<Rightarrow> 'p \<Rightarrow> 'p list \<Rightarrow> bool"
    and push pusht :: "'p \<Rightarrow> 'p \<Rightarrow> 'h \<Rightarrow> 'h option" and rem :: "'p \<Rightarrow> 'h \<Rightarrow> 'h option"
  assumes push_ok: "repr h a xs \<Longrightarrow> x \<notin> set (a # xs) \<Longrightarrow> \<exists>h'. push a x h = Some h' \<and> repr h' a (x # xs)"
    and pusht_ok: "repr h a xs \<Longrightarrow> x \<notin> set (a # xs) \<Longrightarrow> \<exists>h'. pusht a x h = Some h' \<and> repr h' a (xs @ [x])"
    and rem_ok: "repr h a (us @ x # vs) \<Longrightarrow> \<exists>h'. rem x h = Some h' \<and> repr h' a (us @ vs)"
    and repr_distinct: "repr h a xs \<Longrightarrow> distinct (a # xs)"
begin

lemma rem_member:
  assumes "repr h a xs" "x \<in> set xs"
  shows "\<exists>h'. rem x h = Some h' \<and> repr h' a (remove1 x xs)"
proof -
  obtain us vs where xs: "xs = us @ x # vs" "x \<notin> set us" using split_list_first [OF assms(2)] by blast
  then have "remove1 x xs = us @ vs" by (simp add: remove1_append)
  with rem_ok [of h a us x vs] assms(1) xs(1) show ?thesis by simp
qed

lemma run_list:
  "repr h a xs \<Longrightarrow> deque_spec a xs ops = Some ys \<Longrightarrow>
   \<exists>h'. deque_run push pusht rem a h ops = Some h' \<and> repr h' a ys"
proof (induction ops arbitrary: h xs)
  case (Cons p ops)
  show ?case
  proof (cases p)
    case (Push x)
    with Cons push_ok [of h a xs x] show ?thesis by (auto split: if_splits)
  next
    case (Push_tail x)
    with Cons pusht_ok [of h a xs x] show ?thesis by (auto split: if_splits)
  next
    case (Remove x)
    with Cons rem_member [of h a xs x] show ?thesis by (auto split: if_splits)
  qed
qed simp

lemma move_to_tail:
  assumes "repr h a (us @ x # vs)"
  shows "\<exists>h1 h2. rem x h = Some h1 \<and> pusht a x h1 = Some h2 \<and> repr h2 a (us @ vs @ [x])"
proof -
  obtain h1 where h1: "rem x h = Some h1" "repr h1 a (us @ vs)" using rem_ok [OF assms] by blast
  have "x \<notin> set (a # us @ vs)" using repr_distinct [OF assms] by auto
  with pusht_ok [OF h1(2)] h1(1) show ?thesis by auto
qed

end

section \<open>Circular lists in memory\<close>

fun dlpath :: "'p dl_heap \<Rightarrow> 'p list \<Rightarrow> bool" where
  "dlpath h (x # y # ys) = (dl_next h x = y \<and> dl_prev h y = x \<and> dlpath h (y # ys))"
| "dlpath h ys = True"

definition dlist :: "'p dl_heap \<Rightarrow> 'p \<Rightarrow> 'p list \<Rightarrow> bool" where
  "dlist h a xs \<longleftrightarrow> distinct (a # xs) \<and> dlpath h (a # xs @ [a])"

lemma dlpath_append: "dlpath h (us @ p # vs) = (dlpath h (us @ [p]) \<and> dlpath h (p # vs))"
  by (induction us rule: induct_list012) auto

lemma dlpath_Cons: "dlpath h (p # n # vs) = (dl_next h p = n \<and> dl_prev h n = p \<and> dlpath h (n # vs))"
  by simp

lemma dlpath_cong:
  assumes "\<And>x. x \<in> set (butlast ys) \<Longrightarrow> dl_next h' x = dl_next h x" "\<And>x. x \<in> set (tl ys) \<Longrightarrow> dl_prev h' x = dl_prev h x"
  shows "dlpath h' ys = dlpath h ys"
  using assms by (induction h ys rule: dlpath.induct) (auto split: if_splits)

text \<open>A circular list cut between two neighbours.\<close>

lemma dlist_cut:
  assumes "a # us = bs @ [p]" "vs @ [a] = n # cs"
  shows "dlist h a (us @ vs) \<longleftrightarrow> distinct (a # us @ vs) \<and> dlpath h (bs @ [p]) \<and> dl_next h p = n \<and>
    dl_prev h n = p \<and> dlpath h (n # cs)"
proof -
  have "a # (us @ vs) @ [a] = (a # us) @ (vs @ [a])" by simp
  also have "\<dots> = bs @ p # n # cs" unfolding assms by simp
  finally have "dlpath h (a # (us @ vs) @ [a]) = dlpath h (bs @ p # n # cs)" by (rule arg_cong)
  also have "\<dots> = (dlpath h (bs @ [p]) \<and> dlpath h (p # n # cs))" by (rule dlpath_append)
  finally show ?thesis by (simp only: dlist_def dlpath_Cons)
qed

lemma cut_facts:
  assumes "a # us = bs @ [p]" "vs @ [a] = n # cs" "distinct (a # us @ vs)"
  shows "p \<notin> set bs" "p \<notin> set vs" "n \<notin> set us" "n \<notin> set cs" "p \<in> set (a # us)" "n \<in> set (a # vs)"
    "set bs \<subseteq> set (a # us)" "set cs \<subseteq> set (a # vs)" "tl (bs @ [p]) = us" "butlast (n # cs) = vs"
proof -
  have d: "distinct (a # us)" "distinct (vs @ [a])" using assms(3) by auto
  from d(1) show "p \<notin> set bs" unfolding assms(1) by simp
  from d(2) show "n \<notin> set cs" unfolding assms(2) by simp
  show p: "p \<in> set (a # us)" and "set bs \<subseteq> set (a # us)" unfolding assms(1) by auto
  have "n \<in> set (vs @ [a])" "set cs \<subseteq> set (vs @ [a])" unfolding assms(2) by auto
  then show n: "n \<in> set (a # vs)" and "set cs \<subseteq> set (a # vs)" by auto
  from p assms(3) show "p \<notin> set vs" by auto
  from n assms(3) show "n \<notin> set us" by auto
  show "tl (bs @ [p]) = us" by (simp flip: assms(1))
  show "butlast (n # cs) = vs" by (simp flip: assms(2))
qed

lemma dlist_insert:
  assumes cut: "a # us = bs @ [p]" "vs @ [a] = n # cs" and l: "dlist h a (us @ vs)" and x: "x \<notin> set (a # us @ vs)"
    and h': "dl_next h' = (dl_next h)(x := n, p := x)" "dl_prev h' = (dl_prev h)(x := p, n := x)"
  shows "dlist h' a (us @ x # vs)"
proof -
  have d: "distinct (a # us @ vs)" and path: "dlpath h (bs @ [p])" "dlpath h (n # cs)"
    using l by (simp_all only: dlist_cut [OF cut])
  note f = cut_facts [OF cut d]
  have "dlpath h' (bs @ [p]) = dlpath h (bs @ [p])"
    by (rule dlpath_cong) (use f x h' in auto)
  moreover have "dlpath h' (n # cs) = dlpath h (n # cs)"
    by (rule dlpath_cong) (use f x h' in auto)
  moreover have "x \<noteq> p" "x \<noteq> n" using f x by auto
  moreover have "dlist h' a (us @ x # vs) \<longleftrightarrow> distinct (a # us @ x # vs) \<and> dlpath h' (bs @ [p]) \<and> dl_next h' p = x \<and>
      dl_prev h' x = p \<and> dlpath h' (x # n # cs)"
    by (rule dlist_cut) (use cut in simp_all)
  ultimately show ?thesis using path d x h' by auto
qed

lemma dlist_remove:
  assumes cut: "a # us = bs @ [p]" "vs @ [a] = n # cs" and l: "dlist h a (us @ x # vs)"
    and h': "\<And>y. y \<noteq> x \<Longrightarrow> dl_next h' y = ((dl_next h)(p := n)) y" "\<And>y. y \<noteq> x \<Longrightarrow> dl_prev h' y = ((dl_prev h)(n := p)) y"
  shows "dlist h' a (us @ vs)"
proof -
  have c: "(x # vs) @ [a] = x # n # cs" using cut(2) by simp
  have d: "distinct (a # us @ x # vs)" and path: "dlpath h (bs @ [p])" "dlpath h (n # cs)"
    using l by (simp_all add: dlist_cut [OF cut(1) c])
  have d': "distinct (a # us @ vs)" using d by auto
  note f = cut_facts [OF cut d']
  have x: "x \<notin> set (a # us @ vs)" using d by auto
  have "x \<notin> set bs \<union> set cs" using f(7,8) x by auto
  then have fresh: "\<forall>y \<in> set bs \<union> set vs. y \<noteq> x \<and> y \<noteq> p" "\<forall>y \<in> set us \<union> set cs. y \<noteq> x \<and> y \<noteq> n"
    using f(1-4) x by auto
  have "dlpath h' (bs @ [p]) = dlpath h (bs @ [p])"
    by (rule dlpath_cong; simp only: f(9) butlast_snoc; use fresh h' in simp)
  moreover have "dlpath h' (n # cs) = dlpath h (n # cs)"
    by (rule dlpath_cong; simp only: f(10) list.sel; use fresh h' in simp)
  moreover have "x \<noteq> p" "x \<noteq> n" using f x by auto
  ultimately show ?thesis using path d' h' by (simp add: dlist_cut [OF cut])
qed

lemma cut_exists: obtains bs p n cs where "a # us = bs @ [p]" "vs @ [a] = n # cs"
  by (metis append_butlast_last_id list.distinct(1) neq_Nil_conv append_is_Nil_conv not_Cons_self2)

lemma dlist_neighbours:
  assumes "dlist h a (us @ x # vs)" "a # us = bs @ [p]" "vs @ [a] = n # cs"
  shows "dl_prev h x = p" "dl_next h x = n" "dl_next h p = x" "dl_prev h n = x"
proof -
  have c: "(x # vs) @ [a] = x # n # cs" using assms(3) by simp
  show "dl_prev h x = p" "dl_next h x = n" "dl_next h p = x" "dl_prev h n = x"
    using assms(1) by (simp_all add: dlist_cut [OF assms(2) c])
qed

lemma dlist_anchor:
  assumes "dlist h a xs"
  shows "dl_next h a = hd (xs @ [a])" "dl_prev h a = last (a # xs)" "CI_DLLIST_LINK_ASSERT_VALID a h"
proof -
  obtain n cs where n: "xs @ [a] = n # cs" by (cases xs) auto
  obtain bs p where p: "a # xs = bs @ [p]" by (metis append_butlast_last_id list.distinct(1))
  have "dl_next h a = n" "dl_prev h n = a"
    using assms dlist_cut [of a "[]" "[]" a xs n cs h] n by simp_all
  moreover have "dl_prev h a = p" "dl_next h p = a"
    using assms dlist_cut [of a xs bs p "[]" a "[]" h] p by simp_all
  moreover have "n = hd (xs @ [a])" "p = last (a # xs)" by (simp add: n) (simp only: p last_snoc)
  ultimately show "dl_next h a = hd (xs @ [a])" "dl_prev h a = last (a # xs)" "CI_DLLIST_LINK_ASSERT_VALID a h"
    by (simp_all add: CI_DLLIST_LINK_ASSERT_VALID_def)
qed

lemma dlist_valid:
  assumes "dlist h a xs" "x \<in> set (a # xs)"
  shows "CI_DLLIST_LINK_ASSERT_VALID x h"
proof (cases "x = a")
  case False
  with assms(2) obtain us vs where xs: "xs = us @ x # vs" by (auto dest: split_list)
  obtain bs p n cs where cut: "a # us = bs @ [p]" "vs @ [a] = n # cs" by (rule cut_exists)
  from dlist_neighbours [OF _ cut] assms(1) xs show ?thesis by (simp add: CI_DLLIST_LINK_ASSERT_VALID_def)
qed (use assms dlist_anchor(3) in simp)

section \<open>The operations on the represented list\<close>

lemma ci_dllist_init_ok: "dlist (ci_dllist_init a h) a []"
  by (simp add: dlist_def ci_dllist_init_def set_next_def set_prev_def)

lemma ci_dllist_insert_after_ok:
  assumes "dlist h a (us @ vs)" "a # us = bs @ [p]" "x \<notin> set (a # us @ vs)"
  shows "\<exists>h'. ci_dllist_insert_after p x h = Some h' \<and> dlist h' a (us @ x # vs)"
proof -
  obtain n cs where n: "vs @ [a] = n # cs" by (cases vs) auto
  note cut = assms(2) n
  have d: "dl_next h p = n" "distinct (a # us @ vs)" using assms(1) by (simp_all add: dlist_cut [OF cut])
  note f = cut_facts [OF cut d(2)]
  have "CI_DLLIST_LINK_ASSERT_VALID p h" using dlist_valid [OF assms(1)] f by auto
  moreover have "x \<noteq> p" "x \<noteq> n" using assms(3) f by auto
  moreover note dlist_insert [OF cut assms(1,3)]
  ultimately show ?thesis
    by (simp add: ci_dllist_insert_after_def set_next_def set_prev_def Let_def d(1))
qed

lemma ci_dllist_insert_before_ok:
  assumes "dlist h a (us @ vs)" "vs @ [a] = n # cs" "x \<notin> set (a # us @ vs)"
  shows "\<exists>h'. ci_dllist_insert_before n x h = Some h' \<and> dlist h' a (us @ x # vs)"
proof -
  obtain bs p where p: "a # us = bs @ [p]" by (metis append_butlast_last_id list.distinct(1))
  note cut = p assms(2)
  have d: "dl_prev h n = p" "distinct (a # us @ vs)" using assms(1) by (simp_all add: dlist_cut [OF cut])
  note f = cut_facts [OF cut d(2)]
  have "CI_DLLIST_LINK_ASSERT_VALID n h" using dlist_valid [OF assms(1)] f by auto
  moreover have "x \<noteq> p" "x \<noteq> n" using assms(3) f by auto
  moreover note dlist_insert [OF cut assms(1,3)]
  ultimately show ?thesis
    by (simp add: ci_dllist_insert_before_def set_next_def set_prev_def Let_def d(1))
qed

text \<open>Pushing at either end is inserting next to the anchor.\<close>

lemma ci_dllist_push_is_insert: "l \<noteq> a \<Longrightarrow> ci_dllist_push a l h = ci_dllist_insert_after a l h"
  by (simp add: ci_dllist_push_def ci_dllist_insert_after_def set_next_def set_prev_def Let_def)

lemma ci_dllist_push_tail_is_insert: "l \<noteq> a \<Longrightarrow> ci_dllist_push_tail a l h = ci_dllist_insert_before a l h"
  by (simp add: ci_dllist_push_tail_def ci_dllist_insert_before_def set_next_def set_prev_def Let_def)

lemma ci_dllist_push_ok:
  assumes "dlist h a xs" "x \<notin> set (a # xs)"
  shows "\<exists>h'. ci_dllist_push a x h = Some h' \<and> dlist h' a (x # xs)"
  using ci_dllist_insert_after_ok [of h a "[]" xs "[]" a x] assms by (simp add: ci_dllist_push_is_insert)

lemma ci_dllist_push_tail_ok:
  assumes "dlist h a xs" "x \<notin> set (a # xs)"
  shows "\<exists>h'. ci_dllist_push_tail a x h = Some h' \<and> dlist h' a (xs @ [x])"
  using ci_dllist_insert_before_ok [of h a xs "[]" a "[]" x] assms by (simp add: ci_dllist_push_tail_is_insert)

lemma ci_dllist_remove_ok:
  assumes "dlist h a (us @ x # vs)"
  shows "\<exists>h'. ci_dllist_remove x h = Some h' \<and> dlist h' a (us @ vs)"
proof -
  obtain bs p n cs where cut: "a # us = bs @ [p]" "vs @ [a] = n # cs" by (rule cut_exists)
  note nb = dlist_neighbours [OF assms cut]
  have "distinct (a # us @ vs)" "x \<notin> set (a # us @ vs)" using assms by (auto simp: dlist_def)
  moreover from this have "x \<noteq> p" "x \<noteq> n" using cut_facts(5,6) [OF cut] by auto
  moreover have "CI_DLLIST_LINK_ASSERT_VALID x h" using dlist_valid [OF assms] by simp
  moreover note dlist_remove [OF cut assms]
  ultimately show ?thesis
    by (simp add: ci_dllist_remove_def set_next_def set_prev_def Let_def nb)
qed

text \<open>The safe removal leaves the removed link linked to itself.\<close>

lemma ci_dllist_remove_safe_ok:
  assumes "dlist h a (us @ x # vs)"
  shows "\<exists>h'. ci_dllist_remove_safe x h = Some h' \<and> dlist h' a (us @ vs) \<and> dlist h' x []"
proof -
  obtain bs p n cs where cut: "a # us = bs @ [p]" "vs @ [a] = n # cs" by (rule cut_exists)
  note nb = dlist_neighbours [OF assms cut]
  have "distinct (a # us @ vs)" "x \<notin> set (a # us @ vs)" using assms by (auto simp: dlist_def)
  moreover from this have "x \<noteq> p" "x \<noteq> n" using cut_facts(5,6) [OF cut] by auto
  moreover have "CI_DLLIST_LINK_ASSERT_VALID x h" using dlist_valid [OF assms] by simp
  moreover note dlist_remove [OF cut assms]
  ultimately show ?thesis
    by (simp add: ci_dllist_remove_safe_def set_next_def set_prev_def Let_def nb dlist_def [of _ x])
qed

interpretation ci_dl: deque dlist ci_dllist_push ci_dllist_push_tail ci_dllist_remove
  by unfold_locales (use ci_dllist_push_ok ci_dllist_push_tail_ok ci_dllist_remove_ok in \<open>auto simp: dlist_def\<close>)

lemma ci_dllist_pop_ok:
  assumes "dlist h a (x # xs)"
  shows "\<exists>h'. ci_dllist_pop a h = Some (x, h') \<and> dlist h' a xs"
  using ci_dl.rem_ok [of h a "[]" x xs] dlist_anchor(1) [OF assms] assms by (auto simp: ci_dllist_pop_def)

lemma ci_dllist_pop_tail_ok:
  assumes "dlist h a (xs @ [x])"
  shows "\<exists>h'. ci_dllist_pop_tail a h = Some (x, h') \<and> dlist h' a xs"
  using ci_dl.rem_ok [of h a xs x "[]"] dlist_anchor(2) [OF assms] assms by (auto simp: ci_dllist_pop_tail_def)

lemma ci_dllist_is_empty_ok: "dlist h a xs \<Longrightarrow> ci_dllist_is_empty a h \<longleftrightarrow> xs = []"
  using dlist_anchor(1) [of h a xs] by (cases xs) (auto simp: ci_dllist_is_empty_def dlist_def)

lemma ci_dllist_try_pop_ok:
  assumes "dlist h a xs"
  shows "case xs of [] \<Rightarrow> ci_dllist_try_pop a h = Some (0, h)
       | x # ys \<Rightarrow> \<exists>h'. ci_dllist_try_pop a h = Some (x, h') \<and> dlist h' a ys"
  using assms ci_dllist_pop_ok [of h a] by (cases xs) (simp_all add: ci_dllist_try_pop_def ci_dllist_is_empty_ok [OF assms])

section \<open>Loops over a list\<close>

text \<open>The loop runs its body over the represented list, in order, and ends.\<close>

fun each :: "('x \<Rightarrow> 's \<Rightarrow> 'r + 's) \<Rightarrow> 'x list \<Rightarrow> 's \<Rightarrow> 'r + 's" where
  "each body [] s = Inr s"
| "each body (x # xs) s = (case body x s of Inl r \<Rightarrow> Inl r | Inr s \<Rightarrow> each body xs s)"

fun walk :: "('p \<Rightarrow> 'p) \<Rightarrow> 'p \<Rightarrow> 'p list \<Rightarrow> 'p \<Rightarrow> bool" where
  "walk nx a [] p = (p = a)"
| "walk nx a (y # ys) p = (p = y \<and> y \<noteq> a \<and> walk nx a ys (nx y))"

lemma dlist_walk:
  assumes "dlist h a xs"
  shows "walk (dl_next h) a xs (dl_next h a)"
proof -
  have "dlpath h (ys @ [a]) \<Longrightarrow> a \<notin> set ys \<Longrightarrow> walk (dl_next h) a ys (hd (ys @ [a]))" for ys
  proof (induction ys)
    case (Cons y ys)
    then have "dlpath h (ys @ [a])" "dl_next h y = hd (ys @ [a])" by (cases ys; simp)+
    with Cons show ?case by auto
  qed simp
  from this [of xs] show ?thesis using dlist_anchor(1) [OF assms] assms by (cases xs) (simp_all add: dlist_def)
qed

lemma for_each_walk: "walk (dl_next h) a ys p \<Longrightarrow> CI_DLLIST_FOR_EACH a h body p s = Some (each body ys s)"
  by (induction ys arbitrary: p s; subst CI_DLLIST_FOR_EACH.simps) (auto split: sum.split)

lemma for_each_list:
  assumes "dlist h a xs"
  shows "CI_DLLIST_FOR_EACH a h body (ci_dllist_start a h) s = Some (each body xs s)"
  unfolding ci_dllist_start_def by (rule for_each_walk [OF dlist_walk [OF assms]])

lemma each_count: "each (\<lambda>l n. Inr (Suc n) :: unit + nat) xs k = Inr (k + length xs)"
  by (induction xs arbitrary: k) auto

lemma each_member: "each (\<lambda>l' u. if l' = l then Inl () else Inr u) xs () = (if l \<in> set xs then Inl () else Inr ())"
  by (induction xs) auto

lemma ci_dllist_count_ok: "dlist h a xs \<Longrightarrow> ci_dllist_count a h = Some (length xs)"
  by (simp add: ci_dllist_count_def for_each_list each_count)

lemma ci_dllist_is_member_ok: "dlist h a xs \<Longrightarrow> ci_dllist_is_member a l h = Some (l \<in> set xs)"
  by (simp add: ci_dllist_is_member_def for_each_list each_member)

section \<open>Moving whole lists\<close>

text \<open>A path relinked into the gap between two others.\<close>

lemma dlpath_splice:
  assumes paths: "dlpath h (bs @ [p])" "dlpath h ys" "dlpath h (n # cs)" and ys: "ys = y # ys'" "ys = zs @ [z]"
    and nx: "\<forall>v \<in> set bs \<union> set zs \<union> set (butlast (n # cs)). dl_next h' v = dl_next h v"
    and pv: "\<forall>v \<in> set (tl (bs @ [p])) \<union> set ys' \<union> set cs. dl_prev h' v = dl_prev h v"
    and ends: "dl_next h' p = y" "dl_prev h' y = p" "dl_next h' z = n" "dl_prev h' n = z"
  shows "dlpath h' ((bs @ [p]) @ ys @ n # cs)"
proof -
  have "dlpath h' (bs @ [p])" using dlpath_cong [of "bs @ [p]" h' h] paths(1) nx pv by simp
  moreover have "dlpath h' ys"
    using dlpath_cong [of ys h' h] paths(2) nx pv ys by (metis Un_iff butlast_snoc list.sel(3))
  moreover have "dlpath h' (n # cs)" using dlpath_cong [of "n # cs" h' h] paths(3) nx pv by simp
  moreover have "dlpath h' (ys @ n # cs) = (dlpath h' ys \<and> dlpath h' (z # n # cs))"
    unfolding ys(2) using dlpath_append [of h' zs z "n # cs"] by simp
  moreover have "dlpath h' ((bs @ [p]) @ ys @ n # cs) = (dlpath h' (bs @ [p]) \<and> dlpath h' (p # ys @ n # cs))"
    using dlpath_append [of h' bs p "ys @ n # cs"] by simp
  ultimately show ?thesis using ends by (simp add: ys(1))
qed

lemma dlist_inner: "dlist h b ys \<Longrightarrow> dlpath h ys"
  using dlpath_append [of h "b # butlast ys" "last ys" "[b]"] dlpath_append [of h "[b]" "hd ys" "tl ys"]
  by (cases ys rule: rev_cases) (auto simp: dlist_def neq_Nil_conv Cons_eq_append_conv)

lemma dlist_splice:
  assumes cut: "a # us = bs @ [p]" "vs @ [a] = n # cs" and l: "dlist h a (us @ vs)" "dlist h b ys"
    and ys: "ys = y # ys'" "ys = zs @ [z]" and disj: "set (b # ys) \<inter> set (a # us @ vs) = {}"
    and nx: "\<And>v. v \<noteq> b \<Longrightarrow> dl_next h' v = ((dl_next h)(p := y, z := n)) v"
    and pv: "\<And>v. v \<noteq> b \<Longrightarrow> dl_prev h' v = ((dl_prev h)(y := p, n := z)) v"
  shows "dlist h' a (us @ ys @ vs)"
proof -
  have d: "distinct (a # us @ vs)" and path: "dlpath h (bs @ [p])" "dlpath h (n # cs)"
    using l(1) by (simp_all only: dlist_cut [OF cut])
  note f = cut_facts [OF cut d]
  have dy: "distinct (b # ys)" using l(2) by (simp add: dlist_def)
  have sets: "set bs \<subseteq> set (a # us)" "set cs \<subseteq> set (a # vs)" using f by auto
  have "y \<in> set ys" "set ys' \<subseteq> set ys" by (auto simp: ys(1))
  moreover have "z \<in> set ys" "set zs \<subseteq> set ys" by (auto simp: ys(2))
  ultimately have in_ys: "y \<in> set ys" "z \<in> set ys" "set zs \<subseteq> set ys" "set ys' \<subseteq> set ys" by simp_all
  have end_ys: "z \<notin> set zs" using dy ys(2) by simp
  have head_ys: "y \<notin> set ys'" using dy ys(1) by simp
  have b: "b \<notin> set ys" "b \<notin> set (a # us @ vs)" using dy disj by auto
  have "\<forall>v \<in> set bs \<union> set zs \<union> set vs. v \<noteq> b \<and> v \<noteq> p \<and> v \<noteq> z"
    using disj sets in_ys f(1,2,5) end_ys b by auto
  then have 1: "\<forall>v \<in> set bs \<union> set zs \<union> set vs. dl_next h' v = dl_next h v" by (simp add: nx)
  have "\<forall>v \<in> set us \<union> set ys' \<union> set cs. v \<noteq> b \<and> v \<noteq> y \<and> v \<noteq> n"
    using disj sets in_ys f(3,4,6) head_ys b by auto
  then have 2: "\<forall>v \<in> set us \<union> set ys' \<union> set cs. dl_prev h' v = dl_prev h v" by (simp add: pv)
  have "p \<noteq> b" "p \<noteq> z" "y \<noteq> b" "y \<noteq> n" "z \<noteq> b" "n \<noteq> b"
    using disj in_ys f(5,6) b by auto
  then have 3: "dl_next h' p = y" "dl_prev h' y = p" "dl_next h' z = n" "dl_prev h' n = z" by (simp_all add: nx pv)
  have "dlpath h' ((bs @ [p]) @ ys @ n # cs)"
    by (rule dlpath_splice [OF path(1) dlist_inner [OF l(2)] path(2) ys _ _ 3]) (use 1 2 in \<open>simp_all only: f(9,10)\<close>)
  then have "dlpath h' (a # (us @ ys @ vs) @ [a])" by (simp flip: cut)
  moreover have "distinct (a # us @ ys @ vs)" using d dy disj by auto
  ultimately show ?thesis by (simp add: dlist_def)
qed

lemma dlist_ends:
  assumes "dlist h b ys" "ys = y # ys'" "ys = zs @ [z]"
  shows "dl_next h b = y" "dl_prev h b = z"
proof -
  show "dl_next h b = y" using dlist_anchor(1) [OF assms(1)] unfolding assms(2) by simp
  show "dl_prev h b = z" using dlist_anchor(2) [OF assms(1)] unfolding assms(3) by simp
qed

lemma ci_dllist_join_ok:
  assumes l: "dlist h a xs" "dlist h b ys" and disj: "set (b # ys) \<inter> set (a # xs) = {}"
  shows "dlist (ci_dllist_join a b h) a (xs @ ys) \<and> dlist (ci_dllist_join a b h) b []"
proof (cases "ys = []")
  case True
  with ci_dllist_is_empty_ok [OF l(2)] l show ?thesis
    by (simp add: ci_dllist_join_def ci_dllist_not_empty_def ci_dllist_is_empty_def)
next
  case False
  obtain bs p n cs where cut: "a # xs = bs @ [p]" "[] @ [a] = n # cs" by (rule cut_exists [of a xs "[]"])
  then have n: "n = a" "cs = []" by simp_all
  obtain y ys' zs z where ys: "ys = y # ys'" "ys = zs @ [z]" using False by (metis neq_Nil_conv rev_exhaust)
  have "last (a # xs) = p" unfolding cut(1) by simp
  then have "dl_prev h a = p" using dlist_anchor(2) [OF l(1)] by simp
  note anchor = this dlist_ends [OF l(2) ys]
  have "p \<in> set (a # xs)" using cut(1) by simp
  moreover have "y \<in> set ys" "z \<in> set ys" by (simp add: ys(1)) (simp add: ys(2))
  moreover have "dlist h b ys" by fact
  ultimately have ne: "p \<noteq> b" "p \<noteq> z" "y \<noteq> b" "z \<noteq> b" "a \<noteq> b" "a \<noteq> y" using disj by (auto simp: dlist_def)
  let ?h = "ci_dllist_join a b h"
  have "ci_dllist_not_empty b h" using ne anchor by (simp add: ci_dllist_not_empty_def)
  then have eq: "dl_next ?h = (dl_next h)(p := y, z := a, b := b)" "dl_prev ?h = (dl_prev h)(y := p, a := z, b := b)"
    using ne by (simp_all add: ci_dllist_join_def ci_dllist_init_def set_next_def set_prev_def Let_def anchor)
  have "dlist ?h a (xs @ ys @ [])"
    by (rule dlist_splice [OF cut _ l(2) ys]) (use l disj eq n in simp_all)
  then show ?thesis using eq by (simp add: dlist_def)
qed

lemma ci_dllist_rehome_ok:
  assumes l: "dlist h b ys" and a: "a \<notin> set (b # ys)"
  shows "dlist (ci_dllist_rehome a b h) a ys \<and> dlist (ci_dllist_rehome a b h) b []"
proof (cases "ys = []")
  case True
  with ci_dllist_is_empty_ok [OF l] l a show ?thesis
    by (simp add: ci_dllist_rehome_def ci_dllist_is_empty_def ci_dllist_init_def set_next_def set_prev_def dlist_def)
next
  case False
  obtain y ys' zs z where ys: "ys = y # ys'" "ys = zs @ [z]" using False by (metis neq_Nil_conv rev_exhaust)
  note anchor = dlist_ends [OF l ys]
  have d: "distinct (b # ys)" using l by (simp add: dlist_def)
  have "y \<in> set ys" "set ys = insert y (set ys')" by (simp_all add: ys(1))
  moreover have "z \<in> set ys" "set ys = insert z (set zs)" by (simp_all add: ys(2))
  ultimately have ne: "y \<noteq> b" "z \<noteq> b" "a \<noteq> b" "a \<noteq> y" "a \<noteq> z" and sets: "a \<notin> set zs \<union> set ys'" "b \<notin> set zs \<union> set ys'"
    using a d by auto
  have ends: "z \<notin> set zs" "y \<notin> set ys'" using d by (simp add: ys(2)) (use d in \<open>simp add: ys(1)\<close>)
  let ?h = "ci_dllist_rehome a b h"
  have "\<not> ci_dllist_is_empty b h" using ne anchor by (simp add: ci_dllist_is_empty_def)
  then have eq: "dl_next ?h = (dl_next h)(a := y, z := a, b := b)" "dl_prev ?h = (dl_prev h)(a := z, y := a, b := b)"
    using ne by (simp_all add: ci_dllist_rehome_def ci_dllist_init_def set_next_def set_prev_def Let_def anchor)
  have "dlpath ?h (([] @ [a]) @ ys @ a # [])"
    by (rule dlpath_splice [OF _ dlist_inner [OF l] _ ys]) (use ne sets ends eq in auto)
  then show ?thesis using eq d a by (simp add: dlist_def)
qed

section \<open>The singly linked list is a stack\<close>

definition sl_link :: "sl_heap \<Rightarrow> nat \<Rightarrow> nat option" where
  "sl_link h l = (if sl_next h l = CI_SLLIST_TAIL then None else Some (sl_next h l))"

definition sl_stack :: "sl_heap \<Rightarrow> nat list \<Rightarrow> bool" where
  "sl_stack h xs \<longleftrightarrow> chain (sl_link h) (if sl_head h = CI_SLLIST_TAIL then None else Some (sl_head h)) xs \<and>
     CI_SLLIST_TAIL \<notin> set xs \<and> 0 \<notin> set xs"

lemma sl_link_upd [simp]: "sl_link (h\<lparr>sl_next := (sl_next h)(l := v), sl_head := u\<rparr>) =
    (sl_link h)(l := if v = CI_SLLIST_TAIL then None else Some v)"
  by (rule ext) (simp add: sl_link_def)

lemma sl_link_upd_pop [simp]: "sl_link (h\<lparr>sl_head := u, sl_next := (sl_next h)(l := v)\<rparr>) =
    (sl_link h)(l := if v = CI_SLLIST_TAIL then None else Some v)"
  by (rule ext) (simp add: sl_link_def)

interpretation ci_sl: lifo sl_stack "\<lambda>h l. l \<noteq> 0 \<and> l \<noteq> CI_SLLIST_TAIL" ci_sllist_push ci_sllist_pop
proof unfold_locales
  show "sl_stack (ci_sllist_push x h) (x # xs)"
    if "sl_stack h xs" "x \<noteq> 0 \<and> x \<noteq> CI_SLLIST_TAIL" "x \<notin> set xs" for h xs x
    using that by (auto simp: sl_stack_def ci_sllist_push_def)
  show "\<exists>h'. ci_sllist_pop h = Some (x, h') \<and> sl_stack h' xs" if l: "sl_stack h (x # xs)" for h x xs
  proof -
    have x: "sl_head h = x" "x \<noteq> CI_SLLIST_TAIL" using l by (auto simp: sl_stack_def split: if_splits)
    have "distinct (x # xs)" using l chain_distinct unfolding sl_stack_def by blast
    then have "x \<notin> set xs" by simp
    then show ?thesis using l x by (auto simp: sl_stack_def ci_sllist_pop_def Let_def sl_link_def [of h x] split: if_splits)
  qed
  show "ci_sllist_pop h = None" if "sl_stack h []" for h
    using that by (auto simp: sl_stack_def ci_sllist_pop_def split: if_splits)
qed simp

text \<open>A link is busy while it is on a list and no longer once it has been popped.\<close>

lemma sl_busy: "sl_stack h xs \<Longrightarrow> l \<in> set xs \<Longrightarrow> ci_sllink_busy l h"
proof -
  have "chain (sl_link h) p xs \<Longrightarrow> 0 \<notin> set xs \<Longrightarrow> l \<in> set xs \<Longrightarrow> sl_next h l \<noteq> 0" for p
  proof (induction xs arbitrary: p)
    case (Cons x xs)
    show ?case
    proof (cases "l = x")
      case True
      with Cons.prems show ?thesis by (cases xs) (auto simp: sl_link_def split: if_splits)
    next
      case False
      with Cons.IH [of "sl_link h x"] Cons.prems show ?thesis by simp
    qed
  qed simp
  then show "sl_stack h xs \<Longrightarrow> l \<in> set xs \<Longrightarrow> ci_sllink_busy l h"
    unfolding sl_stack_def ci_sllink_busy_def by blast
qed

lemma sl_free_after_pop: "ci_sllist_pop h = Some (l, h') \<Longrightarrow> \<not> ci_sllink_busy l h'"
  by (auto simp: ci_sllist_pop_def ci_sllink_busy_def Let_def split: if_splits)

lemma ci_sllist_try_pop_ok:
  "ci_sllist_try_pop h = (case ci_sllist_pop h of None \<Rightarrow> (0, h) | Some r \<Rightarrow> r)"
  by (simp add: ci_sllist_try_pop_def ci_sllist_pop_def Let_def)

text \<open>The guard of the macro does not recognise an empty list.\<close>

lemma CI_SLLIST_TRY_POP_empty: "CI_SLLIST_TRY_POP (ci_sllist_init h) = None"
  by (simp add: CI_SLLIST_TRY_POP_def ci_sllist_pop_def ci_sllist_init_def)

end
