(* ===== verification/OoList.thy ===== *)
theory OoList
  imports CiList
begin

text \<open>
  The doubly linked lists of the shared stack state (\<open>onload/oo_p_dllist.h\<close>).  Links hold
  32-bit offsets (\<open>oo_p\<close>, \<open>onload/state_p.h\<close>) into the shared state, whose base address
  \<open>ni->state\<close> is the first argument of every operation; memory is keyed by 64-bit addresses.
  The view \<open>oo_abs\<close> reads that memory by offset, and the lists satisfy the contract
  \<open>deque\<close> as the lists of pointers do.  The concurrent insertion takes what other threads do
  before and after its compare-and-swap as two functions on memory.
\<close>

section \<open>Offsets and addresses\<close>

type_synonym oo_p = "32 word"

record oo_heap =
  oo_next :: "link_ptr \<Rightarrow> oo_p"
  oo_prev :: "link_ptr \<Rightarrow> oo_p"

record oo_p_dllink_state =
  st_l :: link_ptr
  st_p :: oo_p

definition CI_NETIF_PTR :: "link_ptr \<Rightarrow> oo_p \<Rightarrow> link_ptr" where
  "CI_NETIF_PTR ni p = ni + ucast p"

definition oo_state_ptr_to_statep :: "link_ptr \<Rightarrow> link_ptr \<Rightarrow> oo_p" where
  "oo_state_ptr_to_statep ni ptr = ucast (ptr - ni)"

definition oo_p_dllink_from_p :: "link_ptr \<Rightarrow> oo_p \<Rightarrow> link_ptr" where
  "oo_p_dllink_from_p ni p = CI_NETIF_PTR ni p"

definition oo_p_dllink_ptr :: "link_ptr \<Rightarrow> link_ptr \<Rightarrow> oo_p_dllink_state" where
  "oo_p_dllink_ptr ni l = \<lparr>st_l = l, st_p = oo_state_ptr_to_statep ni l\<rparr>"

definition oo_p_dllink_statep :: "link_ptr \<Rightarrow> oo_p \<Rightarrow> oo_p_dllink_state" where
  "oo_p_dllink_statep ni p = \<lparr>st_l = oo_p_dllink_from_p ni p, st_p = p\<rparr>"

definition oo_p_dllink_sb :: "link_ptr \<Rightarrow> link_ptr \<Rightarrow> oo_p_dllink_state" where
  "oo_p_dllink_sb ni l = oo_p_dllink_ptr ni l"

section \<open>Operations\<close>

definition store_next :: "link_ptr \<Rightarrow> oo_p \<Rightarrow> oo_heap \<Rightarrow> oo_heap" where
  "store_next l v h = h\<lparr>oo_next := (oo_next h)(l := v)\<rparr>"

definition store_prev :: "link_ptr \<Rightarrow> oo_p \<Rightarrow> oo_heap \<Rightarrow> oo_heap" where
  "store_prev l v h = h\<lparr>oo_prev := (oo_prev h)(l := v)\<rparr>"

definition oo_p_dllink_init :: "link_ptr \<Rightarrow> oo_p_dllink_state \<Rightarrow> oo_heap \<Rightarrow> oo_heap" where
  "oo_p_dllink_init ni state h = store_next (st_l state) (st_p state) (store_prev (st_l state) (st_p state) h)"

definition oo_p_dllink_del :: "link_ptr \<Rightarrow> oo_p_dllink_state \<Rightarrow> oo_heap \<Rightarrow> oo_heap" where
  "oo_p_dllink_del ni link h =
     (let h = store_next (oo_p_dllink_from_p ni (oo_prev h (st_l link))) (oo_next h (st_l link)) h
      in store_prev (oo_p_dllink_from_p ni (oo_next h (st_l link))) (oo_prev h (st_l link)) h)"

definition oo_p_dllink_del_init :: "link_ptr \<Rightarrow> oo_p_dllink_state \<Rightarrow> oo_heap \<Rightarrow> oo_heap" where
  "oo_p_dllink_del_init ni link h = oo_p_dllink_init ni link (oo_p_dllink_del ni link h)"

definition oo_p_dllink_add_between ::
  "link_ptr \<Rightarrow> oo_p_dllink_state \<Rightarrow> oo_p_dllink_state \<Rightarrow> oo_p_dllink_state \<Rightarrow> oo_heap \<Rightarrow> oo_heap" where
  "oo_p_dllink_add_between ni prev nxt new h =
     (let h = store_prev (st_l nxt) (st_p new) h;
          h = store_next (st_l new) (st_p nxt) h;
          h = store_prev (st_l new) (st_p prev) h
      in store_next (st_l prev) (st_p new) h)"

definition oo_p_dllink_add :: "link_ptr \<Rightarrow> oo_p_dllink_state \<Rightarrow> oo_p_dllink_state \<Rightarrow> oo_heap \<Rightarrow> oo_heap" where
  "oo_p_dllink_add ni list link h =
     oo_p_dllink_add_between ni list (oo_p_dllink_statep ni (oo_next h (st_l list))) link h"

definition oo_p_dllink_add_tail :: "link_ptr \<Rightarrow> oo_p_dllink_state \<Rightarrow> oo_p_dllink_state \<Rightarrow> oo_heap \<Rightarrow> oo_heap" where
  "oo_p_dllink_add_tail ni list link h =
     oo_p_dllink_add_between ni (oo_p_dllink_statep ni (oo_prev h (st_l list))) list link h"

definition oo_p_dllink_is_empty :: "link_ptr \<Rightarrow> oo_p_dllink_state \<Rightarrow> oo_heap \<Rightarrow> bool" where
  "oo_p_dllink_is_empty ni list h \<longleftrightarrow> oo_next h (st_l list) = st_p list"

definition oo_p_dllink_assert_empty :: "link_ptr \<Rightarrow> oo_p_dllink_state \<Rightarrow> oo_heap \<Rightarrow> bool" where
  "oo_p_dllink_assert_empty ni l h \<longleftrightarrow> oo_next h (st_l l) = st_p l \<and> oo_prev h (st_l l) = st_p l"

text \<open>The loop compares addresses; its body may leave the loop (\<open>Inl\<close>).\<close>

partial_function (option) oo_p_dllink_for_each ::
  "link_ptr \<Rightarrow> oo_p_dllink_state \<Rightarrow> oo_heap \<Rightarrow> (oo_p_dllink_state \<Rightarrow> 's \<Rightarrow> 'r + 's) \<Rightarrow> oo_p_dllink_state \<Rightarrow> 's \<Rightarrow>
   ('r + 's) option" where
  "oo_p_dllink_for_each ni list h body link s =
     (if st_l link = st_l list then Some (Inr s)
      else case body link s of
             Inl r \<Rightarrow> Some (Inl r)
           | Inr s \<Rightarrow> oo_p_dllink_for_each ni list h body (oo_p_dllink_statep ni (oo_next h (st_l link))) s)"

text \<open>The loop that allows the body to unlink the current link reads the successor first; its
  body changes memory.\<close>

partial_function (option) oo_p_dllink_for_each_safe ::
  "link_ptr \<Rightarrow> oo_p_dllink_state \<Rightarrow> (oo_p_dllink_state \<Rightarrow> oo_heap \<Rightarrow> oo_heap) \<Rightarrow> oo_p_dllink_state \<Rightarrow>
   oo_p_dllink_state \<Rightarrow> oo_heap \<Rightarrow> oo_heap option" where
  "oo_p_dllink_for_each_safe ni list body link n h =
     (if st_l link = st_l list then Some h
      else let h = body link h
           in oo_p_dllink_for_each_safe ni list body n (oo_p_dllink_statep ni (oo_next h (st_l n))) h)"

definition oo_p_dllink_splice_between ::
  "link_ptr \<Rightarrow> oo_p_dllink_state \<Rightarrow> oo_p_dllink_state \<Rightarrow> oo_p_dllink_state \<Rightarrow> oo_heap \<Rightarrow> oo_heap" where
  "oo_p_dllink_splice_between ni list prev nxt h =
     (let first = oo_p_dllink_statep ni (oo_next h (st_l list));
          last = oo_p_dllink_statep ni (oo_prev h (st_l list));
          h = store_prev (st_l first) (st_p prev) h;
          h = store_next (st_l prev) (st_p first) h;
          h = store_next (st_l last) (st_p nxt) h
      in store_prev (st_l nxt) (st_p last) h)"

definition oo_p_dllink_splice :: "link_ptr \<Rightarrow> oo_p_dllink_state \<Rightarrow> oo_p_dllink_state \<Rightarrow> oo_heap \<Rightarrow> oo_heap" where
  "oo_p_dllink_splice ni list into h =
     (if \<not> oo_p_dllink_is_empty ni list h
      then oo_p_dllink_splice_between ni list into (oo_p_dllink_statep ni (oo_next h (st_l into))) h
      else h)"

definition oo_p_dllink_splice_tail :: "link_ptr \<Rightarrow> oo_p_dllink_state \<Rightarrow> oo_p_dllink_state \<Rightarrow> oo_heap \<Rightarrow> oo_heap" where
  "oo_p_dllink_splice_tail ni list into h =
     (if \<not> oo_p_dllink_is_empty ni list h
      then oo_p_dllink_splice_between ni list (oo_p_dllink_statep ni (oo_prev h (st_l into))) into h
      else h)"

text \<open>\<open>env1\<close> is what other threads do between the preparation of the link and the
  compare-and-swap, \<open>env2\<close> what they do before the last store.\<close>

definition ci_cas32u_fail :: "link_ptr \<Rightarrow> oo_p \<Rightarrow> oo_p \<Rightarrow> oo_heap \<Rightarrow> bool \<times> oo_heap" where
  "ci_cas32u_fail l oldval newval h = (if oo_next h l = oldval then (False, store_next l newval h) else (True, h))"

definition oo_p_dllink_concurrent_add ::
  "(oo_heap \<Rightarrow> oo_heap) \<Rightarrow> (oo_heap \<Rightarrow> oo_heap) \<Rightarrow> link_ptr \<Rightarrow> oo_p_dllink_state \<Rightarrow> oo_p_dllink_state \<Rightarrow> oo_heap \<Rightarrow>
   bool \<times> oo_heap" where
  "oo_p_dllink_concurrent_add env1 env2 ni list link h =
     (let nxt = oo_next h (st_l list);
          next_orig = oo_next h (st_l link);
          prev_orig = oo_prev h (st_l link);
          h = store_prev (st_l link) (st_p list) (store_next (st_l link) nxt h);
          (failed, h) = ci_cas32u_fail (st_l list) nxt (st_p link) (env1 h)
      in if failed
         then (False, store_prev (st_l link) prev_orig (store_next (st_l link) next_orig h))
         else let h = env2 h
              in (True, store_prev (st_l (oo_p_dllink_statep ni nxt)) (oo_next h (st_l list)) h))"

section \<open>The memory by offset\<close>

definition oo_abs :: "link_ptr \<Rightarrow> oo_heap \<Rightarrow> oo_p dl_heap" where
  "oo_abs ni h = \<lparr>dl_prev = \<lambda>p. oo_prev h (CI_NETIF_PTR ni p), dl_next = \<lambda>p. oo_next h (CI_NETIF_PTR ni p)\<rparr>"

lemma ucast_32_64 [simp]: "(ucast (ucast (p :: 32 word) :: 64 word) :: 32 word) = p"
  by (rule bit_word_eqI) (simp add: bit_unsigned_iff)

lemma CI_NETIF_PTR_inj [simp]: "CI_NETIF_PTR ni p = CI_NETIF_PTR ni q \<longleftrightarrow> p = q"
proof
  assume "CI_NETIF_PTR ni p = CI_NETIF_PTR ni q"
  then have "(ucast p :: link_ptr) = ucast q" by (simp add: CI_NETIF_PTR_def)
  then show "p = q" by (metis ucast_32_64)
qed simp

text \<open>Both ways to make a link state agree on addresses of the shared state.\<close>

lemma oo_p_dllink_ptr_statep: "oo_p_dllink_ptr ni (CI_NETIF_PTR ni p) = oo_p_dllink_statep ni p"
  by (simp add: oo_p_dllink_ptr_def oo_p_dllink_statep_def oo_p_dllink_from_p_def oo_state_ptr_to_statep_def CI_NETIF_PTR_def)

lemma st_simps [simp]: "st_l (oo_p_dllink_statep ni p) = CI_NETIF_PTR ni p" "st_p (oo_p_dllink_statep ni p) = p"
  "oo_p_dllink_from_p ni p = CI_NETIF_PTR ni p"
  by (simp_all add: oo_p_dllink_statep_def oo_p_dllink_from_p_def)

lemma oo_abs_simps [simp]:
  "dl_next (oo_abs ni h) p = oo_next h (CI_NETIF_PTR ni p)" "dl_prev (oo_abs ni h) p = oo_prev h (CI_NETIF_PTR ni p)"
  by (simp_all add: oo_abs_def)

lemma oo_abs_store [simp]:
  "dl_next (oo_abs ni (store_next (CI_NETIF_PTR ni p) v h)) = (dl_next (oo_abs ni h))(p := v)"
  "dl_prev (oo_abs ni (store_next l v h)) = dl_prev (oo_abs ni h)"
  "dl_prev (oo_abs ni (store_prev (CI_NETIF_PTR ni p) v h)) = (dl_prev (oo_abs ni h))(p := v)"
  "dl_next (oo_abs ni (store_prev l v h)) = dl_next (oo_abs ni h)"
  by (auto simp: oo_abs_def store_next_def store_prev_def fun_eq_iff)

lemma store_get [simp]:
  "oo_next (store_next l v h) l' = (if l' = l then v else oo_next h l')" "oo_prev (store_next l v h) = oo_prev h"
  "oo_prev (store_prev l v h) l' = (if l' = l then v else oo_prev h l')" "oo_next (store_prev l v h) = oo_next h"
  by (simp_all add: store_next_def store_prev_def)

abbreviation oo_list :: "link_ptr \<Rightarrow> oo_heap \<Rightarrow> oo_p \<Rightarrow> oo_p list \<Rightarrow> bool" where
  "oo_list ni h \<equiv> dlist (oo_abs ni h)"

lemma oo_init_ok: "oo_list ni (oo_p_dllink_init ni (oo_p_dllink_statep ni a) h) a []"
  by (simp add: oo_p_dllink_init_def dlist_def)

lemma oo_add_between_ok:
  assumes cut: "a # us = bs @ [p]" "vs @ [a] = n # cs" and l: "oo_list ni h a (us @ vs)" and x: "x \<notin> set (a # us @ vs)"
  shows "oo_list ni (oo_p_dllink_add_between ni (oo_p_dllink_statep ni p) (oo_p_dllink_statep ni n) (oo_p_dllink_statep ni x) h)
    a (us @ x # vs)"
proof -
  have "distinct (a # us @ vs)" using l by (simp add: dlist_def)
  then have "x \<noteq> p" "x \<noteq> n" using cut_facts(5,6) [OF cut] x by auto
  then show ?thesis
    by (intro dlist_insert [OF cut l x]) (simp_all add: oo_p_dllink_add_between_def Let_def fun_eq_iff)
qed

lemma oo_add_ok:
  assumes "oo_list ni h a xs" "x \<notin> set (a # xs)"
  shows "oo_list ni (oo_p_dllink_add ni (oo_p_dllink_statep ni a) (oo_p_dllink_statep ni x) h) a (x # xs)"
proof -
  obtain n cs where n: "xs @ [a] = n # cs" by (cases xs) auto
  then have "oo_next h (CI_NETIF_PTR ni a) = n" using dlist_anchor(1) [OF assms(1)] by simp
  with oo_add_between_ok [of a "[]" "[]" a xs n cs ni h x] n assms show ?thesis by (simp add: oo_p_dllink_add_def)
qed

lemma oo_add_tail_ok:
  assumes "oo_list ni h a xs" "x \<notin> set (a # xs)"
  shows "oo_list ni (oo_p_dllink_add_tail ni (oo_p_dllink_statep ni a) (oo_p_dllink_statep ni x) h) a (xs @ [x])"
proof -
  obtain bs p where p: "a # xs = bs @ [p]" by (metis append_butlast_last_id list.distinct(1))
  then have "last (a # xs) = p" by simp
  then have "oo_prev h (CI_NETIF_PTR ni a) = p" using dlist_anchor(2) [OF assms(1)] by simp
  with oo_add_between_ok [of a xs bs p "[]" a "[]" ni h x] p assms show ?thesis by (simp add: oo_p_dllink_add_tail_def)
qed

lemma oo_del_ok:
  assumes "oo_list ni h a (us @ x # vs)"
  shows "oo_list ni (oo_p_dllink_del ni (oo_p_dllink_statep ni x) h) a (us @ vs)"
proof -
  obtain bs p n cs where cut: "a # us = bs @ [p]" "vs @ [a] = n # cs" by (rule cut_exists)
  have "distinct (a # us @ vs)" "x \<notin> set (a # us @ vs)" using assms by (auto simp: dlist_def)
  then have "x \<noteq> p" "x \<noteq> n" using cut_facts(5,6) [OF cut] by auto
  then show ?thesis using dlist_neighbours(1,2) [OF assms cut]
    by (intro dlist_remove [OF cut assms]) (simp_all add: oo_p_dllink_del_def Let_def)
qed

interpretation oo_dl: deque "oo_list ni"
  "\<lambda>a x h. Some (oo_p_dllink_add ni (oo_p_dllink_statep ni a) (oo_p_dllink_statep ni x) h)"
  "\<lambda>a x h. Some (oo_p_dllink_add_tail ni (oo_p_dllink_statep ni a) (oo_p_dllink_statep ni x) h)"
  "\<lambda>x h. Some (oo_p_dllink_del ni (oo_p_dllink_statep ni x) h)" for ni
  by unfold_locales (use oo_add_ok oo_add_tail_ok oo_del_ok in \<open>auto simp: dlist_def\<close>)

lemma oo_del_init_ok:
  assumes l: "oo_list ni h a (us @ x # vs)"
  shows "oo_list ni (oo_p_dllink_del_init ni (oo_p_dllink_statep ni x) h) a (us @ vs) \<and>
    oo_p_dllink_assert_empty ni (oo_p_dllink_statep ni x) (oo_p_dllink_del_init ni (oo_p_dllink_statep ni x) h)"
proof
  let ?h = "oo_p_dllink_del ni (oo_p_dllink_statep ni x) h" and ?h' = "oo_p_dllink_del_init ni (oo_p_dllink_statep ni x) h"
  have x: "x \<notin> set (a # (us @ vs) @ [a])" using l by (auto simp: dlist_def)
  have "dlpath (oo_abs ni ?h') (a # (us @ vs) @ [a]) = dlpath (oo_abs ni ?h) (a # (us @ vs) @ [a])"
    by (rule dlpath_cong) (use x in \<open>auto simp: oo_p_dllink_del_init_def oo_p_dllink_init_def dest!: in_set_butlastD\<close>)
  with oo_del_ok [OF l] show "oo_list ni ?h' a (us @ vs)" by (simp add: dlist_def)
  show "oo_p_dllink_assert_empty ni (oo_p_dllink_statep ni x) ?h'"
    by (simp add: oo_p_dllink_assert_empty_def oo_p_dllink_del_init_def oo_p_dllink_init_def)
qed

lemma oo_is_empty_ok: "oo_list ni h a xs \<Longrightarrow> oo_p_dllink_is_empty ni (oo_p_dllink_statep ni a) h \<longleftrightarrow> xs = []"
  using dlist_anchor(1) [of "oo_abs ni h" a xs] by (cases xs) (auto simp: oo_p_dllink_is_empty_def dlist_def)

section \<open>Loops and whole lists\<close>

lemma oo_for_each_walk:
  "walk (dl_next (oo_abs ni h)) a ys p \<Longrightarrow>
   oo_p_dllink_for_each ni (oo_p_dllink_statep ni a) h body (oo_p_dllink_statep ni p) s =
     Some (each (\<lambda>p. body (oo_p_dllink_statep ni p)) ys s)"
  by (induction ys arbitrary: p s; subst oo_p_dllink_for_each.simps) (auto split: sum.split)

text \<open>Unlinking every member inside the safe loop empties the list.\<close>

lemma oo_drain:
  "oo_list ni h a xs \<Longrightarrow>
   \<exists>h'. oo_p_dllink_for_each_safe ni (oo_p_dllink_statep ni a) (oo_p_dllink_del_init ni)
          (oo_p_dllink_statep ni (hd (xs @ [a])))
          (oo_p_dllink_statep ni (oo_next h (CI_NETIF_PTR ni (hd (xs @ [a]))))) h = Some h' \<and> oo_list ni h' a []"
proof (induction xs arbitrary: h)
  case (Cons x xs)
  let ?h = "oo_p_dllink_del_init ni (oo_p_dllink_statep ni x) h"
  have "oo_next h (CI_NETIF_PTR ni x) = hd (xs @ [a])"
    using dlist_neighbours(2) [of "oo_abs ni h" a "[]" x xs "[]" a "hd (xs @ [a])" "tl (xs @ [a])"] Cons.prems by simp
  moreover have "x \<noteq> a" using Cons.prems by (auto simp: dlist_def)
  moreover have "oo_list ni ?h a xs" using oo_del_init_ok [of ni h a "[]" x xs] Cons.prems by simp
  moreover note Cons.IH [OF this]
  ultimately show ?case by (subst oo_p_dllink_for_each_safe.simps) (simp add: Let_def)
qed (subst oo_p_dllink_for_each_safe.simps, simp)

lemma oo_splice_between_ok:
  assumes cut: "a # us = bs @ [p]" "vs @ [a] = n # cs" and l: "oo_list ni h a (us @ vs)" "oo_list ni h b ys"
    and ys: "ys \<noteq> []" and disj: "set (b # ys) \<inter> set (a # us @ vs) = {}"
  shows "oo_list ni (oo_p_dllink_splice_between ni (oo_p_dllink_statep ni b) (oo_p_dllink_statep ni p) (oo_p_dllink_statep ni n) h)
    a (us @ ys @ vs)"
proof -
  obtain y ys' zs z where e: "ys = y # ys'" "ys = zs @ [z]" using ys by (metis neq_Nil_conv rev_exhaust)
  have b: "oo_next h (CI_NETIF_PTR ni b) = y" "oo_prev h (CI_NETIF_PTR ni b) = z" using dlist_ends [OF l(2) e] by simp_all
  show ?thesis
    by (rule dlist_splice [OF cut l e disj]) (simp_all add: oo_p_dllink_splice_between_def b Let_def)
qed

lemma oo_splice_tail_ok:
  assumes l: "oo_list ni h a xs" "oo_list ni h b ys" and disj: "set (b # ys) \<inter> set (a # xs) = {}"
  shows "oo_list ni (oo_p_dllink_splice_tail ni (oo_p_dllink_statep ni b) (oo_p_dllink_statep ni a) h) a (xs @ ys)"
proof (cases "ys = []")
  case False
  obtain bs p where p: "a # xs = bs @ [p]" by (metis append_butlast_last_id list.distinct(1))
  then have "last (a # xs) = p" by simp
  then have "oo_prev h (CI_NETIF_PTR ni a) = p" using dlist_anchor(2) [OF l(1)] by simp
  with oo_splice_between_ok [of a xs bs p "[]" a "[]" ni h b ys] p l disj False show ?thesis
    by (simp add: oo_p_dllink_splice_tail_def oo_is_empty_ok [OF l(2)])
qed (use l in \<open>simp add: oo_p_dllink_splice_tail_def oo_is_empty_ok\<close>)

lemma oo_splice_ok:
  assumes l: "oo_list ni h a xs" "oo_list ni h b ys" and disj: "set (b # ys) \<inter> set (a # xs) = {}"
  shows "oo_list ni (oo_p_dllink_splice ni (oo_p_dllink_statep ni b) (oo_p_dllink_statep ni a) h) a (ys @ xs)"
proof (cases "ys = []")
  case False
  obtain n cs where n: "xs @ [a] = n # cs" by (cases xs) auto
  then have "oo_next h (CI_NETIF_PTR ni a) = n" using dlist_anchor(1) [OF l(1)] by simp
  with oo_splice_between_ok [of a "[]" "[]" a xs n cs ni h b ys] n l disj False show ?thesis
    by (simp add: oo_p_dllink_splice_def oo_is_empty_ok [OF l(2)])
qed (use l in \<open>simp add: oo_p_dllink_splice_def oo_is_empty_ok\<close>)

lemma each_collect: "each (\<lambda>p acc. Inr (acc @ [f p])) ys acc = (Inr (acc @ map f ys) :: 'r + 'b list)"
  by (induction ys arbitrary: acc) auto

section \<open>Both lists run any sequence of operations alike\<close>

text \<open>The members of a list of pointers and of a list of offsets, as their loops visit them.\<close>

definition dllist_members :: "link_ptr \<Rightarrow> link_ptr dl_heap \<Rightarrow> (unit + link_ptr list) option" where
  "dllist_members a h = CI_DLLIST_FOR_EACH a h (\<lambda>l acc. Inr (acc @ [l])) (ci_dllist_start a h) []"

definition oo_members :: "link_ptr \<Rightarrow> oo_p \<Rightarrow> oo_heap \<Rightarrow> (unit + oo_p list) option" where
  "oo_members ni a h =
     (let list = oo_p_dllink_statep ni a
      in oo_p_dllink_for_each ni list h (\<lambda>l acc. Inr (acc @ [st_p l])) (oo_p_dllink_statep ni (oo_next h (st_l list))) [])"

lemma dllist_members_ok: "dlist h a xs \<Longrightarrow> dllist_members a h = Some (Inr xs)"
  using each_collect [of "\<lambda>l. l" xs "[]"] by (simp add: dllist_members_def for_each_list)

lemma oo_collect_walk:
  assumes "walk (dl_next (oo_abs ni h)) a ys p"
  shows "oo_p_dllink_for_each ni (oo_p_dllink_statep ni a) h (\<lambda>l acc. Inr (acc @ [st_p l])) (oo_p_dllink_statep ni p) [] =
    Some (Inr ys :: unit + oo_p list)"
  by (simp add: oo_for_each_walk [OF assms] each_collect [of "\<lambda>l. l", simplified])

lemma oo_members_ok: "oo_list ni h a xs \<Longrightarrow> oo_members ni a h = Some (Inr xs)"
  using oo_collect_walk [OF dlist_walk] by (simp add: oo_members_def)

lemma deque_spec_map:
  "inj f \<Longrightarrow> deque_spec (f a) (map f xs) (map (map_deque_op f) ops) = map_option (map f) (deque_spec a xs ops)"
proof (induction ops arbitrary: xs)
  case (Cons p ops)
  have "remove1 (f x) (map f xs) = map f (remove1 x xs)" for x
    using Cons.prems by (induction xs) (auto simp: inj_eq)
  with Cons Cons.IH [of "x # xs" for x] Cons.IH [of "xs @ [x]" for x] show ?case
    by (cases p) (auto simp: inj_eq)
qed simp

text \<open>
  C23. Any sequence of pushes at either end and removals that is legal on lists without
  repetition (\<open>deque_spec\<close>) runs without a failed assertion on the list of pointers and on the
  list of offsets in the shared state, and the loops over the two lists then visit exactly the
  members the specification gives, one by their addresses, the other by their offsets.
\<close>

theorem deques_agree:
  assumes "deque_spec a [] ops = Some ys"
  shows "\<exists>h1 h2.
    deque_run ci_dllist_push ci_dllist_push_tail ci_dllist_remove (CI_NETIF_PTR ni a)
      (ci_dllist_init (CI_NETIF_PTR ni a) g1) (map (map_deque_op (CI_NETIF_PTR ni)) ops) = Some h1 \<and>
    deque_run (\<lambda>a x h. Some (oo_p_dllink_add ni (oo_p_dllink_statep ni a) (oo_p_dllink_statep ni x) h))
      (\<lambda>a x h. Some (oo_p_dllink_add_tail ni (oo_p_dllink_statep ni a) (oo_p_dllink_statep ni x) h))
      (\<lambda>x h. Some (oo_p_dllink_del ni (oo_p_dllink_statep ni x) h)) a
      (oo_p_dllink_init ni (oo_p_dllink_statep ni a) g2) ops = Some h2 \<and>
    oo_members ni a h2 = Some (Inr ys) \<and>
    dllist_members (CI_NETIF_PTR ni a) h1 = Some (Inr (map (CI_NETIF_PTR ni) ys))"
proof -
  have "deque_spec (CI_NETIF_PTR ni a) [] (map (map_deque_op (CI_NETIF_PTR ni)) ops) = Some (map (CI_NETIF_PTR ni) ys)"
    using deque_spec_map [of "CI_NETIF_PTR ni" a "[]" ops] assms by (simp add: inj_def)
  from ci_dl.run_list [OF ci_dllist_init_ok this] oo_dl.run_list [OF oo_init_ok assms]
  show ?thesis using dllist_members_ok oo_members_ok by blast
qed

theorem deques_agree_witness:
  "\<exists>h1 h2.
    deque_run ci_dllist_push ci_dllist_push_tail ci_dllist_remove (CI_NETIF_PTR 4096 0)
      (ci_dllist_init (CI_NETIF_PTR 4096 0) \<lparr>dl_prev = \<lambda>_. 0, dl_next = \<lambda>_. 0\<rparr>)
      (map (map_deque_op (CI_NETIF_PTR 4096)) [Push_tail 16, Push 32, Push_tail 48, Remove 16]) = Some h1 \<and>
    deque_run (\<lambda>a x h. Some (oo_p_dllink_add 4096 (oo_p_dllink_statep 4096 a) (oo_p_dllink_statep 4096 x) h))
      (\<lambda>a x h. Some (oo_p_dllink_add_tail 4096 (oo_p_dllink_statep 4096 a) (oo_p_dllink_statep 4096 x) h))
      (\<lambda>x h. Some (oo_p_dllink_del 4096 (oo_p_dllink_statep 4096 x) h)) 0
      (oo_p_dllink_init 4096 (oo_p_dllink_statep 4096 0) \<lparr>oo_next = \<lambda>_. 0, oo_prev = \<lambda>_. 0\<rparr>)
      [Push_tail 16, Push 32, Push_tail 48, Remove 16] = Some h2 \<and>
    oo_members 4096 0 h2 = Some (Inr [32, 48]) \<and>
    dllist_members (CI_NETIF_PTR 4096 0) h1 = Some (Inr (map (CI_NETIF_PTR 4096) [32, 48]))"
  by (rule deques_agree) simp

section \<open>Insertion beside a concurrent traversal\<close>

lemma concurrent_add_result:
  assumes l: "oo_list ni h a xs" and x: "x \<notin> set (a # xs)"
    and r: "oo_p_dllink_concurrent_add (store_next (CI_NETIF_PTR ni a) v1) (store_next (CI_NETIF_PTR ni a) v2) ni
      (oo_p_dllink_statep ni a) (oo_p_dllink_statep ni x) h = (ok, h')"
  shows "ok \<longleftrightarrow> v1 = oo_next h (CI_NETIF_PTR ni a)"
    and "\<not> ok \<Longrightarrow> h' = store_next (CI_NETIF_PTR ni a) v1 h"
    and "ok \<Longrightarrow> dl_next (oo_abs ni h') = (dl_next (oo_abs ni h))(x := dl_next (oo_abs ni h) a, a := v2) \<and>
      dl_prev (oo_abs ni h') = (dl_prev (oo_abs ni h))(x := a, dl_next (oo_abs ni h) a := v2)"
proof -
  have "x \<noteq> a" using x by auto
  then show "ok \<longleftrightarrow> v1 = oo_next h (CI_NETIF_PTR ni a)" "\<not> ok \<Longrightarrow> h' = store_next (CI_NETIF_PTR ni a) v1 h"
    "ok \<Longrightarrow> dl_next (oo_abs ni h') = (dl_next (oo_abs ni h))(x := dl_next (oo_abs ni h) a, a := v2) \<and>
      dl_prev (oo_abs ni h') = (dl_prev (oo_abs ni h))(x := a, dl_next (oo_abs ni h) a := v2)"
    using r by (auto simp: oo_p_dllink_concurrent_add_def ci_cas32u_fail_def Let_def store_next_def store_prev_def
        oo_abs_def fun_eq_iff split: if_splits)
qed

lemma concurrent_add_walk:
  assumes l: "oo_list ni h a xs" and x: "x \<notin> set (a # xs)"
    and r: "oo_p_dllink_concurrent_add (store_next (CI_NETIF_PTR ni a) v1) (store_next (CI_NETIF_PTR ni a) v2) ni
      (oo_p_dllink_statep ni a) (oo_p_dllink_statep ni x) h = (ok, h')"
  shows "ok \<Longrightarrow> walk (dl_next (oo_abs ni h')) a (x # xs) x"
proof -
  assume ok
  note nx = concurrent_add_result(3) [OF assms \<open>ok\<close>, THEN conjunct1]
  have "walk f a ys p \<Longrightarrow> \<forall>y \<in> set ys. g y = f y \<Longrightarrow> walk g a ys p" for f g :: "oo_p \<Rightarrow> oo_p" and ys p
    by (induction ys arbitrary: p) auto
  moreover have "\<forall>y \<in> set xs. dl_next (oo_abs ni h') y = dl_next (oo_abs ni h) y"
    using x l unfolding nx by (auto simp: dlist_def)
  ultimately have "walk (dl_next (oo_abs ni h')) a xs (dl_next (oo_abs ni h) a)" using dlist_walk [OF l] by blast
  moreover have "dl_next (oo_abs ni h') x = dl_next (oo_abs ni h) a" using x unfolding nx by auto
  ultimately show ?thesis using x by auto
qed

lemma concurrent_add_list:
  assumes l: "oo_list ni h a xs" and x: "x \<notin> set (a # xs)"
    and r: "oo_p_dllink_concurrent_add (store_next (CI_NETIF_PTR ni a) v1) (store_next (CI_NETIF_PTR ni a) v2) ni
      (oo_p_dllink_statep ni a) (oo_p_dllink_statep ni x) h = (ok, h')"
  shows "ok \<Longrightarrow> v2 = x \<Longrightarrow> oo_list ni h' a (x # xs)"
proof -
  assume ok: ok "v2 = x"
  obtain n cs where n: "xs @ [a] = n # cs" by (cases xs) auto
  then have "dl_next (oo_abs ni h) a = n" using dlist_anchor(1) [OF l] by simp
  with concurrent_add_result(3) [OF assms ok(1)] ok(2) dlist_insert [of a "[]" "[]" a xs n cs "oo_abs ni h" x "oo_abs ni h'"] n l x
  show ?thesis by simp
qed

definition sample_list :: oo_heap where
  "sample_list = \<lparr>oo_next = \<lambda>l. if l = CI_NETIF_PTR 4096 0 then 8 else 0, oo_prev = \<lambda>l. if l = CI_NETIF_PTR 4096 0 then 8 else 0\<rparr>"

lemma sample_list_ok: "oo_list 4096 sample_list 0 [8]"
  by (simp add: dlist_def sample_list_def)

text \<open>
  C24. The insertion that may meet another thread taking the list, which overwrites the head's
  \<open>next\<close> with \<open>v1\<close> before the compare-and-swap and with \<open>v2\<close> after it.  It succeeds exactly
  when the head still holds what was read.  When it fails, memory is as the other thread left
  it, with the link restored.  When it succeeds, a traversal from the new link visits it and
  then every former member, whatever the other thread stored; and without a second store of
  another thread the list is the old one with the link in front.
\<close>

theorem concurrent_add_safe:
  assumes "oo_list ni h a xs" "x \<notin> set (a # xs)"
    and "oo_p_dllink_concurrent_add (store_next (CI_NETIF_PTR ni a) v1) (store_next (CI_NETIF_PTR ni a) v2) ni
      (oo_p_dllink_statep ni a) (oo_p_dllink_statep ni x) h = (ok, h')"
  shows "(ok \<longleftrightarrow> v1 = oo_next h (CI_NETIF_PTR ni a)) \<and>
    (\<not> ok \<longrightarrow> h' = store_next (CI_NETIF_PTR ni a) v1 h) \<and>
    (ok \<longrightarrow> oo_p_dllink_for_each ni (oo_p_dllink_statep ni a) h' (\<lambda>l acc. Inr (acc @ [st_p l]))
       (oo_p_dllink_statep ni x) [] = Some (Inr (x # xs) :: unit + oo_p list)) \<and>
    (ok \<and> v2 = x \<longrightarrow> oo_list ni h' a (x # xs))"
  using concurrent_add_result [OF assms] concurrent_add_walk [OF assms] concurrent_add_list [OF assms]
    oo_collect_walk [of ni h' a "x # xs" x] by blast

theorem concurrent_add_safe_witness:
  "oo_p_dllink_for_each 4096 (oo_p_dllink_statep 4096 0)
     (snd (oo_p_dllink_concurrent_add (store_next (CI_NETIF_PTR 4096 0) 8) (store_next (CI_NETIF_PTR 4096 0) 0) 4096
       (oo_p_dllink_statep 4096 0) (oo_p_dllink_statep 4096 16) sample_list))
     (\<lambda>l acc. Inr (acc @ [st_p l])) (oo_p_dllink_statep 4096 16) [] = Some (Inr [16, 8] :: unit + oo_p list)"
  using concurrent_add_safe [OF sample_list_ok _ prod.collapse [symmetric], of 16 8 0]
  by (simp add: sample_list_def)

end
