(* ===== verification/NetHdr.thy ===== *)
theory NetHdr
  imports CiTools
begin

text \<open>
  Protocol headers: Ethernet (\<open>ci/net/ethernet.h\<close>), IPv4, TCP, UDP and ICMP
  (\<open>ci/net/ipv4.h\<close>), IPv6 (\<open>ci/net/ipv6.h\<close>).  A header is a record of its members as the
  little-endian host reads them; members whose names end in \<open>be16\<close> or \<open>be32\<close> hold
  big-endian values.  Arithmetic is at the width the C code computes with.  The byte swaps are
  characterised bit by bit, so the masks and shifts of the macros become facts about bits.
\<close>

unbundle bit_operations_syntax

section \<open>Byte order\<close>

definition CI_BSWAP_LE16 :: "u16 \<Rightarrow> u16" where "CI_BSWAP_LE16 v = v"
definition CI_BSWAP_LE32 :: "u32 \<Rightarrow> u32" where "CI_BSWAP_LE32 v = v"
definition CI_BSWAP_LE64 :: "u64 \<Rightarrow> u64" where "CI_BSWAP_LE64 v = v"
definition CI_BSWAP_BE16 :: "u16 \<Rightarrow> u16" where "CI_BSWAP_BE16 v = bswap16 v"
definition CI_BSWAP_BE32 :: "u32 \<Rightarrow> u32" where "CI_BSWAP_BE32 v = bswap32 v"

section \<open>Ethernet\<close>

record ci_ether_hdr =
  ether_dhost :: "byte list"
  ether_shost :: "byte list"
  ether_type :: u16

definition CI_ETHERTYPE_IP :: u16 where "CI_ETHERTYPE_IP = CI_BSWAP_BE16 0x0800"
definition CI_ETHERTYPE_IP6 :: u16 where "CI_ETHERTYPE_IP6 = CI_BSWAP_BE16 0x86DD"
definition CI_ETHERTYPE_ARP :: u16 where "CI_ETHERTYPE_ARP = CI_BSWAP_BE16 0x0806"
definition CI_ETHERTYPE_8021Q :: u16 where "CI_ETHERTYPE_8021Q = CI_BSWAP_BE16 0x8100"
definition CI_ETHERTYPE_JUMBO :: u16 where "CI_ETHERTYPE_JUMBO = CI_BSWAP_BE16 0x8870"

definition ci_eth_addr_is_zero :: "byte list \<Rightarrow> bool" where
  "ci_eth_addr_is_zero mac \<longleftrightarrow> mac ! 0 OR mac ! 1 OR mac ! 2 OR mac ! 3 OR mac ! 4 OR mac ! 5 = 0"

definition ci_eth_addr_is_broadcast :: "byte list \<Rightarrow> bool" where
  "ci_eth_addr_is_broadcast mac \<longleftrightarrow> mac ! 0 AND mac ! 1 AND mac ! 2 AND mac ! 3 AND mac ! 4 AND mac ! 5 = 0xFF"

definition ci_eth_addr_is_multicast :: "byte list \<Rightarrow> bool" where
  "ci_eth_addr_is_multicast mac \<longleftrightarrow> mac ! 0 AND 0x01 \<noteq> 0"

definition ci_eth_addr_is_locally_administered :: "byte list \<Rightarrow> bool" where
  "ci_eth_addr_is_locally_administered mac \<longleftrightarrow> mac ! 0 AND 0x02 \<noteq> 0"

section \<open>IPv4\<close>

record ci_ip4_hdr =
  ip_ihl_version :: byte
  ip_tos :: byte
  ip_tot_len_be16 :: u16
  ip_id_be16 :: u16
  ip_frag_off_be16 :: u16
  ip_ttl :: byte
  ip_protocol :: byte
  ip_check_be16 :: u16
  ip_saddr_be32 :: u32
  ip_daddr_be32 :: u32

definition CI_IP4_IHL_VERSION :: "u32 \<Rightarrow> byte" where
  "CI_IP4_IHL_VERSION ihl = ucast (push_bit 4 4 OR drop_bit 2 ihl)"

definition CI_IP4_IHL :: "ci_ip4_hdr \<Rightarrow> u32" where
  "CI_IP4_IHL ip = push_bit 2 (ucast (ip_ihl_version ip AND 0xf))"

definition CI_IP4_VERSION :: "ci_ip4_hdr \<Rightarrow> byte" where
  "CI_IP4_VERSION ip = drop_bit 4 (ip_ihl_version ip)"

text \<open>The offset of the payload from the start of the header.\<close>

definition ci_ip_data :: "ci_ip4_hdr \<Rightarrow> u32" where
  "ci_ip_data ip = CI_IP4_IHL ip"

definition CI_IP4_OFFSET_MASK :: u16 where "CI_IP4_OFFSET_MASK = CI_BSWAP_BE16 0x1fff"
definition CI_IP4_FRAG_MORE :: u16 where "CI_IP4_FRAG_MORE = CI_BSWAP_BE16 0x2000"
definition CI_IP4_FRAG_DONT :: u16 where "CI_IP4_FRAG_DONT = CI_BSWAP_BE16 0x4000"

definition CI_IP4_FRAG_OFFSET :: "ci_ip4_hdr \<Rightarrow> u16" where
  "CI_IP4_FRAG_OFFSET ip = CI_BSWAP_BE16 (ip_frag_off_be16 ip AND CI_IP4_OFFSET_MASK)"

definition CI_IP4_IS_FIRST_FRAG :: "ci_ip4_hdr \<Rightarrow> bool" where
  "CI_IP4_IS_FIRST_FRAG ip \<longleftrightarrow> ip_frag_off_be16 ip AND (CI_IP4_FRAG_MORE OR CI_IP4_OFFSET_MASK) = CI_IP4_FRAG_MORE"

definition CI_IP4_IS_LAST_FRAG :: "ci_ip4_hdr \<Rightarrow> bool" where
  "CI_IP4_IS_LAST_FRAG ip \<longleftrightarrow> ip_frag_off_be16 ip AND CI_IP4_FRAG_MORE = 0"

definition CI_IP4_IS_UNFRAG :: "ci_ip4_hdr \<Rightarrow> bool" where
  "CI_IP4_IS_UNFRAG ip \<longleftrightarrow> ip_frag_off_be16 ip AND (CI_IP4_FRAG_MORE OR CI_IP4_OFFSET_MASK) = 0"

definition CI_IP4_IS_FIRST_OR_ONLY_FRAG :: "ci_ip4_hdr \<Rightarrow> bool" where
  "CI_IP4_IS_FIRST_OR_ONLY_FRAG ip \<longleftrightarrow> CI_IP4_IS_FIRST_FRAG ip \<or> CI_IP4_IS_UNFRAG ip"

definition CI_IP4_SET_FRAG_MORE :: "ci_ip4_hdr \<Rightarrow> ci_ip4_hdr" where
  "CI_IP4_SET_FRAG_MORE ip = ip\<lparr>ip_frag_off_be16 := ip_frag_off_be16 ip OR CI_IP4_FRAG_MORE\<rparr>"

definition CI_IP4_SET_FRAG_DONT :: "ci_ip4_hdr \<Rightarrow> ci_ip4_hdr" where
  "CI_IP4_SET_FRAG_DONT ip = ip\<lparr>ip_frag_off_be16 := ip_frag_off_be16 ip OR CI_IP4_FRAG_DONT\<rparr>"

definition CI_IP4_MAKE_OFFSET :: "u32 \<Rightarrow> u16" where
  "CI_IP4_MAKE_OFFSET off = CI_BSWAP_BE16 (ucast (drop_bit 3 off)) AND CI_IP4_OFFSET_MASK"

definition CI_IP4_ARE_FROM_SAME_PKT :: "ci_ip4_hdr \<Rightarrow> ci_ip4_hdr \<Rightarrow> bool" where
  "CI_IP4_ARE_FROM_SAME_PKT ip1 ip2 \<longleftrightarrow> ip_id_be16 ip1 = ip_id_be16 ip2 \<and>
     ip_saddr_be32 ip1 = ip_saddr_be32 ip2 \<and> ip_daddr_be32 ip1 = ip_daddr_be32 ip2"

definition CI_IP_PROTOCOL_STR :: "nat \<Rightarrow> string" where
  "CI_IP_PROTOCOL_STR p =
     (if p = 0 then ''IP'' else if p = 1 then ''ICMP'' else if p = 2 then ''IGMP'' else if p = 6 then ''TCP''
      else if p = 17 then ''UDP'' else ''<unknown-IP-protocol>'')"

text \<open>A shift by 32 or more is undefined.\<close>

definition ci_ip_prefix2mask :: "u32 \<Rightarrow> u32 option" where
  "ci_ip_prefix2mask prefix_he32 =
     (if prefix_he32 = 0 then Some 0
      else if 32 - prefix_he32 < 32 then Some (push_bit (unat (32 - prefix_he32)) 0xffffffff) else None)"

lemma unat_shl1:
  assumes "(m :: u32) AND 0x80000000 \<noteq> 0"
  shows "2 ^ 31 \<le> unat m" "unat (push_bit 1 m) = 2 * unat m - 2 ^ 32"
proof -
  have "push_bit 31 1 = (0x80000000 :: u32)" by simp
  then have "bit m 31" using assms and_push_bit_1 [of m 31] by simp
  then show ge: "2 ^ 31 \<le> unat m" using top_bit_iff [of 32 m] by simp
  have "unat m < 2 ^ 32" using unsigned_less [where w = m] by simp
  moreover have "unat (push_bit 1 m) = 2 * unat m mod 2 ^ 32"
    by (simp add: push_bit_eq_mult unat_word_ariths mult.commute)
  ultimately show "unat (push_bit 1 m) = 2 * unat m - 2 ^ 32" using ge by (simp add: mod_if)
qed

text \<open>The loop ends for every mask: each shift makes the number smaller.\<close>

function mask2prefix_loop :: "u32 \<Rightarrow> u32 \<Rightarrow> u32" where
  "mask2prefix_loop mask_he32 prefix =
     (if mask_he32 AND 0x80000000 \<noteq> 0 then mask2prefix_loop (push_bit 1 mask_he32) (prefix + 1) else prefix)"
  by pat_completeness auto

termination
proof (relation "measure (\<lambda>(m, p). unat m)")
  fix m p :: u32
  assume a: "m AND 0x80000000 \<noteq> 0"
  have "unat m < 2 ^ 32" using unsigned_less [where w = m] by simp
  then show "((push_bit 1 m, p + 1), m, p) \<in> measure (\<lambda>(m, p). unat m)" using unat_shl1 [OF a] by simp
qed simp

declare mask2prefix_loop.simps [simp del]

definition ci_ip_mask2prefix :: "u32 \<Rightarrow> u32" where
  "ci_ip_mask2prefix mask_he32 = mask2prefix_loop mask_he32 0"

definition CI_IP_ADDR :: "u32 \<Rightarrow> u32 \<Rightarrow> u32 \<Rightarrow> u32 \<Rightarrow> u32" where
  "CI_IP_ADDR ipa ipb ipc ipd = ipa OR push_bit 8 ipb OR push_bit 16 ipc OR push_bit 24 ipd"

definition CI_IP_ADDR_EQUAL :: "u32 \<Rightarrow> u32 \<Rightarrow> u32 \<Rightarrow> u32 \<Rightarrow> u32 \<Rightarrow> u32 \<Rightarrow> bool" where
  "CI_IP_ADDR_EQUAL ipaddr_be32 ipa ipb ipc ipd msk \<longleftrightarrow>
     ipaddr_be32 AND CI_BSWAP_BE32 msk = CI_IP_ADDR ipa ipb ipc ipd AND CI_BSWAP_BE32 msk"

definition CI_IP_IS_MULTICAST :: "u32 \<Rightarrow> bool" where
  "CI_IP_IS_MULTICAST ip_be32 \<longleftrightarrow> ip_be32 AND CI_BSWAP_BE32 0xf0000000 = CI_BSWAP_BE32 0xe0000000"

definition CI_IP_IS_LOOPBACK :: "u32 \<Rightarrow> bool" where
  "CI_IP_IS_LOOPBACK ip_be32 \<longleftrightarrow> ip_be32 AND CI_BSWAP_BE32 0xff000000 = CI_BSWAP_BE32 0x7f000000"

definition CI_IP_ADDR_CMP :: "u32 \<Rightarrow> u32 \<Rightarrow> bool" where
  "CI_IP_ADDR_CMP addr1 addr2 \<longleftrightarrow> addr1 \<noteq> addr2"

section \<open>TCP and UDP\<close>

record ci_tcp_hdr =
  tcp_source_be16 :: u16
  tcp_dest_be16 :: u16
  tcp_seq_be32 :: u32
  tcp_ack_be32 :: u32
  tcp_hdr_len_sl4 :: byte
  tcp_flags :: byte
  tcp_window_be16 :: u16
  tcp_check_be16 :: u16
  tcp_urg_ptr_be16 :: u16

definition CI_TCP_HDR_SET_LEN :: "ci_tcp_hdr \<Rightarrow> u32 \<Rightarrow> ci_tcp_hdr" where
  "CI_TCP_HDR_SET_LEN hdr hlen = hdr\<lparr>tcp_hdr_len_sl4 := ucast (push_bit 2 hlen)\<rparr>"

definition CI_TCP_HDR_LEN :: "ci_tcp_hdr \<Rightarrow> u32" where
  "CI_TCP_HDR_LEN hdr = drop_bit 2 (ucast (tcp_hdr_len_sl4 hdr) AND 0xf0)"

definition CI_TCP_HDR_OPT_LEN :: "ci_tcp_hdr \<Rightarrow> u64" where
  "CI_TCP_HDR_OPT_LEN hdr = ucast (CI_TCP_HDR_LEN hdr) - 20"

definition CI_TCP_PAYLEN :: "ci_ip4_hdr \<Rightarrow> ci_tcp_hdr \<Rightarrow> u32" where
  "CI_TCP_PAYLEN ip tcp = ucast (CI_BSWAP_BE16 (ip_tot_len_be16 ip)) - CI_IP4_IHL ip - CI_TCP_HDR_LEN tcp"

definition CI_TCP_FLAG_STR :: "byte \<Rightarrow> byte \<Rightarrow> string \<Rightarrow> string" where
  "CI_TCP_FLAG_STR flags flag str = (if flags AND flag \<noteq> 0 then str else [])"

definition CI_TCP_FLAGS_PRI_ARG :: "byte \<Rightarrow> string list" where
  "CI_TCP_FLAGS_PRI_ARG flg =
     [CI_TCP_FLAG_STR flg 0x20 ''Urg'', CI_TCP_FLAG_STR flg 0x02 ''Syn'', CI_TCP_FLAG_STR flg 0x01 ''Fin'',
      CI_TCP_FLAG_STR flg 0x04 ''Rst'', CI_TCP_FLAG_STR flg 0x10 ''Ack'', CI_TCP_FLAG_STR flg 0x08 ''Psh'',
      CI_TCP_FLAG_STR flg 0x80 ''Cwr'', CI_TCP_FLAG_STR flg 0x40 ''Ece'']"

record ci_udp_hdr =
  udp_source_be16 :: u16
  udp_dest_be16 :: u16
  udp_len_be16 :: u16
  udp_check_be16 :: u16

definition CI_UDP_PAYLEN :: "ci_udp_hdr \<Rightarrow> u16" where
  "CI_UDP_PAYLEN hdr = CI_BSWAP_BE16 (udp_len_be16 hdr)"

section \<open>IPv6\<close>

record ci_ip6_hdr =
  prio_version :: byte
  flow :: "byte list"
  payload_len :: u16
  next_hdr :: byte
  hop_limit :: byte
  saddr :: "byte list"
  daddr :: "byte list"

definition CI_IP6_PRIORITY :: "ci_ip6_hdr \<Rightarrow> byte" where
  "CI_IP6_PRIORITY ip = prio_version ip AND 0xf"

definition CI_IP6_VERSION :: "ci_ip6_hdr \<Rightarrow> byte" where
  "CI_IP6_VERSION ip = drop_bit 4 (prio_version ip)"

definition CI_IP6_IS_MULTICAST :: "byte list \<Rightarrow> bool" where
  "CI_IP6_IS_MULTICAST a \<longleftrightarrow> a ! 0 = 0xff"

definition CI_IP6_IS_LINKLOCAL :: "u32 \<Rightarrow> bool" where
  "CI_IP6_IS_LINKLOCAL a0 \<longleftrightarrow> a0 AND CI_BSWAP_BE32 0xffc00000 = CI_BSWAP_BE32 0xfe800000"

text \<open>The first four bytes of the header, read and written as one number.\<close>

definition ip6_word :: "ci_ip6_hdr \<Rightarrow> u32" where
  "ip6_word hdr = word_of_le (prio_version hdr # flow hdr)"

definition ip6_set_word :: "ci_ip6_hdr \<Rightarrow> u32 \<Rightarrow> ci_ip6_hdr" where
  "ip6_set_word hdr w = hdr\<lparr>prio_version := hd (le_of_word 4 w), flow := tl (le_of_word 4 w)\<rparr>"

definition CI_IP6_TCLASS_MASK :: u32 where "CI_IP6_TCLASS_MASK = CI_BSWAP_BE32 0x0FF00000"
definition CI_IP6_FLOWLABEL_MASK :: u32 where "CI_IP6_FLOWLABEL_MASK = CI_BSWAP_BE32 0x000FFFFF"

definition ci_ip6_tclass :: "ci_ip6_hdr \<Rightarrow> byte" where
  "ci_ip6_tclass hdr = ucast (drop_bit 20 (CI_BSWAP_BE32 (ip6_word hdr AND CI_IP6_TCLASS_MASK)))"

definition ci_ip6_flowlabel_be32 :: "ci_ip6_hdr \<Rightarrow> u32" where
  "ci_ip6_flowlabel_be32 hdr = ip6_word hdr AND CI_IP6_FLOWLABEL_MASK"

definition ci_ip6_set_flowinfo :: "ci_ip6_hdr \<Rightarrow> byte \<Rightarrow> u32 \<Rightarrow> ci_ip6_hdr" where
  "ci_ip6_set_flowinfo hdr tclass flowlabel_be32 =
     ip6_set_word hdr (CI_BSWAP_BE32 (0x60000000 OR push_bit 20 (ucast tclass)) OR flowlabel_be32)"

definition ci_ip6_set_tclass :: "ci_ip6_hdr \<Rightarrow> byte \<Rightarrow> ci_ip6_hdr" where
  "ci_ip6_set_tclass hdr tclass = (let flowlabel = ci_ip6_flowlabel_be32 hdr in ci_ip6_set_flowinfo hdr tclass flowlabel)"

definition ci_ip6_set_flowlabel_be32 :: "ci_ip6_hdr \<Rightarrow> u32 \<Rightarrow> ci_ip6_hdr" where
  "ci_ip6_set_flowlabel_be32 hdr flowlabel = (let tclass = ci_ip6_tclass hdr in ci_ip6_set_flowinfo hdr tclass flowlabel)"

record ci_ip6_frag_hdr =
  fh_next_hdr :: byte
  fh_reserved :: byte
  fh_frag_off :: u16
  fh_frag_id :: u32

definition ci_ip6_frag_hdr_init :: "byte \<Rightarrow> u16 \<Rightarrow> bool \<Rightarrow> u32 \<Rightarrow> ci_ip6_frag_hdr" where
  "ci_ip6_frag_hdr_init nxt frag_off mf frag_id_be32 =
     \<lparr>fh_next_hdr = nxt, fh_reserved = 0,
      fh_frag_off = (if mf then CI_BSWAP_BE16 frag_off OR CI_BSWAP_BE16 0x0001 else CI_BSWAP_BE16 frag_off),
      fh_frag_id = frag_id_be32\<rparr>"

section \<open>Bits of byte strings\<close>

lemma bit_low_byte:
  fixes x y :: nat
  assumes "x < 256"
  shows "bit (x + 256 * y) n \<longleftrightarrow> (if n < 8 then bit x n else bit y (n - 8))"
proof (cases "n < 8")
  case True
  then obtain k where k: "8 = n + Suc k" by (metis add_Suc_right less_imp_Suc_add)
  have "(2 :: nat) ^ 8 = 2 ^ n * 2 ^ Suc k" by (simp only: k power_add)
  then have "(256 :: nat) = 2 ^ n * 2 ^ Suc k" by simp
  then have "x + 256 * y = x + 2 ^ n * (2 ^ Suc k * y)" by (simp only: mult.assoc)
  then have "(x + 256 * y) div 2 ^ n = (x + 2 ^ n * (2 ^ Suc k * y)) div 2 ^ n" by (rule arg_cong)
  also have "\<dots> = 2 ^ Suc k * y + x div 2 ^ n" by (rule div_mult_self2) simp
  finally have "(x + 256 * y) div 2 ^ n = 2 ^ Suc k * y + x div 2 ^ n" .
  with True show ?thesis by (simp add: bit_iff_odd)
next
  case False
  then obtain k where k: "n = 8 + k" by (metis le_add_diff_inverse not_less)
  have "(x + 256 * y) div 2 ^ n = (x + 256 * y) div 256 div 2 ^ k"
    by (simp add: k power_add div_mult2_eq)
  also have "(x + 256 * y) div 256 = y" using assms by simp
  finally show ?thesis using k by (simp add: bit_iff_odd)
qed

lemma bit_nat_of_le: "bit (nat_of_le bs) n \<longleftrightarrow> n div 8 < length bs \<and> bit (bs ! (n div 8)) (n mod 8)"
proof (induction bs arbitrary: n)
  case (Cons b bs)
  have "unat b < 256" using unsigned_less [where w = b] by simp
  note split = bit_low_byte [OF this, of "nat_of_le bs" n]
  show ?case
  proof (cases "n < 8")
    case True
    then show ?thesis using split by (simp add: bit_unsigned_iff)
  next
    case False
    then obtain k where k: "n = 8 + k" by (metis le_add_diff_inverse not_less)
    then have "n div 8 = Suc (k div 8)" "n mod 8 = k mod 8" by simp_all
    with False split Cons.IH [of k] k show ?thesis by simp
  qed
qed simp

lemma bit_word_of_nat: "bit (of_nat v :: 'a::len word) n \<longleftrightarrow> n < LENGTH('a) \<and> bit v n"
  using bit_word_of_int_iff [of "int v" n] by (simp add: bit_of_nat_iff_bit)

lemma bit_word_of_le:
  "bit (word_of_le bs :: 'a::len word) n \<longleftrightarrow> n < LENGTH('a) \<and> n div 8 < length bs \<and> bit (bs ! (n div 8)) (n mod 8)"
  by (simp add: word_of_le_def bit_word_of_nat bit_nat_of_le)

lemma bit_le_of_nat: "i < n \<Longrightarrow> j < 8 \<Longrightarrow> bit (le_of_nat n v ! i) j \<longleftrightarrow> bit v (8 * i + j)"
proof (induction n arbitrary: v i)
  case (Suc n)
  show ?case
  proof (cases i)
    case 0
    with Suc.prems show ?thesis by (simp add: bit_word_of_nat)
  next
    case (Suc k)
    have "bit (v div 256) (8 * k + j) = bit v (8 * i + j)"
      by (simp add: bit_iff_odd Suc power_add flip: div_mult2_eq) (simp add: mult.assoc)
    with Suc Suc.IH [of k "v div 256"] Suc.prems show ?thesis by simp
  qed
qed simp

lemma bit_le_of_word: "i < n \<Longrightarrow> j < 8 \<Longrightarrow> bit (le_of_word n w ! i) j \<longleftrightarrow> bit (w :: 'a::len word) (8 * i + j)"
  by (simp add: le_of_word_def bit_le_of_nat bit_unsigned_iff)

lemma bit_bswap16: "bit (bswap16 w) n \<longleftrightarrow> n < 16 \<and> bit w (8 * (1 - n div 8) + n mod 8)"
proof (cases "n < 16")
  case True
  then have "n div 8 < 2" by simp
  then have "rev (le_of_word 2 w) ! (n div 8) = le_of_word 2 w ! (1 - n div 8)" by (simp add: rev_nth)
  with True \<open>n div 8 < 2\<close> show ?thesis by (simp add: bswap16_def bit_word_of_le bit_le_of_word)
qed (simp add: bswap16_def bit_word_of_le)

lemma bit_bswap32: "bit (bswap32 w) n \<longleftrightarrow> n < 32 \<and> bit w (8 * (3 - n div 8) + n mod 8)"
proof (cases "n < 32")
  case True
  then have "n div 8 < 4" by simp
  then have "rev (le_of_word 4 w) ! (n div 8) = le_of_word 4 w ! (3 - n div 8)" by (simp add: rev_nth)
  with True \<open>n div 8 < 4\<close> show ?thesis by (simp add: bswap32_def bit_word_of_le bit_le_of_word)
qed (simp add: bswap32_def bit_word_of_le)

lemma bswap_and:
  "bswap16 (a AND b) = bswap16 a AND bswap16 b" "bswap32 (c AND d) = bswap32 c AND bswap32 d"
  by (rule bit_word_eqI; simp only: bit_bswap16 bit_bswap32 bit_and_iff; blast)+

lemma bswap_or:
  "bswap16 (a OR b) = bswap16 a OR bswap16 b" "bswap32 (c OR d) = bswap32 c OR bswap32 d"
  by (rule bit_word_eqI; simp only: bit_bswap16 bit_bswap32 bit_or_iff; blast)+

lemma bswap_xor: "bswap32 (c XOR d) = bswap32 c XOR bswap32 d"
  by (rule bit_word_eqI; simp only: bit_bswap32 bit_xor_iff; blast)

lemmas byteorder_defs = CI_BSWAP_BE16_def CI_BSWAP_BE32_def CI_BSWAP_LE16_def CI_BSWAP_LE32_def CI_BSWAP_LE64_def

section \<open>Header fields\<close>

lemma byteorder_consts:
  "CI_IP4_OFFSET_MASK = 0xff1f" "CI_IP4_FRAG_MORE = 0x0020" "CI_IP4_FRAG_DONT = 0x0040"
  "CI_IP6_TCLASS_MASK = 0xf00f" "CI_IP6_FLOWLABEL_MASK = 0xffff0f00"
  by (simp_all add: CI_IP4_OFFSET_MASK_def CI_IP4_FRAG_MORE_def CI_IP4_FRAG_DONT_def CI_IP6_TCLASS_MASK_def
      CI_IP6_FLOWLABEL_MASK_def byteorder_defs bswap16_def bswap32_def word_of_le_def le_of_word_def)

lemma ihl_roundtrip:
  assumes "k < 16"
  shows "CI_IP4_IHL (ip\<lparr>ip_ihl_version := CI_IP4_IHL_VERSION (of_nat (4 * k))\<rparr>) = of_nat (4 * k)"
    "CI_IP4_VERSION (ip\<lparr>ip_ihl_version := CI_IP4_IHL_VERSION (of_nat (4 * k))\<rparr>) = 4"
proof -
  have k: "k \<in> set [0..<16]" using assms by simp
  have "\<forall>k \<in> set [0..<16]. CI_IP4_IHL (ip\<lparr>ip_ihl_version := CI_IP4_IHL_VERSION (of_nat (4 * k))\<rparr>) = of_nat (4 * k) \<and>
      CI_IP4_VERSION (ip\<lparr>ip_ihl_version := CI_IP4_IHL_VERSION (of_nat (4 * k))\<rparr>) = 4"
    by (simp add: upt_rec CI_IP4_IHL_def CI_IP4_IHL_VERSION_def CI_IP4_VERSION_def)
  with k show "CI_IP4_IHL (ip\<lparr>ip_ihl_version := CI_IP4_IHL_VERSION (of_nat (4 * k))\<rparr>) = of_nat (4 * k)"
    "CI_IP4_VERSION (ip\<lparr>ip_ihl_version := CI_IP4_IHL_VERSION (of_nat (4 * k))\<rparr>) = 4" by blast+
qed

text \<open>Setting a flag leaves the offset alone, and the offset macros are inverse to each other.\<close>

lemma frag_flags_keep_offset:
  "CI_IP4_FRAG_OFFSET (CI_IP4_SET_FRAG_MORE ip) = CI_IP4_FRAG_OFFSET ip"
  "CI_IP4_FRAG_OFFSET (CI_IP4_SET_FRAG_DONT ip) = CI_IP4_FRAG_OFFSET ip"
  "\<not> CI_IP4_IS_LAST_FRAG (CI_IP4_SET_FRAG_MORE ip)"
  by (simp_all add: CI_IP4_FRAG_OFFSET_def CI_IP4_SET_FRAG_MORE_def CI_IP4_SET_FRAG_DONT_def CI_IP4_IS_LAST_FRAG_def
      byteorder_consts bit.conj_disj_distrib2 or_eq_0_iff)

lemma unfrag_iff: "CI_IP4_IS_UNFRAG ip \<longleftrightarrow> CI_IP4_IS_FIRST_OR_ONLY_FRAG ip \<and> CI_IP4_IS_LAST_FRAG ip"
proof -
  have "ip_frag_off_be16 ip AND 0x0020 = (ip_frag_off_be16 ip AND 0xff3f) AND 0x0020" by (simp add: and.assoc)
  then show ?thesis
    by (auto simp: CI_IP4_IS_UNFRAG_def CI_IP4_IS_FIRST_OR_ONLY_FRAG_def CI_IP4_IS_FIRST_FRAG_def CI_IP4_IS_LAST_FRAG_def
        byteorder_consts)
qed

lemma make_offset_roundtrip:
  assumes "unat off < 2 ^ 16"
  shows "CI_IP4_FRAG_OFFSET (ip\<lparr>ip_frag_off_be16 := CI_IP4_MAKE_OFFSET off\<rparr>) = ucast (drop_bit 3 off)"
proof -
  have "take_bit 16 off = off" using assms by (metis take_bit_nat_eq_self unsigned_take_bit_eq unsigned_word_eqI)
  then have bits: "bit off n \<Longrightarrow> n < 16" for n by (metis bit_take_bit_iff)
  have "CI_IP4_FRAG_OFFSET (ip\<lparr>ip_frag_off_be16 := CI_IP4_MAKE_OFFSET off\<rparr>) = ucast (drop_bit 3 off) AND 0x1fff"
    by (simp add: CI_IP4_FRAG_OFFSET_def CI_IP4_MAKE_OFFSET_def CI_IP4_OFFSET_MASK_def byteorder_defs bswap_and and.assoc
        flip: bswap_and(1))
  also have "(0x1fff :: u16) = Bit_Operations.mask 13" by (simp add: mask_eq_exp_minus_1)
  also have "ucast (drop_bit 3 off) AND Bit_Operations.mask 13 = (ucast (drop_bit 3 off) :: u16)"
    by (rule bit_word_eqI) (auto simp: bit_and_iff bit_mask_iff bit_unsigned_iff bit_drop_bit_eq dest: bits)
  finally show ?thesis .
qed

text \<open>Traffic class and flow label share a word; each setter changes its field only.\<close>

lemma ip6_word_set [simp]: "ip6_word (ip6_set_word hdr w) = w"
proof -
  have "hd (le_of_word 4 w) # tl (le_of_word 4 w) = le_of_word 4 w" by (rule list.collapse) (metis length_le_of_word length_0_conv zero_neq_numeral)
  then show ?thesis by (simp add: ip6_word_def ip6_set_word_def word_of_le_of_word)
qed

lemma flowinfo_fields:
  assumes "flowlabel AND CI_IP6_FLOWLABEL_MASK = flowlabel"
  shows "ci_ip6_tclass (ci_ip6_set_flowinfo hdr tclass flowlabel) = tclass"
    "ci_ip6_flowlabel_be32 (ci_ip6_set_flowinfo hdr tclass flowlabel) = flowlabel"
    "CI_IP6_VERSION (ci_ip6_set_flowinfo hdr tclass flowlabel) = 6"
proof -
  let ?a = "0x60000000 OR push_bit 20 (ucast tclass) :: u32" and ?f = "bswap32 flowlabel"
  have w: "ip6_word (ci_ip6_set_flowinfo hdr tclass flowlabel) = bswap32 ?a OR flowlabel"
    by (simp add: ci_ip6_set_flowinfo_def byteorder_defs)
  have m20: "(0x000FFFFF :: u32) = Bit_Operations.mask 20" by (simp add: mask_eq_exp_minus_1)
  have fm: "CI_IP6_FLOWLABEL_MASK = bswap32 (Bit_Operations.mask 20)" by (simp add: CI_IP6_FLOWLABEL_MASK_def byteorder_defs m20)
  have "?f = ?f AND Bit_Operations.mask 20" using assms bswap_and(2) [of flowlabel CI_IP6_FLOWLABEL_MASK] by (simp add: fm)
  then have f: "bit ?f n \<Longrightarrow> n < 20" for n by (metis bit_and_iff bit_mask_iff)
  show "ci_ip6_flowlabel_be32 (ci_ip6_set_flowinfo hdr tclass flowlabel) = flowlabel"
  proof -
    have "?a AND Bit_Operations.mask 20 = 0"
      by (simp add: bit.conj_disj_distrib2 flip: take_bit_eq_mask) (simp add: take_bit_push_bit)
    then have "bswap32 ?a AND CI_IP6_FLOWLABEL_MASK = bswap32 0" by (simp add: fm flip: bswap_and)
    also have "bswap32 0 = 0" by (rule bit_word_eqI) (simp add: bit_bswap32)
    finally show ?thesis using assms by (simp add: ci_ip6_flowlabel_be32_def w bit.conj_disj_distrib2)
  qed
  show "ci_ip6_tclass (ci_ip6_set_flowinfo hdr tclass flowlabel) = tclass"
  proof -
    have "CI_BSWAP_BE32 (ip6_word (ci_ip6_set_flowinfo hdr tclass flowlabel) AND CI_IP6_TCLASS_MASK) = (?a OR ?f) AND 0x0FF00000"
      by (simp add: w CI_IP6_TCLASS_MASK_def byteorder_defs bswap_and bswap_or)
    moreover have "ucast (drop_bit 20 ((?a OR ?f) AND 0x0FF00000)) = tclass"
    proof (rule bit_word_eqI)
      fix n assume "n < LENGTH(8)"
      then have "n \<in> {0, 1, 2, 3, 4, 5, 6, 7}" by auto
      then show "bit (ucast (drop_bit 20 ((?a OR ?f) AND 0x0FF00000)) :: byte) n = bit tclass n"
        using f [of "20 + n"] by (auto simp: bit_unsigned_iff bit_drop_bit_eq bit_and_iff bit_or_iff bit_push_bit_iff)
    qed
    ultimately show ?thesis by (simp only: ci_ip6_tclass_def)
  qed
  show "CI_IP6_VERSION (ci_ip6_set_flowinfo hdr tclass flowlabel) = 6"
  proof (rule bit_word_eqI)
    have fl: "bit flowlabel k = (bit flowlabel k \<and> bit (0xffff0f00 :: u32) k)" for k
      using assms unfolding byteorder_consts by (metis bit_and_iff)
    have "hd (le_of_word 4 w) = le_of_word 4 w ! 0" for w :: u32 by (simp add: hd_conv_nth flip: length_greater_0_conv)
    moreover have "bit (le_of_word 4 w ! 0) k \<longleftrightarrow> k < 8 \<and> bit w k" for w :: u32 and k
      using bit_imp_le_length [of "le_of_word 4 w ! 0" k] bit_le_of_word [of 0 4 k w] by auto
    ultimately have v: "bit (CI_IP6_VERSION (ci_ip6_set_flowinfo hdr tclass flowlabel)) n =
        (4 + n < 8 \<and> bit (bswap32 ?a OR flowlabel) (4 + n))" for n
      by (simp add: CI_IP6_VERSION_def ci_ip6_set_flowinfo_def ip6_set_word_def byteorder_defs bit_drop_bit_eq)
    fix n assume "n < LENGTH(8)"
    then have "n \<in> {0, 1, 2, 3, 4, 5, 6, 7}" by auto
    then show "bit (CI_IP6_VERSION (ci_ip6_set_flowinfo hdr tclass flowlabel)) n = bit (6 :: byte) n"
      using fl [of "4 + n"] unfolding v by (auto simp: bit_or_iff bit_bswap32 bit_push_bit_iff bit_unsigned_iff dest: bit_imp_le_length)
  qed
qed

section \<open>Prefixes and masks\<close>

lemma unat_neg_of_nat:
  assumes "0 < k" "k < 2 ^ 32"
  shows "unat (- of_nat k :: u32) = 2 ^ 32 - k"
proof -
  have "- of_nat k = (of_nat (2 ^ 32 - k) :: u32)" using assms by (simp add: of_nat_diff)
  then have "unat (- of_nat k :: u32) = unat (of_nat (2 ^ 32 - k) :: u32)" by (rule arg_cong)
  also have "\<dots> = 2 ^ 32 - k" using assms by (simp only: unat_of_nat) simp
  finally show ?thesis .
qed

lemma prefix2mask_bits:
  assumes "unat p \<le> 32"
  shows "\<exists>m. ci_ip_prefix2mask p = Some m \<and> (\<forall>n. bit m n \<longleftrightarrow> n < 32 \<and> 32 \<le> n + unat p) \<and>
    unat m = 2 ^ 32 - 2 ^ (32 - unat p)"
proof (cases "p = 0")
  case False
  have u: "unat (32 - p) = 32 - unat p" using assms by (simp add: unat_sub word_le_nat_alt)
  have "0 < unat p" using False by (simp add: unat_gt_0)
  then have lt: "32 - p < 32" using u assms by (simp add: word_less_nat_alt)
  let ?m = "push_bit (32 - unat p) 0xffffffff :: u32"
  have "ci_ip_prefix2mask p = Some ?m" using False lt u by (simp add: ci_ip_prefix2mask_def)
  moreover have ones: "(0xffffffff :: u32) = - 1" by simp
  have bits: "bit ?m n \<longleftrightarrow> n < 32 \<and> 32 \<le> n + unat p" for n
    using assms unfolding ones by (auto simp: bit_not_iff bit_mask_iff not_less possible_bit_def)
  moreover have "unat ?m = 2 ^ 32 - 2 ^ (32 - unat p)"
  proof -
    have pow: "(2::nat) ^ (32 - unat p) < 2 ^ 32" by (rule power_strict_increasing) (use \<open>0 < unat p\<close> assms in auto)
    have "?m + 2 ^ (32 - unat p) = 0" unfolding ones push_bit_eq_mult by simp
    then have "?m = - of_nat (2 ^ (32 - unat p))" by (simp add: eq_neg_iff_add_eq_0)
    then show ?thesis using unat_neg_of_nat [of "2 ^ (32 - unat p)"] pow by simp
  qed
  ultimately show ?thesis by blast
qed (simp add: ci_ip_prefix2mask_def)

lemma mask2prefix_loop_mask:
  "k \<le> 32 \<Longrightarrow> unat m = 2 ^ 32 - 2 ^ (32 - k) \<Longrightarrow> mask2prefix_loop m acc = acc + of_nat k"
proof (induction k arbitrary: m acc)
  case 0
  then have "m = 0" by (simp add: unat_eq_0)
  then show ?case by (subst mask2prefix_loop.simps) simp
next
  case (Suc k)
  have p: "(2::nat) ^ (32 - k) = 2 * 2 ^ (31 - k)" using Suc.prems(1) by (simp flip: power_Suc add: Suc_diff_le)
  have le: "(2::nat) ^ (31 - k) \<le> 2 ^ 31" by (rule power_increasing) simp_all
  have m: "unat m = 2 ^ 32 - 2 ^ (31 - k)" using Suc.prems by simp
  then have "bit m 31" using le top_bit_iff [of 32 m] by simp
  then have a: "m AND 0x80000000 \<noteq> 0" using and_push_bit_1 [of m 31] by simp
  have "2 * (c - x) - c = c - 2 * x" for c x :: nat by arith
  from unat_shl1(2) [OF a, unfolded m this] have "unat (push_bit 1 m) = 2 ^ 32 - 2 ^ (32 - k)" unfolding p .
  then have "mask2prefix_loop (push_bit 1 m) (acc + 1) = acc + 1 + of_nat k" using Suc.IH Suc.prems(1) by simp
  then show ?case using a mask2prefix_loop.simps [of m acc] by (simp only: if_True simp_thms of_nat_Suc add.assoc)
qed

lemma word_eq_bits: "(x :: 'a::len word) = y \<longleftrightarrow> (\<forall>n. bit x n = bit y n)"
  by (auto intro: bit_word_eqI)

lemma masked_eq_iff:
  assumes "\<forall>n. bit (m :: u32) n \<longleftrightarrow> n < 32 \<and> 32 \<le> n + p" "p \<le> 32"
  shows "a AND m = b AND m \<longleftrightarrow> drop_bit (32 - p) a = drop_bit (32 - p) b"
proof -
  have "a AND m = b AND m \<longleftrightarrow> (\<forall>n. 32 \<le> n + p \<longrightarrow> n < 32 \<longrightarrow> bit a n = bit b n)"
    unfolding word_eq_bits bit_and_iff assms(1) [rule_format] by blast
  also have "\<dots> \<longleftrightarrow> (\<forall>k. 32 - p + k < 32 \<longrightarrow> bit a (32 - p + k) = bit b (32 - p + k))"
  proof
    assume h: "\<forall>k. 32 - p + k < 32 \<longrightarrow> bit a (32 - p + k) = bit b (32 - p + k)"
    have "bit a n = bit b n" if n: "32 \<le> n + p" "n < 32" for n
    proof -
      have "32 - p + (n + p - 32) = n" using n assms(2) by simp
      with spec [OF h, of "n + p - 32"] n(2) show ?thesis by simp
    qed
    then show "\<forall>n. 32 \<le> n + p \<longrightarrow> n < 32 \<longrightarrow> bit a n = bit b n" by blast
  qed (use assms(2) in auto)
  also have "\<dots> \<longleftrightarrow> drop_bit (32 - p) a = drop_bit (32 - p) b"
  proof -
    have "\<not> n < 32 \<Longrightarrow> bit a n = bit b n" for n using bit_imp_le_length [of a n] bit_imp_le_length [of b n] by auto
    then show ?thesis unfolding word_eq_bits bit_drop_bit_eq comp_def by blast
  qed
  finally show ?thesis .
qed

text \<open>
  For every prefix length up to 32 the conversion to a mask is defined, converting the mask
  back gives the prefix length, and two addresses agree under the mask exactly when their
  leading bits, as many as the prefix says, agree.  A longer prefix shifts by an undefined
  amount.
\<close>

theorem prefix_mask_roundtrip:
  "(unat p \<le> 32 \<longrightarrow> (\<exists>m. ci_ip_prefix2mask p = Some m \<and> ci_ip_mask2prefix m = p \<and>
     (\<forall>a b. a AND m = b AND m \<longleftrightarrow> drop_bit (32 - unat p) a = drop_bit (32 - unat p) b))) \<and>
   (32 < unat p \<longrightarrow> ci_ip_prefix2mask p = None)"
proof (intro conjI impI)
  assume p: "unat p \<le> 32"
  then obtain m where m: "ci_ip_prefix2mask p = Some m" "\<forall>n. bit m n \<longleftrightarrow> n < 32 \<and> 32 \<le> n + unat p"
    "unat m = 2 ^ 32 - 2 ^ (32 - unat p)" using prefix2mask_bits by blast
  have "ci_ip_mask2prefix m = p" using mask2prefix_loop_mask [OF p m(3)] by (simp add: ci_ip_mask2prefix_def)
  with m(1) masked_eq_iff [OF m(2) p] show "\<exists>m. ci_ip_prefix2mask p = Some m \<and> ci_ip_mask2prefix m = p \<and>
     (\<forall>a b. a AND m = b AND m \<longleftrightarrow> drop_bit (32 - unat p) a = drop_bit (32 - unat p) b)" by blast
next
  assume p: "32 < unat p"
  have "unat p < 2 ^ 32" using unsigned_less [where w = p] by simp
  then have lt: "unat p - 32 < 2 ^ 32" by simp
  have "of_nat (unat p - 32) = p - 32" using p by (simp add: of_nat_diff)
  then have "32 - p = - of_nat (unat p - 32)" by simp
  then have "unat (32 - p) = 2 ^ 32 - (unat p - 32)" using p lt unat_neg_of_nat [of "unat p - 32"] by simp
  moreover have "unat p < 2 ^ 32" using unsigned_less [where w = p] by simp
  ultimately have "\<not> 32 - p < 32" using p by (simp add: word_less_nat_alt)
  moreover have "p \<noteq> 0" using p by auto
  ultimately show "ci_ip_prefix2mask p = None" by (simp add: ci_ip_prefix2mask_def)
qed

end
