(* ===== verification/CiCsum.thy ===== *)
theory CiCsum
  imports NetHdr
begin

text \<open>
  Internet checksums (\<open>ci/tools/ipcsum.h\<close>).  A source pointer is the list of bytes from it
  on; the destination of a copy is its buffer and an offset; leaving either is
  \<^term>\<open>None\<close>.  The sums are 32-bit words with end-around carry.  The reference is the sum
  of the bytes weighted by their place in the 16-bit words, modulo 65535.
\<close>

unbundle bit_operations_syntax

section \<open>Routines\<close>

definition ci_add_carry32 :: "u32 \<Rightarrow> u32 \<Rightarrow> u32" where
  "ci_add_carry32 csum v = (if 2 ^ 32 \<le> unat csum + unat v then csum + v + 1 else csum + v)"

definition ci_ip_csum_fold :: "u32 \<Rightarrow> u32" where
  "ci_ip_csum_fold csum = drop_bit 16 csum + (csum AND 0xffff)"

definition ci_udp_csum_finish :: "u32 \<Rightarrow> u32" where
  "ci_udp_csum_finish csum =
     (let csum = drop_bit 16 csum + (csum AND 0xffff);
          csum = csum + drop_bit 16 csum;
          csum = NOT csum AND 0xffff
      in if csum \<noteq> 0 then csum else 0xffff)"

text \<open>The loop over the 32-bit words, the given number of them.\<close>

fun csum_words :: "byte list \<Rightarrow> nat \<Rightarrow> u32 \<Rightarrow> (byte list \<times> u32) option" where
  "csum_words s4 0 csum = Some (s4, csum)"
| "csum_words s4 (Suc k) csum =
     do { v \<leftarrow> load32 s4 0; csum_words (drop 4 s4) k (ci_add_carry32 csum v) }"

text \<open>What follows the loop: the last one to three bytes, a lone byte as if a zero followed it.\<close>

definition csum_tail :: "byte list \<Rightarrow> nat \<Rightarrow> u32 \<Rightarrow> u32 option" where
  "csum_tail s4 n csum =
     (if n = 0 then Some csum
      else do {
        csum \<leftarrow> (if n = 2 \<or> n = 3 then map_option (\<lambda>v. ci_add_carry32 csum (ucast v)) (load16 s4 0) else Some csum);
        (if n = 1 \<or> n = 3
         then let s = (if n = 3 then drop 2 s4 else s4)
              in map_option (\<lambda>v. ci_add_carry32 csum (ucast (CI_BSWAP_LE16 (ucast v)))) (load8 s 0)
         else Some csum) })"

definition ci_ip_csum_aligned_c :: "byte list \<Rightarrow> nat \<Rightarrow> u32 \<Rightarrow> u32 option" where
  "ci_ip_csum_aligned_c data n csum =
     do { (s4, csum) \<leftarrow> csum_words data (n div 4) csum; csum_tail s4 (n mod 4) csum }"

fun copy_words :: "byte list \<Rightarrow> nat \<Rightarrow> byte list \<Rightarrow> nat \<Rightarrow> u32 \<Rightarrow> (byte list \<times> nat \<times> byte list \<times> u32) option" where
  "copy_words d d4 s4 0 csum = Some (d, d4, s4, csum)"
| "copy_words d d4 s4 (Suc k) csum =
     do { v \<leftarrow> load32 s4 0; d \<leftarrow> store d d4 (le_of_word 4 v); copy_words d (d4 + 4) (drop 4 s4) k (ci_add_carry32 csum v) }"

definition copy_tail :: "byte list \<Rightarrow> nat \<Rightarrow> byte list \<Rightarrow> nat \<Rightarrow> u32 \<Rightarrow> (byte list \<times> u32) option" where
  "copy_tail d d4 s4 n csum =
     (if n = 0 then Some (d, csum)
      else do {
        (d, csum) \<leftarrow> (if n = 2 \<or> n = 3
          then do { v \<leftarrow> load16 s4 0; d \<leftarrow> store d d4 (le_of_word 2 v); Some (d, ci_add_carry32 csum (ucast v)) }
          else Some (d, csum));
        (if n = 1 \<or> n = 3
         then do { w \<leftarrow> load8 (if n = 3 then drop 2 s4 else s4) 0;
                   d \<leftarrow> store d (if n = 3 then d4 + 2 else d4) [w];
                   Some (d, ci_add_carry32 csum (ucast (CI_BSWAP_LE16 (ucast w)))) }
         else Some (d, csum)) })"

text \<open>Its length is an \<open>int\<close>, which it asserts to be non-negative; the caller's \<open>size_t\<close> is truncated to it.\<close>

definition ci_ip_csum_copy_aligned_c :: "byte list \<Rightarrow> nat \<Rightarrow> byte list \<Rightarrow> int \<Rightarrow> u32 \<Rightarrow> (byte list \<times> u32) option" where
  "ci_ip_csum_copy_aligned_c d dest src n csum =
     (if n < 0 then None
      else do { (d, d4, s4, csum) \<leftarrow> copy_words d dest src (nat n div 4) csum; copy_tail d d4 s4 (nat n mod 4) csum })"

definition ci_ip_csum_c :: "byte list \<Rightarrow> nat \<Rightarrow> bool \<Rightarrow> u32 \<Rightarrow> u32 option" where
  "ci_ip_csum_c data n start_not_aligned csum =
     (if start_not_aligned \<and> n \<noteq> 0
      then do { b \<leftarrow> load8 data 0;
                ci_ip_csum_aligned_c (drop 1 data) (n - 1) (ci_add_carry32 csum (ucast (CI_BSWAP_BE16 (ucast b)))) }
      else ci_ip_csum_aligned_c data n csum)"

definition ci_ip_csum_copy_c :: "byte list \<Rightarrow> nat \<Rightarrow> byte list \<Rightarrow> nat \<Rightarrow> bool \<Rightarrow> u32 \<Rightarrow> (byte list \<times> u32) option" where
  "ci_ip_csum_copy_c d dst src n start_not_aligned csum =
     (if start_not_aligned \<and> n \<noteq> 0
      then do { b \<leftarrow> load8 src 0;
                d \<leftarrow> store d dst [b];
                ci_ip_csum_copy_aligned_c d (dst + 1) (drop 1 src) (sint (of_nat (n - 1) :: u32))
                  (ci_add_carry32 csum (ucast (CI_BSWAP_BE16 (ucast b)))) }
      else ci_ip_csum_copy_aligned_c d dst src (sint (of_nat n :: u32)) csum)"

section \<open>The reference sum\<close>

fun byte_sum :: "bool \<Rightarrow> byte list \<Rightarrow> nat" where
  "byte_sum hi [] = 0"
| "byte_sum hi (b # bs) = (if hi then 256 * unat b else unat b) + byte_sum (\<not> hi) bs"

lemma byte_sum_append: "byte_sum hi (xs @ ys) = byte_sum hi xs + byte_sum (hi \<noteq> odd (length xs)) ys"
  by (induction hi xs rule: byte_sum.induct) auto

section \<open>End-around carry\<close>

lemma mod_65535_add: "(x :: nat) mod 65535 = y mod 65535 \<Longrightarrow> (x + z) mod 65535 = (y + z) mod 65535"
  by (metis mod_add_left_eq)

lemma ci_add_carry32_mod: "unat (ci_add_carry32 s v) mod 65535 = (unat s + unat v) mod 65535"
proof -
  have lt: "unat s < 2 ^ 32" "unat v < 2 ^ 32" using unsigned_less [where w = s] unsigned_less [where w = v] by simp_all
  show ?thesis
  proof (cases "2 ^ 32 \<le> unat s + unat v")
    case True
    then have "unat (s + v + 1) = (unat s + unat v + 1) mod 2 ^ 32" by (simp add: unat_word_ariths mod_simps)
    also have "\<dots> = unat s + unat v + 1 - 2 ^ 32" using True lt by (simp add: mod_if)
    finally have "unat (s + v + 1) + 65537 * 65535 = unat s + unat v" using True by simp
    then have "unat (s + v + 1) mod 65535 = (unat s + unat v) mod 65535" by (metis mod_mult_self1)
    with True show ?thesis by (simp add: ci_add_carry32_def)
  next
    case False
    then show ?thesis by (simp add: ci_add_carry32_def unat_word_ariths)
  qed
qed

lemma nat_of_le_mod: "nat_of_le bs mod 65535 = byte_sum False bs mod 65535"
proof (induction bs rule: induct_list012)
  case (3 b c bs)
  have "nat_of_le (b # c # bs) = unat b + 256 * unat c + nat_of_le bs + 65535 * nat_of_le bs" by simp
  then have "nat_of_le (b # c # bs) mod 65535 = (unat b + 256 * unat c + nat_of_le bs) mod 65535" by (simp only: mod_mult_self2)
  also have "\<dots> = (unat b + 256 * unat c + byte_sum False bs) mod 65535" using "3.IH"(1) by (metis mod_add_right_eq)
  finally show ?case by (simp add: add.assoc)
qed simp_all

lemma unat_word_of_le: "8 * length bs \<le> LENGTH('a) \<Longrightarrow> unat (word_of_le bs :: 'a::len word) = nat_of_le bs"
proof -
  assume "8 * length bs \<le> LENGTH('a)"
  then have "(2::nat) ^ (8 * length bs) \<le> 2 ^ LENGTH('a)" by (intro power_increasing) simp_all
  moreover have "nat_of_le bs < 2 ^ (8 * length bs)" using nat_of_le_bound [of bs] by (simp add: power_mult)
  ultimately have "nat_of_le bs < 2 ^ LENGTH('a)" by linarith
  then show ?thesis by (simp add: word_of_le_def unat_of_nat)
qed

lemma add_carry_mod:
  assumes "unat v mod 65535 = x mod 65535" "unat c mod 65535 = y mod 65535"
  shows "unat (ci_add_carry32 c v) mod 65535 = (y + x) mod 65535"
  using ci_add_carry32_mod [of c v] assms by (metis mod_add_eq)

lemma unat_bytes:
  "unat (ucast (CI_BSWAP_LE16 (ucast (b :: byte))) :: u32) = unat b" "unat (ucast (CI_BSWAP_BE16 (ucast b)) :: u32) = 256 * unat b"
  "unat (ucast (h :: u16) :: u32) = unat h"
proof -
  have b: "unat b < 256" using unsigned_less [where w = b] by simp
  have h: "unat h < 65536" for h :: u16 using unsigned_less [where w = h] by simp
  have up: "unat (ucast h :: u32) = unat h" for h :: u16 using h [of h] by (simp add: unsigned_ucast_eq take_bit_nat_eq_self)
  then show "unat (ucast h :: u32) = unat h" .
  have small: "unat (ucast b :: u16) = unat b" using b by (simp add: unsigned_ucast_eq take_bit_nat_eq_self)
  show "unat (ucast (CI_BSWAP_LE16 (ucast b)) :: u32) = unat b" unfolding up CI_BSWAP_LE16_def small ..
  have "bswap16 (ucast b) = of_nat (256 * unat b)"
    using b by (simp add: bswap16_def word_of_le_def le_of_word_def small)
  then have "unat (bswap16 (ucast b)) = 256 * unat b mod 2 ^ 16" by (simp only: unat_of_nat) simp
  then have "unat (bswap16 (ucast b)) = 256 * unat b" using b by simp
  then show "unat (ucast (CI_BSWAP_BE16 (ucast b)) :: u32) = 256 * unat b" unfolding up CI_BSWAP_BE16_def .
qed

section \<open>The routines compute the reference sum\<close>

lemma csum_words_ok:
  "4 * k \<le> length s \<Longrightarrow>
   \<exists>r. csum_words s k c = Some (drop (4 * k) s, r) \<and> unat r mod 65535 = (unat c + byte_sum False (take (4 * k) s)) mod 65535"
proof (induction k arbitrary: s c)
  case (Suc k)
  define v where "v = (word_of_le (take 4 s) :: u32)"
  have len: "4 \<le> length s" "4 * k \<le> length (drop 4 s)" using Suc.prems by simp_all
  have load: "load32 s 0 = Some v" using len by (simp add: load32_def load_def v_def)
  have "unat v = nat_of_le (take 4 s)" unfolding v_def by (rule unat_word_of_le) simp
  then have "unat (ci_add_carry32 c v) mod 65535 = (unat c + byte_sum False (take 4 s)) mod 65535"
    using nat_of_le_mod by (intro add_carry_mod) auto
  moreover have "take (4 * Suc k) s = take 4 s @ take (4 * k) (drop 4 s)" by (simp add: take_add)
  then have "byte_sum False (take (4 * Suc k) s) = byte_sum False (take 4 s) + byte_sum False (take (4 * k) (drop 4 s))"
    using len by (simp add: byte_sum_append)
  moreover obtain r where "csum_words (drop 4 s) k (ci_add_carry32 c v) = Some (drop (4 * k) (drop 4 s), r)"
    "unat r mod 65535 = (unat (ci_add_carry32 c v) + byte_sum False (take (4 * k) (drop 4 s))) mod 65535"
    using Suc.IH [OF len(2)] by blast
  ultimately show ?case using load mod_65535_add [of "unat (ci_add_carry32 c v)"]
    by (simp add: add.assoc add.commute [of "4 * k" 4])
qed simp

lemma tail_cases:
  assumes "n < 4" "n \<le> length s"
  obtains "n = 0" | a t where "n = 1" "s = a # t" | a b t where "n = 2" "s = a # b # t" | a b d t where "n = 3" "s = a # b # d # t"
proof -
  have "n = 0 \<or> n = 1 \<or> n = 2 \<or> n = 3" using assms(1) by auto
  then show ?thesis using assms(2) that by (auto simp: Suc_le_length_iff numeral_eq_Suc)
qed

lemma csum_tail_ok:
  assumes "n < 4" "n \<le> length s"
  shows "\<exists>r. csum_tail s n c = Some r \<and> unat r mod 65535 = (unat c + byte_sum False (take n s)) mod 65535"
proof -
  have two: "unat (ci_add_carry32 c (ucast (word_of_le [a, b] :: u16))) mod 65535 = (unat c + (unat a + 256 * unat b)) mod 65535" for a b
    by (intro add_carry_mod) (simp_all add: unat_bytes unat_word_of_le)
  have one: "unat (ci_add_carry32 c (ucast (CI_BSWAP_LE16 (ucast b)))) mod 65535 = (x + unat b) mod 65535"
    if "unat c mod 65535 = x mod 65535" for c x and b :: byte
    by (intro add_carry_mod) (simp_all only: unat_bytes(1) that)
  note ld = csum_tail_def load16_def load8_def load_def
  from tail_cases [OF assms] show ?thesis
  proof cases
    case 1
    then show ?thesis by (simp add: ld)
  next
    case (2 a t)
    then show ?thesis using one [of c "unat c" a] by (simp add: ld)
  next
    case (3 a b t)
    then show ?thesis using two [of a b] by (simp add: ld)
  next
    case (4 a b d t)
    then show ?thesis using one [OF two [of a b], of d] by (simp add: ld add.assoc)
  qed
qed

lemma take_words: "take n s = take (4 * (n div 4)) s @ take (n mod 4) (drop (4 * (n div 4)) s)"
  by (metis mult_div_mod_eq take_add)

lemma ci_ip_csum_aligned_ok:
  assumes "n \<le> length data"
  shows "\<exists>r. ci_ip_csum_aligned_c data n c = Some r \<and> unat r mod 65535 = (unat c + byte_sum False (take n data)) mod 65535"
proof -
  let ?k = "4 * (n div 4)"
  have len: "?k \<le> length data" "n mod 4 \<le> length (drop ?k data)" using assms by simp_all presburger+
  obtain r where r: "csum_words data (n div 4) c = Some (drop ?k data, r)"
    "unat r mod 65535 = (unat c + byte_sum False (take ?k data)) mod 65535" using csum_words_ok [OF len(1)] by blast
  obtain r' where r': "csum_tail (drop ?k data) (n mod 4) r = Some r'"
    "unat r' mod 65535 = (unat r + byte_sum False (take (n mod 4) (drop ?k data))) mod 65535"
    using csum_tail_ok [OF _ len(2), of r] by auto
  have "byte_sum False (take n data) = byte_sum False (take ?k data) + byte_sum False (take (n mod 4) (drop ?k data))"
    using len(1) by (subst take_words) (simp add: byte_sum_append)
  then show ?thesis using r r' mod_65535_add [OF r(2)] by (simp add: ci_ip_csum_aligned_c_def add.assoc)
qed

lemma ci_ip_csum_ok:
  assumes "n \<le> length data"
  shows "\<exists>r. ci_ip_csum_c data n hi c = Some r \<and> unat r mod 65535 = (unat c + byte_sum hi (take n data)) mod 65535"
proof (cases "hi \<and> n \<noteq> 0")
  case True
  then obtain b t m where d: "data = b # t" "n = Suc m" using assms by (cases data; cases n) auto
  let ?c = "ci_add_carry32 c (ucast (CI_BSWAP_BE16 (ucast b)))"
  have "unat ?c mod 65535 = (unat c + 256 * unat b) mod 65535" by (intro add_carry_mod) (simp_all only: unat_bytes(2))
  from mod_65535_add [OF this] ci_ip_csum_aligned_ok [of m t ?c] True d assms show ?thesis
    by (auto simp: ci_ip_csum_c_def load8_def load_def add.assoc)
next
  case False
  then show ?thesis using ci_ip_csum_aligned_ok [OF assms, of c] by (cases hi) (auto simp: ci_ip_csum_c_def)
qed

lemma ci_udp_csum_finish_value: "unat (ci_udp_csum_finish c) = 65535 - unat c mod 65535"
proof -
  let ?a = "unat c" and ?t = "unat c div 65536 + unat c mod 65536"
  have m: "(0xffff :: u32) = mask 16" by (simp add: mask_numeral)
  have hi: "unat (drop_bit 16 x) = unat x div 65536" for x :: u32
    unfolding unat_drop_bit_eq by (simp add: drop_bit_eq_div)
  have lo: "unat (x AND 0xffff) = unat x mod 65536" for x :: u32 unfolding m unat_and_mask_mod by simp
  have a: "?a < 65536 * 65536" using unsigned_less [where w = c] by simp
  then have t: "?t \<le> 131070" using less_mult_imp_div_less [of ?a 65536 65536] mod_less_divisor [of 65536 ?a] by linarith
  define s1 where "s1 = drop_bit 16 c + (c AND 0xffff)"
  have s1: "unat s1 = ?t" using t by (simp add: s1_def unat_word_ariths hi lo)
  define s2 where "s2 = s1 + drop_bit 16 s1"
  have "?t div 65536 \<le> 1" using t by simp
  then have s2: "unat s2 = ?t + ?t div 65536" using t by (simp add: s2_def unat_word_ariths hi s1)
  have "NOT s2 AND 0xffff = 0xffff - (s2 AND 0xffff)"
    unfolding m by (simp add: take_bit_not_eq_mask_diff flip: take_bit_eq_mask)
  moreover have "s2 AND 0xffff \<le> 0xffff" by (simp add: word_le_nat_alt lo)
  ultimately have s3: "unat (NOT s2 AND 0xffff) = 65535 - unat s2 mod 65536" by (simp add: unat_sub lo)
  have finish: "unat (ci_udp_csum_finish c) = (if 65535 - unat s2 mod 65536 = 0 then 65535 else 65535 - unat s2 mod 65536)"
    unfolding ci_udp_csum_finish_def Let_def s1_def [symmetric] s2_def [symmetric]
    using s3 by (simp add: unat_eq_0 [symmetric])
  have "?a = 65536 * (?a div 65536) + ?a mod 65536" by simp
  then have "?a = 65535 * (?a div 65536) + ?t" by linarith
  then have "?a mod 65535 = ?t mod 65535" by (metis mod_mult_self4)
  moreover have "(if 65535 - (x + x div 65536) mod 65536 = 0 then 65535 else 65535 - (x + x div 65536) mod 65536) = 65535 - x mod 65535"
    if "x \<le> 131070" for x :: nat
  proof (cases "x < 65536")
    case True
    then show ?thesis by (cases "x = 65535") auto
  next
    case False
    with that have "x div 65536 = 1" "(x + 1) mod 65536 = x - 65535" by (simp_all add: mod_if div_if)
    moreover have "x mod 65535 = (x - 65535) mod 65535" using False by (simp add: mod_if)
    ultimately show ?thesis using that False by (cases "x = 131070") (simp_all add: mod_if)
  qed
  ultimately show ?thesis unfolding finish s2 using t by simp
qed

section \<open>Messages in pieces\<close>

text \<open>A message that lies in memory in pieces: each piece continues the sum, and starts on the
  upper byte of a word when the bytes before it are odd in number.\<close>

fun csum_pieces :: "byte list list \<Rightarrow> bool \<Rightarrow> u32 \<Rightarrow> u32 option" where
  "csum_pieces [] start_not_aligned csum = Some csum"
| "csum_pieces (p # ps) start_not_aligned csum =
     do { csum \<leftarrow> ci_ip_csum_c p (length p) start_not_aligned csum;
          csum_pieces ps (start_not_aligned \<noteq> odd (length p)) csum }"

lemma csum_pieces_ok:
  "\<exists>r. csum_pieces ps hi c = Some r \<and> unat r mod 65535 = (unat c + byte_sum hi (concat ps)) mod 65535"
proof (induction ps arbitrary: hi c)
  case (Cons p ps)
  obtain r where r: "ci_ip_csum_c p (length p) hi c = Some r" "unat r mod 65535 = (unat c + byte_sum hi p) mod 65535"
    using ci_ip_csum_ok [of "length p" p hi c] by auto
  moreover obtain r' where "csum_pieces ps (hi \<noteq> odd (length p)) r = Some r'"
    "unat r' mod 65535 = (unat r + byte_sum (hi \<noteq> odd (length p)) (concat ps)) mod 65535" using Cons.IH by blast
  ultimately show ?case using mod_65535_add [OF r(2)] by (simp add: byte_sum_append add.assoc)
qed simp

text \<open>
  C26. The checksum of a message does not depend on how it is cut: summing its pieces in order,
  with the alignment flag carried along, never leaves the pieces, and the finished checksum is
  the complement of the sum of the whole message's 16-bit words modulo 65535, never zero.
\<close>

theorem csum_of_pieces:
  "\<exists>r. csum_pieces ps False csum = Some r \<and>
     unat (ci_udp_csum_finish r) = 65535 - (unat csum + byte_sum False (concat ps)) mod 65535"
  using csum_pieces_ok [of ps False csum] by (auto simp: ci_udp_csum_finish_value)

section \<open>Copying while summing\<close>

lemma store_append:
  assumes "store d off xs = Some d1" "store d1 (off + length xs) ys = Some d2"
  shows "store d off (xs @ ys) = Some d2"
proof -
  have l: "off + length xs \<le> length d" and d1: "d1 = take off d @ xs @ drop (off + length xs) d"
    using assms(1) by (auto simp: store_def split: if_splits)
  then have "length d1 = length d" by simp
  with assms(2) have l2: "off + length xs + length ys \<le> length d"
    and d2: "d2 = take (off + length xs) d1 @ ys @ drop (off + length xs + length ys) d1"
    by (auto simp: store_def split: if_splits)
  have "take (off + length xs) d1 = take off d @ xs" using l by (simp add: d1)
  moreover have "drop (off + length xs + length ys) d1 = drop (off + length xs + length ys) d" using l by (simp add: d1 add.commute)
  ultimately show ?thesis using d2 l2 by (simp add: store_def add.assoc)
qed

lemma store_total: "off + length xs \<le> length d \<Longrightarrow> \<exists>d'. store d off xs = Some d' \<and> length d' = length d"
  by (simp add: store_def)

lemma copy_words_ok:
  "4 * k \<le> length s \<Longrightarrow> off + 4 * k \<le> length d \<Longrightarrow>
   \<exists>d'. copy_words d off s k c = map_option (\<lambda>(s', r). (d', off + 4 * k, s', r)) (csum_words s k c) \<and>
     store d off (take (4 * k) s) = Some d'"
proof (induction k arbitrary: d off s c)
  case (Suc k)
  have len: "4 \<le> length s" "4 * k \<le> length (drop 4 s)" using Suc.prems(1) by simp_all
  have load: "load32 s 0 = Some (word_of_le (take 4 s))" using len by (simp add: load32_def load_def)
  have bytes: "le_of_word 4 (word_of_le (take 4 s) :: u32) = take 4 s" using len(1) by (simp add: le_of_word_of_le)
  obtain d1 where d1: "store d off (take 4 s) = Some d1" "length d1 = length d"
    using store_total [of off "take 4 s" d] Suc.prems len by auto
  then have "off + 4 + 4 * k \<le> length d1" using Suc.prems(2) by simp
  from Suc.IH [OF len(2) this] obtain d' where d':
    "copy_words d1 (off + 4) (drop 4 s) k (ci_add_carry32 c (word_of_le (take 4 s))) =
      map_option (\<lambda>(s', r). (d', off + 4 + 4 * k, s', r)) (csum_words (drop 4 s) k (ci_add_carry32 c (word_of_le (take 4 s))))"
    "store d1 (off + 4) (take (4 * k) (drop 4 s)) = Some d'" by blast
  have "store d off (take 4 s @ take (4 * k) (drop 4 s)) = Some d'"
    by (rule store_append [OF d1(1)]) (use d'(2) len(1) in simp)
  then have "store d off (take (4 * Suc k) s) = Some d'" by (simp add: take_add)
  moreover have "copy_words d off s (Suc k) c = map_option (\<lambda>(s', r). (d', off + 4 * Suc k, s', r)) (csum_words s (Suc k) c)"
    using d1(1) d'(1) by (simp add: load bytes add.assoc)
  ultimately show ?case by blast
qed (simp add: store_def)

lemma copy_tail_ok:
  assumes "n < 4" "n \<le> length s" "off + n \<le> length d"
  shows "\<exists>d'. copy_tail d off s n c = map_option (Pair d') (csum_tail s n c) \<and> store d off (take n s) = Some d'"
proof -
  note ld = copy_tail_def csum_tail_def load16_def load8_def load_def
  have two: "le_of_word 2 (word_of_le [a, b] :: u16) = [a, b]" for a b by (simp add: le_of_word_of_le)
  from tail_cases [OF assms(1,2)] show ?thesis
  proof cases
    case 1
    then show ?thesis using assms(3) by (simp add: ld store_def)
  next
    case (2 a t)
    then show ?thesis using assms(3) store_total [of off "[a]" d] by (auto simp: ld)
  next
    case (3 a b t)
    then show ?thesis using assms(3) store_total [of off "[a, b]" d] by (auto simp: ld two)
  next
    case (4 a b e t)
    obtain d1 where d1: "store d off [a, b] = Some d1" "length d1 = length d"
      using store_total [of off "[a, b]" d] assms(3) 4 by auto
    moreover obtain d2 where d2: "store d1 (off + 2) [e] = Some d2" using store_total [of "off + 2" "[e]" d1] d1(2) assms(3) 4 by auto
    moreover have "store d off [a, b, e] = Some d2" using store_append [OF d1(1), of "[e]" d2] d2 by simp
    ultimately show ?thesis using 4 by (simp add: ld two)
  qed
qed

lemma ci_ip_csum_copy_aligned_ok:
  assumes "n \<le> length s" "off + n \<le> length d"
  shows "\<exists>d'. ci_ip_csum_copy_aligned_c d off s (int n) c = map_option (Pair d') (ci_ip_csum_aligned_c s n c) \<and> store d off (take n s) = Some d'"
proof -
  let ?k = "4 * (n div 4)"
  have len: "?k \<le> length s" "n mod 4 \<le> length (drop ?k s)" "off + ?k \<le> length d" "off + ?k + n mod 4 \<le> length d"
    using assms by simp_all presburger+
  obtain r where r: "csum_words s (n div 4) c = Some (drop ?k s, r)" using csum_words_ok [OF len(1)] by blast
  obtain d1 where d1: "copy_words d off s (n div 4) c = Some (d1, off + ?k, drop ?k s, r)" "store d off (take ?k s) = Some d1"
    using copy_words_ok [OF len(1,3), of c] r by auto
  have "length d1 = length d" using d1(2) len by (auto simp: store_def split: if_splits)
  then obtain d2 where d2: "copy_tail d1 (off + ?k) (drop ?k s) (n mod 4) r = map_option (Pair d2) (csum_tail (drop ?k s) (n mod 4) r)"
    "store d1 (off + ?k) (take (n mod 4) (drop ?k s)) = Some d2"
    using copy_tail_ok [OF _ len(2), of "off + ?k" d1 r] len(4) by auto
  have "store d off (take ?k s @ take (n mod 4) (drop ?k s)) = Some d2"
    by (rule store_append [OF d1(2)]) (use d2(2) len(1) in simp)
  then have "store d off (take n s) = Some d2" by (simp only: take_words [of n s])
  then show ?thesis using d1(1) d2(1) r by (simp add: ci_ip_csum_copy_aligned_c_def ci_ip_csum_aligned_c_def)
qed

lemma sint_length: "m < 2 ^ 31 \<Longrightarrow> sint (of_nat m :: u32) = int m"
  using sint_small [of "of_nat m"] by (simp add: unat_of_nat)

text \<open>
  Copying sums as the routine without a copy does, and copies exactly the bytes it sums, for
  lengths an \<open>int\<close> holds.
\<close>

lemma ci_ip_csum_copy_ok:
  assumes "n \<le> length s" "off + n \<le> length d" "n < 2 ^ 31"
  shows "\<exists>d'. ci_ip_csum_copy_c d off s n hi c = map_option (Pair d') (ci_ip_csum_c s n hi c) \<and> store d off (take n s) = Some d'"
proof (cases "hi \<and> n \<noteq> 0")
  case True
  then obtain b t m where s: "s = b # t" "n = Suc m" using assms by (cases s; cases n) auto
  obtain d1 where d1: "store d off [b] = Some d1" "length d1 = length d" using store_total [of off "[b]" d] assms(2) s by auto
  have "m \<le> length t" "off + 1 + m \<le> length d1" using assms s d1(2) by simp_all
  from ci_ip_csum_copy_aligned_ok [OF this] obtain d2 where
    "ci_ip_csum_copy_aligned_c d1 (off + 1) t (int m) (ci_add_carry32 c (ucast (CI_BSWAP_BE16 (ucast b)))) =
      map_option (Pair d2) (ci_ip_csum_aligned_c t m (ci_add_carry32 c (ucast (CI_BSWAP_BE16 (ucast b)))))"
    "store d1 (off + 1) (take m t) = Some d2" by blast
  moreover have "store d off ([b] @ take m t) = Some d2" by (rule store_append [OF d1(1)]) (use calculation(2) in simp)
  ultimately show ?thesis using True d1(1) s
    using sint_length [of m] assms(3) by (simp add: ci_ip_csum_copy_c_def ci_ip_csum_c_def load8_def load_def)
next
  case False
  then show ?thesis using ci_ip_csum_copy_aligned_ok [OF assms(1,2), of c] sint_length [OF assms(3)]
    by (auto simp: ci_ip_csum_copy_c_def ci_ip_csum_c_def)
qed

end
