(* ===== verification/NetAddr.thy ===== *)
theory NetAddr
  imports NetHdr C_Format
begin

text \<open>
  Addresses and headers of either IP version (\<open>ci/net/ipvx.h\<close> in its IPv6 configuration).
  An address is the union of sixteen bytes, held as its two 64-bit halves; the other members
  of the union are views of them.  A header is the bytes in memory that the IPv4 and the IPv6
  structure overlay.  The printing of addresses is modelled with the size of the caller's
  buffer: \<open>Inl\<close> is the jump to the failure label, a failed \<open>ci_assert\<close> is \<^term>\<open>None\<close>.
\<close>

unbundle bit_operations_syntax

section \<open>Addresses\<close>

record ci_addr_t =
  u64_0 :: u64
  u64_1 :: u64

definition addr_u32 :: "ci_addr_t \<Rightarrow> nat \<Rightarrow> u32" where
  "addr_u32 a i = (if i < 2 then ucast (drop_bit (32 * i) (u64_0 a)) else ucast (drop_bit (32 * (i - 2)) (u64_1 a)))"

definition addr_u16 :: "ci_addr_t \<Rightarrow> nat \<Rightarrow> u16" where
  "addr_u16 a i = (if i < 4 then ucast (drop_bit (16 * i) (u64_0 a)) else ucast (drop_bit (16 * (i - 4)) (u64_1 a)))"

definition addr_ip4 :: "ci_addr_t \<Rightarrow> u32" where
  "addr_ip4 a = addr_u32 a 3"

definition addr_ip6 :: "ci_addr_t \<Rightarrow> byte list" where
  "addr_ip6 a = le_of_word 8 (u64_0 a) @ le_of_word 8 (u64_1 a)"

definition addr_any :: ci_addr_t where "addr_any = \<lparr>u64_0 = 0, u64_1 = 0\<rparr>"
definition ip4_addr_any :: ci_addr_t where "ip4_addr_any = \<lparr>u64_0 = 0, u64_1 = word_of_le [0, 0, 0xff, 0xff, 0, 0, 0, 0]\<rparr>"
definition ip6_addr_loop :: ci_addr_t where "ip6_addr_loop = \<lparr>u64_0 = 0, u64_1 = word_of_le [0, 0, 0, 0, 0, 0, 0, 1]\<rparr>"

definition CI_ADDR_FROM_IP4 :: "u32 \<Rightarrow> ci_addr_t" where
  "CI_ADDR_FROM_IP4 ip = \<lparr>u64_0 = 0, u64_1 = CI_BSWAP_LE64 (push_bit 32 (ucast (CI_BSWAP_LE32 ip)) OR 0xffff0000)\<rparr>"

definition CI_ADDR_FROM_IP6 :: "byte list \<Rightarrow> ci_addr_t" where
  "CI_ADDR_FROM_IP6 ip6_addr = \<lparr>u64_0 = word_of_le (take 8 ip6_addr), u64_1 = word_of_le (take 8 (drop 8 ip6_addr))\<rparr>"

abbreviation (input) AF_INET :: nat where "AF_INET \<equiv> 2"
abbreviation (input) AF_INET6 :: nat where "AF_INET6 \<equiv> 10"

definition CI_IPX_ADDR_SIZE :: "nat \<Rightarrow> nat" where
  "CI_IPX_ADDR_SIZE af = (if af = AF_INET6 then 16 else 4)"

definition ci_is_addr_ip6 :: "ci_addr_t \<Rightarrow> u64" where
  "ci_is_addr_ip6 a = u64_0 a OR ((CI_BSWAP_LE64 (u64_1 a) AND 0xffffffff) XOR 0xffff0000)"

definition CI_ADDR_AF :: "ci_addr_t \<Rightarrow> nat" where
  "CI_ADDR_AF addr = (if ci_is_addr_ip6 addr \<noteq> 0 then AF_INET6 else AF_INET)"

definition ci_ipx_is_multicast :: "ci_addr_t \<Rightarrow> bool" where
  "ci_ipx_is_multicast a =
     (if ci_is_addr_ip6 a \<noteq> 0 then CI_IP6_IS_MULTICAST (addr_ip6 a) else CI_IP_IS_MULTICAST (addr_ip4 a))"

definition CI_IPX_IS_LINKLOCAL :: "ci_addr_t \<Rightarrow> bool" where
  "CI_IPX_IS_LINKLOCAL a = (if ci_is_addr_ip6 a \<noteq> 0 then CI_IP6_IS_LINKLOCAL (addr_u32 a 0) else False)"

definition ci_ipx_addr_cmp :: "ci_addr_t \<Rightarrow> ci_addr_t \<Rightarrow> u64" where
  "ci_ipx_addr_cmp a b = (u64_0 a XOR u64_0 b) OR (u64_1 a XOR u64_1 b)"

definition CI_IPX_ADDR_EQ :: "ci_addr_t \<Rightarrow> ci_addr_t \<Rightarrow> bool" where
  "CI_IPX_ADDR_EQ a b \<longleftrightarrow> ci_ipx_addr_cmp a b = 0"

definition ci_ipx_addr_cmp_any :: "ci_addr_t \<Rightarrow> u64" where
  "ci_ipx_addr_cmp_any a =
     (let v = CI_BSWAP_LE64 (u64_1 a)
      in u64_0 a OR (((push_bit 32 v OR drop_bit 32 v) + 0x1000000000000) AND NOT 0x1000000000000))"

definition CI_IPX_ADDR_IS_ANY :: "ci_addr_t \<Rightarrow> bool" where
  "CI_IPX_ADDR_IS_ANY a \<longleftrightarrow> ci_ipx_addr_cmp_any a = 0"

definition ci_ipx_is_loopback :: "ci_addr_t \<Rightarrow> bool" where
  "ci_ipx_is_loopback a =
     (if ci_is_addr_ip6 a \<noteq> 0 then CI_IPX_ADDR_EQ a ip6_addr_loop else CI_IP_IS_LOOPBACK (addr_ip4 a))"

datatype ci_af_space_t = AF_SPACE_FLAG_IP4 | AF_SPACE_FLAG_IP6

definition IS_AF_INET6 :: "nat \<Rightarrow> bool" where
  "IS_AF_INET6 af \<longleftrightarrow> af = AF_INET6"

definition OO_AF_FAMILY2SPACE :: "nat \<Rightarrow> ci_af_space_t" where
  "OO_AF_FAMILY2SPACE af = (if IS_AF_INET6 af then AF_SPACE_FLAG_IP6 else AF_SPACE_FLAG_IP4)"

definition ci_ipx_addr_xor :: "nat \<Rightarrow> ci_addr_t \<Rightarrow> ci_addr_t \<Rightarrow> ci_addr_t" where
  "ci_ipx_addr_xor af a b =
     (if af = AF_INET6 then a\<lparr>u64_0 := u64_0 a XOR u64_0 b, u64_1 := u64_1 a XOR u64_1 b\<rparr>
      else a\<lparr>u64_1 := push_bit 32 (ucast (addr_ip4 a XOR addr_ip4 b)) OR take_bit 32 (u64_1 a)\<rparr>)"

definition ci_ipx_addr_masked_cmp :: "ci_addr_t \<Rightarrow> ci_addr_t \<Rightarrow> ci_addr_t \<Rightarrow> u64" where
  "ci_ipx_addr_masked_cmp a b m = ((u64_0 a XOR u64_0 b) AND u64_0 m) OR ((u64_1 a XOR u64_1 b) AND u64_1 m)"

definition ci_ipx_addr_masked_eq :: "ci_addr_t \<Rightarrow> ci_addr_t \<Rightarrow> ci_addr_t \<Rightarrow> bool" where
  "ci_ipx_addr_masked_eq a b m \<longleftrightarrow> ci_ipx_addr_masked_cmp a b m = 0"

section \<open>Printing addresses\<close>

definition hexdigit :: "nat \<Rightarrow> char" where
  "hexdigit d = (if d < 10 then char_of (48 + d) else char_of (87 + d))"

fun show_hex :: "nat \<Rightarrow> string" where
  "show_hex n = (if n < 16 then [hexdigit n] else show_hex (n div 16) @ [hexdigit (n mod 16)])"

declare show_hex.simps [simp del]

definition CI_SPRINTF_APPEND :: "nat \<Rightarrow> string \<Rightarrow> string \<Rightarrow> string + string" where
  "CI_SPRINTF_APPEND sz s dst = (let dst = dst @ s in if sz \<le> length dst then Inl dst else Inr dst)"

definition sbind :: "'e + 'a \<Rightarrow> ('a \<Rightarrow> 'e + 'b) \<Rightarrow> 'e + 'b" where
  "sbind m f = (case m of Inl e \<Rightarrow> Inl e | Inr a \<Rightarrow> f a)"

fun ip6_str_loop :: "nat \<Rightarrow> nat \<Rightarrow> bool \<Rightarrow> bool \<Rightarrow> u16 list \<Rightarrow> string \<Rightarrow> string + string \<times> bool" where
  "ip6_str_loop sz i in_zero been_in_zero [] dst = Inr (dst, in_zero)"
| "ip6_str_loop sz i in_zero been_in_zero (g # gs) dst =
     sbind (if i \<noteq> 0 \<and> \<not> in_zero then CI_SPRINTF_APPEND sz '':'' dst else Inr dst) (\<lambda>dst.
     if g = 0 \<and> (in_zero \<or> \<not> been_in_zero)
     then sbind (if \<not> in_zero then CI_SPRINTF_APPEND sz '':'' dst else Inr dst) (\<lambda>dst.
          ip6_str_loop sz (i + 1) True True gs dst)
     else sbind (CI_SPRINTF_APPEND sz (show_hex (unat (CI_BSWAP_BE16 g))) dst) (\<lambda>dst.
          ip6_str_loop sz (i + 1) False been_in_zero gs dst))"

definition ip4_str :: "u32 \<Rightarrow> string" where
  "ip4_str ip =
     (let p = le_of_word 4 ip
      in show_nat (unat (p ! 0)) @ ''.'' @ show_nat (unat (p ! 1)) @ ''.'' @ show_nat (unat (p ! 2)) @ ''.'' @
         show_nat (unat (p ! 3)))"

definition ci_get_ip_str :: "ci_addr_t \<Rightarrow> nat \<Rightarrow> bool \<Rightarrow> string option" where
  "ci_get_ip_str src sz ipv6_add_brackets =
     (case
        if ci_is_addr_ip6 src \<noteq> 0
        then sbind (if ipv6_add_brackets then CI_SPRINTF_APPEND sz ''['' [] else Inr []) (\<lambda>dst.
             sbind (ip6_str_loop sz 0 False False (map (addr_u16 src) [0..<8]) dst) (\<lambda>(dst, in_zero).
             sbind (if in_zero then CI_SPRINTF_APPEND sz '':'' dst else Inr dst) (\<lambda>dst.
             if ipv6_add_brackets then CI_SPRINTF_APPEND sz '']'' dst else Inr dst)))
        else CI_SPRINTF_APPEND sz (ip4_str (addr_ip4 src)) []
      of Inr dst \<Rightarrow> Some dst
       | Inl dst \<Rightarrow> if length dst \<le> sz \<and> 0 < sz then Some (take (sz - 1) dst) else None)"

definition AF_IP :: "ci_addr_t \<Rightarrow> string option" where
  "AF_IP ip = ci_get_ip_str ip 48 True"

definition AF_IP_L3 :: "ci_addr_t \<Rightarrow> string option" where
  "AF_IP_L3 ip = ci_get_ip_str ip 48 False"

section \<open>Headers of either version\<close>

type_synonym ci_ipx_hdr_t = "byte list"

definition CI_IPX_HDR_SIZE :: "nat \<Rightarrow> nat" where
  "CI_IPX_HDR_SIZE af = (if af = AF_INET6 then 40 else 20)"

definition CI_IPX_FRAG_HDR_SIZE :: "nat \<Rightarrow> nat" where
  "CI_IPX_FRAG_HDR_SIZE af = (if IS_AF_INET6 af then 8 else 0)"

definition ipx_hdr_saddr :: "nat \<Rightarrow> ci_ipx_hdr_t \<Rightarrow> ci_addr_t option" where
  "ipx_hdr_saddr af hdr =
     (if IS_AF_INET6 af then map_option CI_ADDR_FROM_IP6 (load 16 hdr 8) else map_option CI_ADDR_FROM_IP4 (load32 hdr 12))"

definition ipx_hdr_daddr :: "nat \<Rightarrow> ci_ipx_hdr_t \<Rightarrow> ci_addr_t option" where
  "ipx_hdr_daddr af hdr =
     (if IS_AF_INET6 af then map_option CI_ADDR_FROM_IP6 (load 16 hdr 24) else map_option CI_ADDR_FROM_IP4 (load32 hdr 16))"

definition ipx_hdr_set_saddr :: "nat \<Rightarrow> ci_ipx_hdr_t \<Rightarrow> ci_addr_t \<Rightarrow> ci_ipx_hdr_t option" where
  "ipx_hdr_set_saddr af hdr addr =
     (if af = AF_INET6 then store hdr 8 (addr_ip6 addr) else store hdr 12 (le_of_word 4 (addr_ip4 addr)))"

definition ipx_hdr_set_daddr :: "nat \<Rightarrow> ci_ipx_hdr_t \<Rightarrow> ci_addr_t \<Rightarrow> ci_ipx_hdr_t option" where
  "ipx_hdr_set_daddr af hdr addr =
     (if af = AF_INET6 then store hdr 24 (addr_ip6 addr) else store hdr 16 (le_of_word 4 (addr_ip4 addr)))"

definition ipx_hdr_tot_len :: "nat \<Rightarrow> ci_ipx_hdr_t \<Rightarrow> u32 option" where
  "ipx_hdr_tot_len af hdr =
     (if af = AF_INET6 then map_option (\<lambda>l. ucast (CI_BSWAP_BE16 l) + 40) (load16 hdr 4)
      else map_option (\<lambda>l. ucast (CI_BSWAP_BE16 l)) (load16 hdr 2))"

definition ipx_hdr_set_payload_len :: "nat \<Rightarrow> ci_ipx_hdr_t \<Rightarrow> u16 \<Rightarrow> ci_ipx_hdr_t option" where
  "ipx_hdr_set_payload_len af hdr len =
     (if af = AF_INET6 then store hdr 4 (le_of_word 2 (CI_BSWAP_BE16 len))
      else store hdr 2 (le_of_word 2 (CI_BSWAP_BE16 (20 + len))))"

definition ipx_hdr_protocol :: "nat \<Rightarrow> ci_ipx_hdr_t \<Rightarrow> byte option" where
  "ipx_hdr_protocol af ipx = (if af = AF_INET6 then load8 ipx 6 else load8 ipx 9)"

definition ipx_hdr_ttl :: "nat \<Rightarrow> ci_ipx_hdr_t \<Rightarrow> byte option" where
  "ipx_hdr_ttl af ipx = (if af = AF_INET6 then load8 ipx 7 else load8 ipx 8)"

definition ipx_hdr_af :: "ci_ipx_hdr_t \<Rightarrow> nat option" where
  "ipx_hdr_af ipx = map_option (\<lambda>b. if drop_bit 4 b = 6 then AF_INET6 else AF_INET) (load8 ipx 0)"

definition ci_ipx_is_frag :: "nat \<Rightarrow> ci_ipx_hdr_t \<Rightarrow> bool option" where
  "ci_ipx_is_frag af ipx =
     (if IS_AF_INET6 af then map_option (\<lambda>p. p = 44) (load8 ipx 6)
      else map_option (\<lambda>f. f AND NOT CI_IP4_FRAG_DONT \<noteq> 0) (load16 ipx 6))"

section \<open>The address tests\<close>

lemma or_eq_0: "(x :: 'a::len word) OR y = 0 \<longleftrightarrow> x = 0 \<and> y = 0"
  by (auto simp: word_eq_bits bit_or_iff)

lemma xor_eq_0: "(x :: 'a::len word) XOR y = 0 \<longleftrightarrow> x = y"
  by (auto simp: word_eq_bits bit_xor_iff)

lemma low_half: "(x :: u64) AND 0xffffffff = take_bit 32 x"
  by (simp add: take_bit_eq_mask mask_numeral)

lemma swap_halves: "push_bit 32 (push_bit 32 v OR drop_bit 32 v) OR drop_bit 32 (push_bit 32 v OR drop_bit 32 v) = (v :: u64)"
proof (rule bit_word_eqI)
  fix n assume "n < LENGTH(64)"
  then show "bit (push_bit 32 (push_bit 32 v OR drop_bit 32 v) OR drop_bit 32 (push_bit 32 v OR drop_bit 32 v)) n = bit v n"
    using bit_imp_le_length [of v "64 + n"] bit_imp_le_length [of v "32 + (32 + n)"]
    by (cases "n < 32") (auto simp: bit_or_iff bit_push_bit_iff bit_drop_bit_eq)
qed

lemma swap_eq_iff: "push_bit 32 v OR drop_bit 32 v = w \<longleftrightarrow> (v :: u64) = push_bit 32 w OR drop_bit 32 w"
  using swap_halves by metis

lemma and_not_bit: "(x :: 'a::len word) AND NOT (2 ^ k) = 0 \<longleftrightarrow> x = 0 \<or> x = 2 ^ k"
proof
  assume "x AND NOT (2 ^ k) = 0"
  then have "\<not> bit (x AND NOT (2 ^ k)) n" for n by simp
  then have h: "bit x n \<Longrightarrow> n = k" for n
    using bit_imp_le_length [of x n] by (simp add: bit_and_iff bit_not_iff bit_exp_iff)
  show "x = 0 \<or> x = 2 ^ k"
  proof (cases "bit x k")
    case True
    have "bit x n = bit (2 ^ k :: 'a word) n" for n
      using h [of n] True bit_imp_le_length [OF True] by (auto simp: bit_exp_iff)
    then have "x = 2 ^ k" by (simp add: bit_word_eqI)
    then show ?thesis ..
  next
    case False
    then have "\<not> bit x n" for n using h by metis
    then have "x = 0" by (simp add: bit_word_eqI)
    then show ?thesis ..
  qed
next
  assume "x = 0 \<or> x = 2 ^ k"
  then show "x AND NOT (2 ^ k) = 0"
  proof
    assume "x = 2 ^ k"
    then show ?thesis by (simp only: bit.conj_cancel_right)
  qed simp
qed

lemma CI_ADDR_FROM_IP4_ip4 [simp]: "addr_ip4 (CI_ADDR_FROM_IP4 ip) = ip"
proof -
  have "drop_bit 32 (push_bit 32 (ucast ip) :: u64) = ucast ip"
    by (rule bit_word_eqI) (auto simp: bit_drop_bit_eq bit_push_bit_iff bit_unsigned_iff dest: bit_imp_le_length)
  then show ?thesis
    by (simp add: addr_ip4_def addr_u32_def CI_ADDR_FROM_IP4_def byteorder_defs drop_bit_or) (rule bit_word_eqI, simp add: bit_unsigned_iff)
qed

lemma ci_is_addr_ip6_iff: "ci_is_addr_ip6 a = 0 \<longleftrightarrow> a = CI_ADDR_FROM_IP4 (addr_ip4 a)"
proof -
  have "(ucast (ucast (drop_bit 32 v :: u64) :: u32) :: u64) = drop_bit 32 v" for v
    by (rule bit_word_eqI) (auto simp: bit_unsigned_iff bit_drop_bit_eq dest: bit_imp_le_length)
  moreover have "push_bit 32 (drop_bit 32 v) OR w = v \<longleftrightarrow> take_bit 32 v = w" if "take_bit 32 w = w" for v w :: u64
  proof
    assume "push_bit 32 (drop_bit 32 v) OR w = v"
    then have "take_bit 32 v = take_bit 32 (push_bit 32 (drop_bit 32 v)) OR take_bit 32 w" by (metis take_bit_or)
    then show "take_bit 32 v = w" using that by (simp add: take_bit_push_bit)
  next
    assume "take_bit 32 v = w"
    then show "push_bit 32 (drop_bit 32 v) OR w = v"
      by (auto intro!: bit_word_eqI simp: bit_or_iff bit_push_bit_iff bit_drop_bit_eq bit_take_bit_iff)
  qed
  ultimately show ?thesis
    by (cases a) (auto simp: ci_is_addr_ip6_def CI_ADDR_FROM_IP4_def addr_ip4_def addr_u32_def byteorder_defs or_eq_0 xor_eq_0 low_half
        eq_commute [of _ "push_bit _ _ OR _"])
qed

lemma CI_IPX_ADDR_EQ_iff: "CI_IPX_ADDR_EQ a b \<longleftrightarrow> a = b"
  by (simp add: CI_IPX_ADDR_EQ_def ci_ipx_addr_cmp_def or_eq_0 xor_eq_0) (metis ci_addr_t.equality old.unit.exhaust)

lemma ci_ipx_addr_masked_eq_iff:
  "ci_ipx_addr_masked_eq a b m \<longleftrightarrow> u64_0 a AND u64_0 m = u64_0 b AND u64_0 m \<and> u64_1 a AND u64_1 m = u64_1 b AND u64_1 m"
proof -
  have "(x XOR y) AND z = 0 \<longleftrightarrow> x AND z = y AND z" for x y z :: u64
    by (auto simp: word_eq_bits bit_xor_iff bit_and_iff)
  then show ?thesis by (simp add: ci_ipx_addr_masked_eq_def ci_ipx_addr_masked_cmp_def or_eq_0)
qed

lemma CI_IPX_ADDR_IS_ANY_iff: "CI_IPX_ADDR_IS_ANY a \<longleftrightarrow> a = addr_any \<or> a = ip4_addr_any"
proof -
  let ?v = "u64_1 a" and ?k = "2 ^ 48 :: u64"
  have k: "0x1000000000000 = ?k" by simp
  have ff: "word_of_le [0, 0, 0xff, 0xff, 0, 0, 0, 0] = (0xffff0000 :: u64)" by (simp add: word_of_le_def)
  have "CI_IPX_ADDR_IS_ANY a \<longleftrightarrow> u64_0 a = 0 \<and> ((push_bit 32 ?v OR drop_bit 32 ?v) + ?k) AND NOT ?k = 0"
    unfolding CI_IPX_ADDR_IS_ANY_def ci_ipx_addr_cmp_any_def Let_def byteorder_defs or_eq_0 k ..
  also have "((push_bit 32 ?v OR drop_bit 32 ?v) + ?k) AND NOT ?k = 0 \<longleftrightarrow>
      push_bit 32 ?v OR drop_bit 32 ?v = - ?k \<or> push_bit 32 ?v OR drop_bit 32 ?v = 0"
    unfolding and_not_bit eq_neg_iff_add_eq_0 by simp
  also have "\<dots> \<longleftrightarrow> ?v = 0xffff0000 \<or> ?v = 0"
  proof -
    have swapped: "push_bit 32 (- ?k) OR drop_bit 32 (- ?k) = 0xffff0000" by simp
    show ?thesis unfolding swap_eq_iff swapped by simp
  qed
  finally show ?thesis by (cases a) (auto simp: addr_any_def ip4_addr_any_def ff)
qed

text \<open>
  C29. The branch-free tests on addresses are exact: the test for IPv6 is false exactly on the
  addresses made from an IPv4 address, which is read back unchanged; the comparison is
  equality; the any-address test accepts the two any-addresses and nothing else; the masked
  comparison compares the masked halves.
\<close>

theorem addr_tests_exact:
  "addr_ip4 (CI_ADDR_FROM_IP4 ip) = ip \<and>
   (ci_is_addr_ip6 a = 0 \<longleftrightarrow> a \<in> range CI_ADDR_FROM_IP4) \<and>
   (CI_IPX_ADDR_EQ a b \<longleftrightarrow> a = b) \<and>
   (CI_IPX_ADDR_IS_ANY a \<longleftrightarrow> a \<in> {addr_any, ip4_addr_any}) \<and>
   (ci_ipx_addr_masked_eq a b m \<longleftrightarrow>
     u64_0 a AND u64_0 m = u64_0 b AND u64_0 m \<and> u64_1 a AND u64_1 m = u64_1 b AND u64_1 m)"
proof -
  have "ci_is_addr_ip6 a = 0 \<longleftrightarrow> a \<in> range CI_ADDR_FROM_IP4"
    using ci_is_addr_ip6_iff [of a] CI_ADDR_FROM_IP4_ip4 by (metis rangeE rangeI)
  then show ?thesis by (simp add: CI_IPX_ADDR_EQ_iff CI_IPX_ADDR_IS_ANY_iff ci_ipx_addr_masked_eq_iff)
qed

section \<open>Printed addresses\<close>

text \<open>The text without a bound on the buffer.\<close>

fun ip6_text :: "nat \<Rightarrow> bool \<Rightarrow> bool \<Rightarrow> u16 list \<Rightarrow> string" where
  "ip6_text i in_zero been [] = (if in_zero then '':'' else [])"
| "ip6_text i in_zero been (g # gs) =
     (if i \<noteq> 0 \<and> \<not> in_zero then '':'' else []) @
     (if g = 0 \<and> (in_zero \<or> \<not> been)
      then (if in_zero then [] else '':'') @ ip6_text (i + 1) True True gs
      else show_hex (unat (bswap16 g)) @ ip6_text (i + 1) False been gs)"

lemma length_show_hex: "n < 16 ^ Suc k \<Longrightarrow> length (show_hex n) \<le> Suc k"
proof (induction k arbitrary: n)
  case (Suc k)
  then show ?case
    by (subst show_hex.simps) (auto simp: less_mult_imp_div_less mult.commute)
qed (subst show_hex.simps, simp)

lemma length_ip6_text: "length (ip6_text i z b gs) \<le> 5 * length gs + 1"
proof (induction gs arbitrary: i z b)
  case (Cons g gs)
  have "unat (bswap16 g) < 2 ^ 16" using unsigned_less [where w = "bswap16 g"] by simp
  then have "length (show_hex (unat (bswap16 g))) \<le> 4" using length_show_hex [of _ 3] by simp
  then show ?case using Cons.IH [of "i + 1" True True] Cons.IH [of "i + 1" False b] by auto
qed auto

lemma append_fits: "length dst + length s < sz \<Longrightarrow> CI_SPRINTF_APPEND sz s dst = Inr (dst @ s)"
  by (simp add: CI_SPRINTF_APPEND_def)

lemma sbind_Inr [simp]: "sbind (Inr a) f = f a"
  by (simp add: sbind_def)

lemma ip6_str_loop_text:
  "length dst + 5 * length gs + 1 < sz \<Longrightarrow>
   \<exists>t z'. ip6_str_loop sz i z b gs dst = Inr (dst @ t, z') \<and> ip6_text i z b gs = t @ (if z' then '':'' else [])"
proof (induction gs arbitrary: i z b dst)
  case (Cons g gs)
  let ?sep = "if i \<noteq> 0 \<and> \<not> z then '':'' else []" and ?h = "show_hex (unat (bswap16 g))"
  have "unat (bswap16 g) < 2 ^ 16" using unsigned_less [where w = "bswap16 g"] by simp
  then have h: "length ?h \<le> 4" using length_show_hex [of _ 3] by simp
  have sep: "(if i \<noteq> 0 \<and> \<not> z then CI_SPRINTF_APPEND sz '':'' dst else Inr dst) = Inr (dst @ ?sep)"
    using Cons.prems by (simp add: append_fits)
  show ?case
  proof (cases "g = 0 \<and> (z \<or> \<not> b)")
    case True
    let ?c = "if z then [] else '':''"
    have c: "(if \<not> z then CI_SPRINTF_APPEND sz '':'' (dst @ ?sep) else Inr (dst @ ?sep)) = Inr (dst @ ?sep @ ?c)"
      using Cons.prems by (simp add: append_fits)
    have "length (dst @ ?sep @ ?c) + 5 * length gs + 1 < sz" using Cons.prems by simp
    from Cons.IH [OF this, of "i + 1" True True] obtain t z' where
      "ip6_str_loop sz (i + 1) True True gs (dst @ ?sep @ ?c) = Inr ((dst @ ?sep @ ?c) @ t, z')"
      "ip6_text (i + 1) True True gs = t @ (if z' then '':'' else [])" by blast
    then show ?thesis
      by (intro exI [of _ "?sep @ ?c @ t"] exI [of _ z']) (use True in \<open>simp only: ip6_str_loop.simps ip6_text.simps sep c sbind_Inr if_True simp_thms append_assoc\<close>)
  next
    case False
    have a: "CI_SPRINTF_APPEND sz ?h (dst @ ?sep) = Inr (dst @ ?sep @ ?h)"
      using Cons.prems h by (simp add: append_fits)
    have "length (dst @ ?sep @ ?h) + 5 * length gs + 1 < sz" using Cons.prems h by simp
    from Cons.IH [OF this, of "i + 1" False b] obtain t z' where
      "ip6_str_loop sz (i + 1) False b gs (dst @ ?sep @ ?h) = Inr ((dst @ ?sep @ ?h) @ t, z')"
      "ip6_text (i + 1) False b gs = t @ (if z' then '':'' else [])" by blast
    then show ?thesis
      by (intro exI [of _ "?sep @ ?h @ t"] exI [of _ z'])
        (use False in \<open>simp only: ip6_str_loop.simps ip6_text.simps sep a sbind_Inr if_False byteorder_defs simp_thms append_assoc\<close>)
  qed
qed simp

lemma length_show_nat: "n < 10 ^ Suc k \<Longrightarrow> length (show_nat n) \<le> Suc k"
proof (induction k arbitrary: n)
  case (Suc k)
  then show ?case
    by (subst show_nat.simps) (auto simp: less_mult_imp_div_less mult.commute)
qed (subst show_nat.simps, simp)

lemma length_ip4_str: "length (ip4_str ip) \<le> 15"
proof -
  have "length (show_nat (unat b)) \<le> 3" for b :: byte
  proof -
    have "unat b < 256" using unsigned_less [where w = b] by simp
    then show ?thesis using length_show_nat [of "unat b" 2] by simp
  qed
  note l = this [of "le_of_word 4 ip ! i" for i]
  show ?thesis using l [of 0] l [of 1] l [of 2] l [of 3] by (simp add: ip4_str_def Let_def)
qed

definition ip_text :: "ci_addr_t \<Rightarrow> bool \<Rightarrow> string" where
  "ip_text a br =
     (if ci_is_addr_ip6 a = 0 then ip4_str (addr_ip4 a)
      else (if br then ''['' else []) @ ip6_text 0 False False (map (addr_u16 a) [0..<8]) @ (if br then '']'' else []))"

lemma length_ip_text: "length (ip_text a br) \<le> 43"
  using length_ip4_str [of "addr_ip4 a"] length_ip6_text [of 0 False False "map (addr_u16 a) [0..<8]"]
  by (simp add: ip_text_def)

lemma ci_get_ip_str_fits:
  assumes "43 < sz"
  shows "ci_get_ip_str a sz br = Some (ip_text a br)"
proof (cases "ci_is_addr_ip6 a = 0")
  case True
  then show ?thesis using assms length_ip4_str [of "addr_ip4 a"]
    by (simp add: ci_get_ip_str_def append_fits ip_text_def)
next
  case False
  let ?gs = "map (addr_u16 a) [0..<8]" and ?o = "if br then ''['' else []"
  have "length ?o + 5 * length ?gs + 1 < sz" using assms by simp
  from ip6_str_loop_text [OF this, of 0 False False] obtain t z where
    t: "ip6_str_loop sz 0 False False ?gs ?o = Inr (?o @ t, z)" "ip6_text 0 False False ?gs = t @ (if z then '':'' else [])"
    by blast
  have len: "length (t @ (if z then '':'' else [])) \<le> 41"
    using length_ip6_text [of 0 False False ?gs] by (simp add: t(2))
  have 1: "(if br then CI_SPRINTF_APPEND sz ''['' [] else Inr []) = Inr ?o" using assms by (simp add: append_fits)
  have 2: "(if z then CI_SPRINTF_APPEND sz '':'' (?o @ t) else Inr (?o @ t)) = Inr (?o @ t @ (if z then '':'' else []))"
    using assms len by (simp add: append_fits)
  have 3: "(if br then CI_SPRINTF_APPEND sz '']'' (?o @ u) else Inr (?o @ u)) = Inr (?o @ u @ (if br then '']'' else []))"
    if "length u \<le> 41" for u using assms that by (simp add: append_fits)
  show ?thesis
    unfolding ci_get_ip_str_def 1 sbind_Inr t(1) prod.case 2 3 [OF len] sum.case ip_text_def t(2) using False by simp
qed

text \<open>
  The buffer behind the printing macros is large enough: every address, with or without
  brackets, is printed completely in 48 bytes, the result fits with its terminating zero, and a
  larger buffer gives the same text.
\<close>

theorem ip_str_fits:
  "\<exists>s. AF_IP a = Some s \<and> length s < 48 \<and> (\<forall>sz. 48 \<le> sz \<longrightarrow> ci_get_ip_str a sz True = Some s) \<and>
   (\<exists>t. AF_IP_L3 a = Some t \<and> length t < 48 \<and> (\<forall>sz. 48 \<le> sz \<longrightarrow> ci_get_ip_str a sz False = Some t))"
  using length_ip_text [of a True] length_ip_text [of a False]
  by (simp add: AF_IP_def AF_IP_L3_def ci_get_ip_str_fits)

section \<open>Compressed zeros\<close>

text \<open>Groups separated by colons, as the text shows them.\<close>

fun hex_groups :: "u16 list \<Rightarrow> string" where
  "hex_groups [] = []"
| "hex_groups [g] = show_hex (unat (bswap16 g))"
| "hex_groups (g # gs) = show_hex (unat (bswap16 g)) @ '':'' @ hex_groups gs"

lemma ip6_text_groups:
  "0 \<notin> set gs \<or> b \<Longrightarrow> gs \<noteq> [] \<Longrightarrow>
     ip6_text i False b (gs @ hs) = (if i = 0 then [] else '':'') @ hex_groups gs @ ip6_text (i + length gs) False b hs"
proof (induction gs arbitrary: i rule: hex_groups.induct)
  case (3 g g' gs)
  then show ?case using "3.IH" [of "i + 1"] by (auto simp del: hex_groups.simps(2))
qed auto

lemma ip6_text_zeros:
  "post = [] \<or> hd post \<noteq> 0 \<Longrightarrow>
     ip6_text i True True (replicate k 0 @ post) = (if post = [] then '':'' else hex_groups post)"
proof (induction k arbitrary: i)
  case 0
  show ?case
  proof (cases post)
    case (Cons g gs)
    then show ?thesis using 0 ip6_text_groups [of gs True "i + 1" "[]"] by (cases gs) auto
  qed simp
qed simp

lemma ip6_text_first_run:
  assumes "0 \<notin> set pre" "post = [] \<or> hd post \<noteq> 0"
  shows "ip6_text 0 False False (pre @ replicate (Suc k) 0 @ post) =
    hex_groups pre @ (if pre = [] then '':'' else ''::'') @ (if post = [] then '':'' else hex_groups post)"
proof (cases "pre = []")
  case True
  then show ?thesis using ip6_text_zeros [OF assms(2), of 1 k] by simp
next
  case False
  then show ?thesis using ip6_text_groups [OF disjI1 [OF assms(1)] False, of 0 False "replicate (Suc k) 0 @ post"]
      ip6_text_zeros [OF assms(2), of "length pre + 1" k] by simp
qed

text \<open>
  C30. The text of an IPv6 address without zero groups is its eight groups separated by colons.
  Otherwise it is the groups before the first run of zeros, a colon (two when groups stand
  before the run), and the groups behind the run, or one more colon when there are none.
  The standard form has two colons in place of a run wherever it stands: the texts of \<open>::1\<close>
  and \<open>fe80::\<close> are \<open>:1\<close> and \<open>fe80:::\<close>, that of the zero address is right.
\<close>

theorem ip_str_text:
  assumes "ci_is_addr_ip6 a \<noteq> 0" "map (addr_u16 a) [0..<8] = gs"
  shows "(0 \<notin> set gs \<longrightarrow> AF_IP_L3 a = Some (hex_groups gs)) \<and>
    (\<forall>pre k post. gs = pre @ replicate (Suc k) 0 @ post \<and> 0 \<notin> set pre \<and> (post = [] \<or> hd post \<noteq> 0) \<longrightarrow>
      AF_IP_L3 a = Some (hex_groups pre @ (if pre = [] then '':'' else ''::'') @ (if post = [] then '':'' else hex_groups post)))"
proof -
  have "gs \<noteq> []" using assms(2) by auto
  moreover have "AF_IP_L3 a = Some (ip6_text 0 False False gs)"
    using assms by (simp add: AF_IP_L3_def ci_get_ip_str_fits ip_text_def del: upt_rec_numeral)
  ultimately show ?thesis using ip6_text_groups [of gs False 0 "[]"] by (auto simp: ip6_text_first_run simp del: replicate_Suc)
qed

theorem ip_str_text_witness:
  "AF_IP_L3 ip6_addr_loop = Some '':1'' \<and> AF_IP_L3 \<lparr>u64_0 = 0x80fe, u64_1 = 0\<rparr> = Some ''fe80:::''"
proof -
  have upt: "[0..<8] = [0, 1, 2, 3, 4, 5, 6, 7]" by (simp add: upt_rec)
  have zeros: "replicate (Suc 6) (0 :: u16) = [0, 0, 0, 0, 0, 0, 0]" by (simp add: numeral_eq_Suc)
  have "ci_is_addr_ip6 ip6_addr_loop \<noteq> 0" "map (addr_u16 ip6_addr_loop) [0..<8] = [] @ replicate (Suc 6) 0 @ [0x100]"
    unfolding zeros upt by (simp_all add: ci_is_addr_ip6_def ip6_addr_loop_def addr_u16_def word_of_le_def byteorder_defs)
  note 1 = mp [OF spec [of _ "[0x100]", OF spec [of _ 6, OF spec [of _ "[]", OF conjunct2 [OF ip_str_text [OF this]]]]]]
  let ?a = "\<lparr>u64_0 = 0x80fe, u64_1 = 0\<rparr>"
  have "ci_is_addr_ip6 ?a \<noteq> 0" "map (addr_u16 ?a) [0..<8] = [0x80fe] @ replicate (Suc 6) 0 @ []"
    unfolding zeros upt by (simp_all add: ci_is_addr_ip6_def addr_u16_def byteorder_defs)
  note 2 = mp [OF spec [of _ "[]", OF spec [of _ 6, OF spec [of _ "[0x80fe]", OF conjunct2 [OF ip_str_text [OF this]]]]]]
  have "bswap16 0x100 = 1" "bswap16 0x80fe = 0xfe80" by (simp_all add: bswap16_def word_of_le_def le_of_word_def)
  then have "hex_groups [0x100] = ''1''" "hex_groups [0x80fe] = ''fe80''"
    by (simp_all add: show_hex.simps [of "0xfe80"] show_hex.simps [of "0xfe8"] show_hex.simps [of "0xfe"] show_hex.simps [of "0xf"]
        show_hex.simps [of "Suc 0"] hexdigit_def char_of_eq_iff)
  with 1 2 show ?thesis by simp
qed

end
