(* ===== verification/CiHash.thy ===== *)
theory CiHash
  imports NetAddr
begin

text \<open>
  The hash functions of the lookup tables (\<open>onload/hash.h\<close>).  The header states and proves
  in comments that the local port can be recovered from the first hash, and relies on the
  second hash being odd; both are theorems here, for the functions as they are written.  A
  failed \<open>ci_assert\<close> is \<^term>\<open>None\<close>.  The functions are those of the build with IPv6
  (\<open>CI_CFG_IPV6\<close>); without it \<open>onload_addr_xor\<close> is the IPv4 address itself.
\<close>

unbundle bit_operations_syntax

section \<open>Hash functions\<close>

definition onload_addr_xor :: "ci_addr_t \<Rightarrow> u32" where
  "onload_addr_xor addr = fold (\<lambda>i addr_xor. addr_xor XOR addr_u32 addr i) [0..<4] 0"

text \<open>The two lines that mix the bits, shared by two of the functions.\<close>

definition hash_mix :: "u32 \<Rightarrow> u32" where
  "hash_mix h = (let h = h XOR drop_bit 16 h in h XOR drop_bit 8 h)"

definition onload_hash3_raw :: "u32 \<Rightarrow> u32 \<Rightarrow> u32 \<Rightarrow> u32 \<Rightarrow> u32 \<Rightarrow> u32" where
  "onload_hash3_raw laddr lport raddr rport protocol =
     hash_mix (CI_BSWAP_BE32 raddr XOR CI_BSWAP_LE32 laddr XOR (push_bit 16 rport OR lport) XOR protocol)"

definition onload_hash3 :: "ci_addr_t \<Rightarrow> u32 \<Rightarrow> ci_addr_t \<Rightarrow> u32 \<Rightarrow> u32 \<Rightarrow> u32" where
  "onload_hash3 laddr lport raddr rport protocol =
     onload_hash3_raw (onload_addr_xor laddr) lport (onload_addr_xor raddr) rport protocol"

definition onload_hash1_raw :: "u32 \<Rightarrow> u32 \<Rightarrow> u32 \<Rightarrow> u32 \<Rightarrow> u32 \<Rightarrow> u32 \<Rightarrow> u32 option" where
  "onload_hash1_raw size_mask laddr lport raddr rport protocol =
     (if CI_IS_POW2 (size_mask + 1) then Some (onload_hash3_raw laddr lport raddr rport protocol AND size_mask) else None)"

definition onload_hash1 :: "u32 \<Rightarrow> ci_addr_t \<Rightarrow> u32 \<Rightarrow> ci_addr_t \<Rightarrow> u32 \<Rightarrow> u32 \<Rightarrow> u32 option" where
  "onload_hash1 size_mask laddr lport raddr rport protocol =
     onload_hash1_raw size_mask (onload_addr_xor laddr) lport (onload_addr_xor raddr) rport protocol"

definition onload_hash2_raw :: "u32 \<Rightarrow> u32 \<Rightarrow> u32 \<Rightarrow> u32 \<Rightarrow> u32 \<Rightarrow> u32" where
  "onload_hash2_raw laddr lport raddr rport protocol =
     (CI_BSWAP_LE32 (laddr XOR raddr) XOR (push_bit 16 lport OR rport) XOR protocol) OR 1"

definition onload_hash2 :: "ci_addr_t \<Rightarrow> u32 \<Rightarrow> ci_addr_t \<Rightarrow> u32 \<Rightarrow> u32 \<Rightarrow> u32" where
  "onload_hash2 laddr lport raddr rport protocol =
     onload_hash2_raw (onload_addr_xor laddr) lport (onload_addr_xor raddr) rport protocol"

definition cplane_hash2 :: "ci_addr_t \<Rightarrow> u32 \<Rightarrow> ci_addr_t \<Rightarrow> u32 \<Rightarrow> u32 \<Rightarrow> u32" where
  "cplane_hash2 laddr ifindex raddr tos iif_ifindex =
     (let laddr_xor = onload_addr_xor laddr;
          raddr_xor = onload_addr_xor raddr;
          h = CI_BSWAP_LE32 raddr_xor XOR CI_BSWAP_BE32 (laddr_xor + raddr_xor) XOR
              (push_bit 16 ifindex OR (iif_ifindex + tos))
      in hash_mix h OR 1)"

text \<open>
  Double hashing by the formula of the header's comment (its callers perform it): the
  bucket tried in the given round.
\<close>

definition probe :: "u32 \<Rightarrow> u32 \<Rightarrow> u32 \<Rightarrow> nat \<Rightarrow> u32" where
  "probe size_mask h1 h2 i = (h1 + of_nat i * h2) AND size_mask"

section \<open>The mixing step is a bijection\<close>

lemma hash_mix_inverse: "hash_mix h XOR drop_bit 8 (hash_mix h) = h"
proof -
  have "drop_bit 32 h = 0" by (rule bit_word_eqI) (auto simp: bit_drop_bit_eq dest: bit_imp_le_length)
  then show ?thesis
    by (simp add: hash_mix_def Let_def drop_bit_xor drop_bit_drop_bit) (simp add: ac_simps xor.assoc)
qed

lemma hash_mix_inj: "hash_mix h = hash_mix h' \<Longrightarrow> h = h'"
  by (metis hash_mix_inverse)

text \<open>Mixing moves bits down only: the upper half does not depend on the lower half.\<close>

lemma hash_mix_upper:
  assumes "drop_bit 16 h = drop_bit 16 h'"
  shows "drop_bit 16 (hash_mix h) = drop_bit 16 (hash_mix h')"
proof -
  have "drop_bit 32 h = 0" "drop_bit 40 h = 0" for h :: u32
    by (rule bit_word_eqI; auto simp: bit_drop_bit_eq dest: bit_imp_le_length)+
  then have "drop_bit 16 (hash_mix h) = drop_bit 16 h XOR drop_bit 8 (drop_bit 16 h)" for h
    by (simp add: hash_mix_def Let_def drop_bit_xor drop_bit_drop_bit ac_simps)
  with assms show ?thesis by (simp only:)
qed

lemma xor_cancel: "a XOR x XOR b = a XOR y XOR b \<longleftrightarrow> x = (y :: 'a::len word)"
  by (metis xor.assoc xor.commute xor.left_commute xor_self_eq xor.right_neutral)

lemma port_word:
  assumes "unat lport < 2 ^ 16"
  shows "drop_bit 16 (push_bit 16 rport OR lport) = take_bit 16 rport" "take_bit 16 (push_bit 16 rport OR (lport :: u32)) = lport"
proof -
  have "take_bit 16 lport = lport" using assms by (metis take_bit_nat_eq_self unsigned_take_bit_eq unsigned_word_eqI)
  then have bits: "bit lport n \<Longrightarrow> n < 16" for n by (metis bit_take_bit_iff)
  show "drop_bit 16 (push_bit 16 rport OR lport) = take_bit 16 rport"
    by (rule bit_word_eqI) (auto simp: bit_drop_bit_eq bit_or_iff bit_push_bit_iff bit_take_bit_iff dest: bits bit_imp_le_length)
  show "take_bit 16 (push_bit 16 rport OR lport) = lport"
    by (rule bit_word_eqI) (auto simp: bit_or_iff bit_push_bit_iff bit_take_bit_iff dest: bits)
qed

text \<open>Two tuples that differ in the local port only have different hashes, and hashes with the same upper half.\<close>

lemma hash3_lport:
  assumes "unat lport < 2 ^ 16" "unat lport' < 2 ^ 16"
  shows "onload_hash3_raw laddr lport raddr rport protocol = onload_hash3_raw laddr lport' raddr rport protocol \<longleftrightarrow> lport = lport'"
    and "drop_bit 16 (onload_hash3_raw laddr lport raddr rport protocol) = drop_bit 16 (onload_hash3_raw laddr lport' raddr rport protocol)"
proof -
  let ?h = "\<lambda>p. (CI_BSWAP_BE32 raddr XOR CI_BSWAP_LE32 laddr) XOR (push_bit 16 rport OR p) XOR protocol"
  have hash: "onload_hash3_raw laddr p raddr rport protocol = hash_mix (?h p)" for p
    by (simp add: onload_hash3_raw_def xor.assoc)
  show "onload_hash3_raw laddr lport raddr rport protocol = onload_hash3_raw laddr lport' raddr rport protocol \<longleftrightarrow> lport = lport'"
    unfolding hash using hash_mix_inj [of "?h lport" "?h lport'"] port_word(2) [OF assms(1)] port_word(2) [OF assms(2)]
    by (metis xor_cancel)
  show "drop_bit 16 (onload_hash3_raw laddr lport raddr rport protocol) = drop_bit 16 (onload_hash3_raw laddr lport' raddr rport protocol)"
    unfolding hash by (rule hash_mix_upper) (simp only: drop_bit_xor port_word(1) [OF assms(1)] port_word(1) [OF assms(2)])
qed

lemma size_mask_pow2:
  assumes "CI_IS_POW2 (size_mask + 1 :: u32)"
  shows "\<exists>k<32. size_mask = mask k"
proof -
  obtain k where "k < 32" "size_mask + 1 = 2 ^ k" using CI_IS_POW2_pow2 [OF assms] by blast
  then have "size_mask = mask k" by (metis add_diff_cancel_right' mask_eq_exp_minus_1)
  with \<open>k < 32\<close> show ?thesis by blast
qed

text \<open>
  C28. The local port recovery property, Propositions 3 and 5 of the header: of two tuples that
  differ at most in their 16-bit local port, equal hashes have equal ports; for the full hash,
  and for the masked hash when the table has at least 65536 buckets.
\<close>

theorem local_port_recovery:
  assumes "unat lport < 2 ^ 16" "unat lport' < 2 ^ 16"
  shows "(onload_hash3 laddr lport raddr rport protocol = onload_hash3 laddr lport' raddr rport protocol \<longleftrightarrow> lport = lport') \<and>
    (CI_IS_POW2 (size_mask + 1) \<and> 0xffff \<le> size_mask \<longrightarrow>
      (onload_hash1 size_mask laddr lport raddr rport protocol = onload_hash1 size_mask laddr lport' raddr rport protocol \<longleftrightarrow>
       lport = lport'))"
proof (intro conjI impI)
  show "onload_hash3 laddr lport raddr rport protocol = onload_hash3 laddr lport' raddr rport protocol \<longleftrightarrow> lport = lport'"
    unfolding onload_hash3_def by (rule hash3_lport(1) [OF assms])
next
  assume m: "CI_IS_POW2 (size_mask + 1) \<and> 0xffff \<le> size_mask"
  then obtain k where k: "k < 32" "size_mask = mask k" using size_mask_pow2 by blast
  have "16 \<le> k"
  proof (rule ccontr)
    assume "\<not> 16 \<le> k"
    then have "(2::nat) ^ k \<le> 2 ^ 15" by (intro power_increasing) auto
    moreover have "65535 \<le> unat size_mask" using m by (simp add: word_le_nat_alt)
    ultimately show False unfolding k(2) unat_mask32 [OF k(1)] by simp
  qed
  let ?h = "\<lambda>p. onload_hash3_raw (onload_addr_xor laddr) p (onload_addr_xor raddr) rport protocol"
  have low: "take_bit 16 (x AND mask k) = take_bit 16 x" for x :: u32
    using \<open>16 \<le> k\<close> by (simp add: min_def flip: take_bit_eq_mask)
  have join: "push_bit 16 (drop_bit 16 x) OR take_bit 16 x = x" for x :: u32
    by (rule bit_word_eqI) (auto simp: bit_or_iff bit_push_bit_iff bit_drop_bit_eq bit_take_bit_iff)
  have "?h lport = ?h lport'" if "?h lport AND size_mask = ?h lport' AND size_mask"
  proof -
    have t: "take_bit 16 (?h lport) = take_bit 16 (?h lport')" using arg_cong [OF that, of "take_bit 16"] unfolding k(2) low .
    have "?h lport = push_bit 16 (drop_bit 16 (?h lport)) OR take_bit 16 (?h lport)" by (rule join [symmetric])
    also have "\<dots> = push_bit 16 (drop_bit 16 (?h lport')) OR take_bit 16 (?h lport')" unfolding t hash3_lport(2) [OF assms] ..
    also have "\<dots> = ?h lport'" by (rule join)
    finally show ?thesis .
  qed
  moreover have "?h lport = ?h lport' \<longleftrightarrow> lport = lport'" by (rule hash3_lport(1) [OF assms])
  moreover have v: "onload_hash1 size_mask laddr p raddr rport protocol = Some (?h p AND size_mask)" for p
    using m by (simp add: onload_hash1_def onload_hash1_raw_def)
  ultimately show
    "onload_hash1 size_mask laddr lport raddr rport protocol = onload_hash1 size_mask laddr lport' raddr rport protocol \<longleftrightarrow> lport = lport'"
    unfolding v option.inject by auto
qed

theorem local_port_recovery_witness:
  "onload_hash1 0xffff (CI_ADDR_FROM_IP4 0x0100007f) 888 (CI_ADDR_FROM_IP4 0x0100000a) 5000 17 \<noteq>
   onload_hash1 0xffff (CI_ADDR_FROM_IP4 0x0100007f) 889 (CI_ADDR_FROM_IP4 0x0100000a) 5000 17"
proof -
  have "CI_IS_POW2 (0xffff + 1 :: u32)" by (simp add: CI_IS_POW2_def)
  then show ?thesis using local_port_recovery [of 888 889 _ _ _ _ "0xffff"] by simp
qed

section \<open>Double hashing\<close>

lemma hash2_odd: "odd (unat (onload_hash2 laddr lport raddr rport protocol))" "odd (unat (cplane_hash2 laddr ifindex raddr tos iif))"
proof -
  have "odd (unat (x OR 1))" for x :: u32
  proof -
    have "bit (unat (x OR 1)) 0" by (simp only: bit_unsigned_iff) (simp add: bit_or_iff)
    then show ?thesis unfolding bit_0 .
  qed
  then show "odd (unat (onload_hash2 laddr lport raddr rport protocol))" "odd (unat (cplane_hash2 laddr ifindex raddr tos iif))"
    by (simp_all add: onload_hash2_def onload_hash2_raw_def cplane_hash2_def Let_def)
qed

lemma unat_probe:
  assumes "k < 32"
  shows "unat (probe (mask k) h1 h2 i) = (unat h1 + i * unat h2) mod 2 ^ k"
proof -
  have "h1 + of_nat i * h2 = h1 + of_nat (i * unat h2)" by simp
  then show ?thesis unfolding probe_def unat_and_mask_mod using unat_add_mod_pow2 [of k h1 "i * unat h2"] assms by simp
qed

lemma odd_step_inj:
  fixes h :: nat
  assumes "odd h" "(a + i * h) mod 2 ^ k = (a + j * h) mod 2 ^ k" "i < 2 ^ k" "j < 2 ^ k"
  shows "i = j"
proof -
  have aux: "i = j" if "i \<le> j" "(a + i * h) mod 2 ^ k = (a + j * h) mod 2 ^ k" "j < 2 ^ k" for i j
  proof -
    have "a + i * h \<le> a + j * h" using that(1) by simp
    then have "2 ^ k dvd (a + j * h) - (a + i * h)" using mod_eq_dvd_iff_nat [of "a + i * h" "a + j * h" "2 ^ k"] that(2) by simp
    then have "2 ^ k dvd (j - i) * h" by (simp add: diff_mult_distrib)
    moreover have "coprime (2 ^ k) h" using assms(1) by simp
    ultimately have "2 ^ k dvd j - i" by (simp add: coprime_dvd_mult_left_iff)
    then show ?thesis using that by (auto dest: dvd_imp_le)
  qed
  show ?thesis using aux [of i j] aux [of j i] assms(2-4) by (cases "i \<le> j") auto
qed

text \<open>
  C27. Double hashing with the second hash reaches the whole table: for a table whose size is a
  power of two, the buckets probed in the first rounds, as many as the table has, are all
  buckets, each exactly once.
\<close>

theorem probe_visits_every_bucket:
  assumes "CI_IS_POW2 (size_mask + 1)"
  shows "bij_betw (\<lambda>i. unat (probe size_mask h1 (onload_hash2 laddr lport raddr rport protocol) i))
    {..<unat size_mask + 1} {..<unat size_mask + 1}"
proof -
  obtain k where k: "k < 32" "size_mask = mask k" using size_mask_pow2 [OF assms] by blast
  have size: "unat size_mask + 1 = 2 ^ k" using k by (simp add: unat_mask32)
  let ?f = "\<lambda>i. unat (probe size_mask h1 (onload_hash2 laddr lport raddr rport protocol) i)"
  have "inj_on ?f {..<2 ^ k}"
    unfolding k(2) unat_probe [OF k(1)]
    by (rule inj_onI, rule odd_step_inj [OF hash2_odd(1)], assumption) (simp_all only: lessThan_iff)
  moreover have "?f ` {..<2 ^ k} \<subseteq> {..<2 ^ k}"
    unfolding k(2) unat_probe [OF k(1)] by (intro image_subsetI) simp
  ultimately show ?thesis unfolding size bij_betw_def using endo_inj_surj by blast
qed

theorem probe_visits_every_bucket_witness:
  "bij_betw (\<lambda>i. unat (probe 7 5 (onload_hash2 addr_any 888 addr_any 5000 17) i)) {..<8} {..<8}"
  using probe_visits_every_bucket [of 7 5 addr_any 888 addr_any 5000 17] by (simp add: CI_IS_POW2_def)

end
