(* ===== verification/CpMib.thy ===== *)
theory CpMib
  imports CiHash
begin

text \<open>
  Tables of the control plane (\<open>cplane/mib.h\<close>) and the choice of a port of a bond
  (\<open>cplane/cplane.h\<close>).  A table is the list of its rows; an access outside the list, a failed
  assertion and a division by zero are \<^term>\<open>None\<close>.  Row numbers are 16-bit signed integers and
  wrap as such.
\<close>

unbundle bit_operations_syntax

section \<open>Rows\<close>

record cicp_encap_t =
  encap_type :: u32
  vlan_id :: u16
  link_ifindex :: u16

record cicp_llap_row_t =
  llap_ifindex :: u16
  llap_mtu :: u16
  llap_flags :: u32
  llap_name :: string
  llap_mac :: "byte list"
  llap_encap :: cicp_encap_t
  tx_hwports :: u16
  rx_hwports :: u16
  llap_xdp_prog_id :: u32
  iif_fwd_table_id :: u32

record cp_hwport_row =
  hwport_flags :: u32
  nic_flags :: u64
  hwport_xdp_prog_id :: u32

record cicp_ipif_row_t =
  net_ip :: u32
  net_ipset :: byte
  ipif_ifindex :: u16
  bcast_ip :: u32
  ipif_scope :: byte

record cicp_ip6if_row_t =
  net_ip6 :: "byte list"
  net_ipset6 :: byte
  ip6if_ifindex :: u16
  ip6if_scope :: byte

record cp_tables_dim =
  hwport_max :: int
  llap_max :: int
  ipif_max :: int
  ip6if_max :: int

record cp_mibs =
  dim :: cp_tables_dim
  hwport :: "cp_hwport_row list"
  llap :: "cicp_llap_row_t list"
  ipif :: "cicp_ipif_row_t list"
  ip6if :: "cicp_ip6if_row_t list"

definition CICP_ROWID_BAD :: int where "CICP_ROWID_BAD = - 1"
definition CI_IFID_BAD :: u16 where "CI_IFID_BAD = 0"
definition CI_HWPORT_ID_BAD :: byte where "CI_HWPORT_ID_BAD = - 1"
definition CI_IP_PREFIXLEN_BAD :: byte where "CI_IP_PREFIXLEN_BAD = 0xff"
definition CP_HWPORT_ROW_IN_USE :: u32 where "CP_HWPORT_ROW_IN_USE = 0x200"

definition CICP_LLAP_TYPE_VLAN :: u32 where "CICP_LLAP_TYPE_VLAN = 0x1"
definition CICP_LLAP_TYPE_BOND :: u32 where "CICP_LLAP_TYPE_BOND = 0x2"
definition CICP_LLAP_TYPE_SLAVE :: u32 where "CICP_LLAP_TYPE_SLAVE = 0x4"
definition CICP_LLAP_TYPE_XMIT_HASH_LAYER2 :: u32 where "CICP_LLAP_TYPE_XMIT_HASH_LAYER2 = 0x8"
definition CICP_LLAP_TYPE_XMIT_HASH_LAYER34 :: u32 where "CICP_LLAP_TYPE_XMIT_HASH_LAYER34 = 0x10"
definition CICP_LLAP_TYPE_XMIT_HASH_LAYER23 :: u32 where "CICP_LLAP_TYPE_XMIT_HASH_LAYER23 = 0x20"

definition CICP_LLAP_TYPE_USES_HASH :: u32 where
  "CICP_LLAP_TYPE_USES_HASH =
     CICP_LLAP_TYPE_XMIT_HASH_LAYER34 OR CICP_LLAP_TYPE_XMIT_HASH_LAYER2 OR CICP_LLAP_TYPE_XMIT_HASH_LAYER23"

definition cicp_llap_row_is_free :: "cicp_llap_row_t \<Rightarrow> bool" where
  "cicp_llap_row_is_free row \<longleftrightarrow> llap_ifindex row = CI_IFID_BAD"

definition cicp_hwport_row_is_free :: "cp_hwport_row \<Rightarrow> bool" where
  "cicp_hwport_row_is_free row \<longleftrightarrow> hwport_flags row AND CP_HWPORT_ROW_IN_USE = 0"

definition cicp_ipif_row_is_free :: "cicp_ipif_row_t \<Rightarrow> bool" where
  "cicp_ipif_row_is_free row \<longleftrightarrow> net_ipset row = CI_IP_PREFIXLEN_BAD"

definition cicp_ip6if_row_is_free :: "cicp_ip6if_row_t \<Rightarrow> bool" where
  "cicp_ip6if_row_is_free row \<longleftrightarrow> net_ipset6 row = CI_IP_PREFIXLEN_BAD"

section \<open>Searching a table\<close>

definition row_at :: "'r list \<Rightarrow> int \<Rightarrow> 'r option" where
  "row_at rows i = (if 0 \<le> i \<and> i < int (length rows) then Some (rows ! nat i) else None)"

lemma sint_row_Suc:
  fixes i :: u16
  assumes "0 \<le> sint i"
  shows "sint i < 2 ^ 15 - 1 \<Longrightarrow> sint (i + 1) = sint i + 1" "\<not> sint i < 2 ^ 15 - 1 \<Longrightarrow> sint (i + 1) < 0"
proof -
  have r: "sint i < 2 ^ 15" using sint_lt [of i] by simp
  have s: "sint (i + 1) = (sint i + 1 + 2 ^ 15) mod 2 ^ 16 - 2 ^ 15"
    by (simp add: signed_take_bit_eq_take_bit_shift take_bit_eq_mod sint_word_ariths(1) algebra_simps)
  show "sint i < 2 ^ 15 - 1 \<Longrightarrow> sint (i + 1) = sint i + 1" using s assms by simp
  assume "\<not> sint i < 2 ^ 15 - 1"
  then have "sint i = 2 ^ 15 - 1" using r by simp
  then show "sint (i + 1) < 0" using s by simp
qed

text \<open>The body the three searches share: a row that fits ends the search before a free row does.\<close>

function find_row_loop :: "('r \<Rightarrow> bool) \<Rightarrow> ('r \<Rightarrow> bool) \<Rightarrow> 'r list \<Rightarrow> int \<Rightarrow> u16 \<Rightarrow> int option" where
  "find_row_loop hit is_free rows row_max i =
     (if sint i < row_max
      then do { r \<leftarrow> row_at rows (sint i);
                if hit r then Some (sint i)
                else if is_free r then Some CICP_ROWID_BAD
                else find_row_loop hit is_free rows row_max (i + 1) }
      else Some CICP_ROWID_BAD)"
  by auto

termination
proof (relation "measure (\<lambda>(hit, is_free, rows, row_max, i). if 0 \<le> sint i then nat (2 ^ 15 - sint i) else 0)", goal_cases)
  case (2 hit is_free rows row_max i r)
  then have i: "0 \<le> sint i" by (auto simp: row_at_def split: if_splits)
  have "sint i < 2 ^ 15" using sint_lt [of i] by simp
  then show ?case using sint_row_Suc [OF i] i by (cases "sint i < 2 ^ 15 - 1") auto
qed simp

declare find_row_loop.simps [simp del]

definition cp_llap_find_row :: "cp_mibs \<Rightarrow> u16 \<Rightarrow> int option" where
  "cp_llap_find_row mib ifindex =
     (if ifindex = CI_IFID_BAD then None
      else find_row_loop (\<lambda>r. llap_ifindex r = ifindex) cicp_llap_row_is_free (llap mib) (llap_max (dim mib)) 0)"

definition cp_llap_by_ifname :: "cp_mibs \<Rightarrow> string \<Rightarrow> int option" where
  "cp_llap_by_ifname mib ifname =
     find_row_loop (\<lambda>r. llap_name r = ifname) cicp_llap_row_is_free (llap mib) (llap_max (dim mib)) 0"

definition cp_ipif_any_row_by_ifindex :: "cp_mibs \<Rightarrow> u16 \<Rightarrow> int option" where
  "cp_ipif_any_row_by_ifindex mib ifindex =
     find_row_loop (\<lambda>r. ipif_ifindex r = ifindex) cicp_ipif_row_is_free (ipif mib) (ipif_max (dim mib)) 0"

section \<open>Hardware ports\<close>

text \<open>The C library's \<open>ffs\<close>: the number of the lowest bit set, counted from one, zero if there is none.\<close>

definition ffs :: "u16 \<Rightarrow> int" where
  "ffs m = (if m = 0 then 0 else int (length (takeWhile (\<lambda>i. \<not> bit m i) [0..<16])) + 1)"

definition cp_hwport_mask_first :: "u16 \<Rightarrow> byte" where
  "cp_hwport_mask_first m = word_of_int (ffs m - 1)"

definition cp_hwport_make_mask :: "byte \<Rightarrow> u16" where
  "cp_hwport_make_mask p = (if 16 \<le> unat p then 0 else push_bit (unat p) 1)"

lemma and_minus_1_less: "x \<noteq> 0 \<Longrightarrow> unat (x AND (x - 1)) < unat (x :: u16)"
proof -
  assume "x \<noteq> 0"
  then have "x - 1 < x" by (simp add: word_less_nat_alt unat_minus_one unat_gt_0)
  moreover have "x AND (x - 1) \<le> x - 1" by (rule word_and_le1)
  ultimately show ?thesis by (simp add: word_less_nat_alt word_le_nat_alt)
qed

function get_hwports_loop :: "cp_mibs \<Rightarrow> u16 \<Rightarrow> u16 \<Rightarrow> u16 option" where
  "get_hwports_loop mib hwports all_hwports =
     (if hwports \<noteq> 0
      then do { let i = cp_hwport_mask_first hwports;
                row \<leftarrow> row_at (hwport mib) (uint i);
                get_hwports_loop mib (hwports AND (hwports - 1))
                  (if cicp_hwport_row_is_free row then all_hwports else all_hwports OR cp_hwport_make_mask i) }
      else Some all_hwports)"
  by auto

termination
  by (relation "measure (\<lambda>(mib, hwports, all_hwports). unat hwports)") (use and_minus_1_less in auto)

declare get_hwports_loop.simps [simp del]

definition cp_get_hwports :: "cp_mibs \<Rightarrow> u16 \<Rightarrow> u16 option" where
  "cp_get_hwports mib hwports = get_hwports_loop mib hwports 0"

section \<open>Ports of a bond\<close>

record cicp_hash_state =
  hs_flags :: u32
  hs_src_mac :: "byte list"
  hs_dst_mac :: "byte list"
  src_addr_be32 :: u32
  dst_addr_be32 :: u32
  src_port_be16 :: u16
  dst_port_be16 :: u16

definition CICP_HASH_STATE_FLAGS_IS_IP :: u32 where "CICP_HASH_STATE_FLAGS_IS_IP = 0x1"
definition CICP_HASH_STATE_FLAGS_IS_TCP_UDP :: u32 where "CICP_HASH_STATE_FLAGS_IS_TCP_UDP = 0x2"
definition CICP_HASH_STATE_FLAGS_IS_FRAG :: u32 where "CICP_HASH_STATE_FLAGS_IS_FRAG = 0x4"

definition cicp_layer2_hash :: "cicp_hash_state \<Rightarrow> nat \<Rightarrow> nat option" where
  "cicp_layer2_hash hs num_slaves =
     (if num_slaves = 0 then None else Some (unat (hs_src_mac hs ! 5 XOR hs_dst_mac hs ! 5) mod num_slaves))"

definition cicp_layer23_hash :: "cicp_hash_state \<Rightarrow> nat \<Rightarrow> nat option" where
  "cicp_layer23_hash hs num_slaves =
     (if hs_flags hs AND CICP_HASH_STATE_FLAGS_IS_IP \<noteq> 0
      then if num_slaves = 0 then None
           else Some (unat ((CI_BSWAP_BE32 (src_addr_be32 hs XOR dst_addr_be32 hs) AND 0xffff) XOR
                            ucast (hs_src_mac hs ! 5 XOR hs_dst_mac hs ! 5)) mod num_slaves)
      else cicp_layer2_hash hs num_slaves)"

text \<open>
  The product of the ports is computed as an \<open>int\<close>, which it exceeds from 128 on: the overflow of
  a signed integer is undefined.
\<close>

definition cicp_layer34_hash :: "cicp_hash_state \<Rightarrow> nat \<Rightarrow> nat option" where
  "cicp_layer34_hash hs num_slaves =
     (if hs_flags hs AND CICP_HASH_STATE_FLAGS_IS_IP \<noteq> 0
      then let addrs = CI_BSWAP_BE32 (src_addr_be32 hs XOR dst_addr_be32 hs);
               slaves = (of_nat num_slaves :: u16)
           in if slaves = 0 then None
              else if hs_flags hs AND CICP_HASH_STATE_FLAGS_IS_FRAG = 0 \<and>
                      hs_flags hs AND CICP_HASH_STATE_FLAGS_IS_TCP_UDP \<noteq> 0
              then let ports = CI_BSWAP_BE16 (src_port_be16 hs XOR dst_port_be16 hs)
                   in if 2 ^ 31 \<le> uint ports * 16777619 then None
                      else Some (unat (ucast (drop_bit 8 (ucast ports * 16777619 :: u32) XOR addrs) :: u16) mod unat slaves)
              else Some (unat (ucast addrs :: u16) mod unat slaves)
      else cicp_layer2_hash hs num_slaves)"

definition oo_cp_hwport_hash :: "u32 \<Rightarrow> cicp_hash_state \<Rightarrow> nat \<Rightarrow> nat option" where
  "oo_cp_hwport_hash encap hs slaves =
     (if \<not> CI_IS_POW2 (encap AND CICP_LLAP_TYPE_USES_HASH) then None
      else if encap AND CICP_LLAP_TYPE_XMIT_HASH_LAYER34 \<noteq> 0 then cicp_layer34_hash hs slaves
      else if encap AND CICP_LLAP_TYPE_XMIT_HASH_LAYER23 \<noteq> 0 then cicp_layer23_hash hs slaves
      else cicp_layer2_hash hs slaves)"

text \<open>The loop that stores the ports of the mask into the array of sixteen.\<close>

function bond_ports_loop :: "u16 \<Rightarrow> byte list \<Rightarrow> nat \<Rightarrow> (byte list \<times> nat) option" where
  "bond_ports_loop hwports ports i =
     (if hwports \<noteq> 0
      then do { ports \<leftarrow> store ports i [cp_hwport_mask_first hwports];
                bond_ports_loop (hwports AND (hwports - 1)) ports (i + 1) }
      else Some (ports, i))"
  by auto

termination
  by (relation "measure (\<lambda>(hwports, ports, i). unat hwports)") (use and_minus_1_less in auto)

declare bond_ports_loop.simps [simp del]

text \<open>The array as the compiler leaves it, its first element set, is an argument.\<close>

definition oo_cp_hwport_bond_get :: "byte list \<Rightarrow> u32 \<Rightarrow> u16 \<Rightarrow> cicp_hash_state \<Rightarrow> byte option" where
  "oo_cp_hwport_bond_get garbage encap hwports hs =
     (if hwports = 0 then Some CI_HWPORT_ID_BAD
      else do {
        ports \<leftarrow> store garbage 0 [CI_HWPORT_ID_BAD];
        (ports, i) \<leftarrow> bond_ports_loop hwports ports 0;
        h \<leftarrow> oo_cp_hwport_hash encap hs i;
        load8 ports h })"

section \<open>What a search finds\<close>

definition first_row :: "('r \<Rightarrow> bool) \<Rightarrow> ('r \<Rightarrow> bool) \<Rightarrow> 'r list \<Rightarrow> nat \<Rightarrow> bool" where
  "first_row hit is_free rows k \<longleftrightarrow> hit (rows ! k) \<and> (\<forall>j < k. \<not> hit (rows ! j) \<and> \<not> is_free (rows ! j))"

lemma find_row_step:
  fixes i :: u16
  assumes "sint i = int k" "int k < row_max" "k < length rows" "\<not> hit (rows ! k)" "\<not> is_free (rows ! k)"
  shows "find_row_loop hit is_free rows row_max i = find_row_loop hit is_free rows row_max (i + 1)"
  using assms by (subst find_row_loop.simps) (simp add: row_at_def)

lemma find_row_found:
  fixes i :: u16
  assumes "n \<le> length rows" "n < 2 ^ 15" "sint i = int k" "k \<le> n"
    "\<forall>j < k. \<not> hit (rows ! j) \<and> \<not> is_free (rows ! j)"
  shows "(\<exists>k < n. first_row hit is_free rows k \<and> find_row_loop hit is_free rows (int n) i = Some (int k)) \<or>
    (\<forall>k < n. \<not> first_row hit is_free rows k) \<and> find_row_loop hit is_free rows (int n) i = Some CICP_ROWID_BAD"
  using assms
proof (induction "n - k" arbitrary: k i)
  case 0
  then have "k = n" by simp
  with 0 have "find_row_loop hit is_free rows (int n) i = Some CICP_ROWID_BAD" by (simp add: find_row_loop.simps)
  moreover have "\<forall>k < n. \<not> first_row hit is_free rows k" using 0 \<open>k = n\<close> by (auto simp: first_row_def)
  ultimately show ?case by blast
next
  case (Suc d)
  then have k: "k < n" "k < length rows" by simp_all
  consider "hit (rows ! k)" | "\<not> hit (rows ! k)" "is_free (rows ! k)" | "\<not> hit (rows ! k)" "\<not> is_free (rows ! k)" by blast
  then show ?case
  proof cases
    case 1
    then have "first_row hit is_free rows k" using Suc.prems(5) by (simp add: first_row_def)
    moreover have "find_row_loop hit is_free rows (int n) i = Some (int k)"
      using 1 k Suc.prems(3) by (subst find_row_loop.simps) (simp add: row_at_def)
    ultimately show ?thesis using k by blast
  next
    case 2
    have "\<not> first_row hit is_free rows m" if "m < n" for m
      using 2 Suc.prems(5) by (cases m k rule: linorder_cases) (auto simp: first_row_def)
    moreover have "find_row_loop hit is_free rows (int n) i = Some CICP_ROWID_BAD"
      using 2 k Suc.prems(3) by (subst find_row_loop.simps) (simp add: row_at_def)
    ultimately show ?thesis by blast
  next
    case 3
    have s: "sint (i + 1) = int (Suc k)" using sint_row_Suc(1) [of i] Suc.prems k by simp
    have p: "\<forall>j < Suc k. \<not> hit (rows ! j) \<and> \<not> is_free (rows ! j)" using Suc.prems(5) 3 by (simp add: less_Suc_eq)
    have "d = n - Suc k" using Suc.hyps(2) by simp
    from Suc.hyps(1) [OF this Suc.prems(1,2) s _ p] k
    show ?thesis using find_row_step [of i k "int n" rows hit is_free] Suc.prems(3) k 3 by simp
  qed
qed

lemma first_row_unique:
  "first_row hit is_free rows j \<Longrightarrow> first_row hit is_free rows k \<Longrightarrow> j = k"
  by (cases j k rule: linorder_cases) (auto simp: first_row_def)

lemma find_row_iff:
  assumes "n \<le> length rows" "n < 2 ^ 15"
  shows "find_row_loop hit is_free rows (int n) 0 = Some (int k) \<longleftrightarrow> k < n \<and> first_row hit is_free rows k"
proof -
  have "sint (0 :: u16) = int 0" by simp
  from find_row_found [OF assms this, of hit is_free] consider
      m where "m < n" "first_row hit is_free rows m" "find_row_loop hit is_free rows (int n) 0 = Some (int m)"
    | "\<forall>k < n. \<not> first_row hit is_free rows k" "find_row_loop hit is_free rows (int n) 0 = Some CICP_ROWID_BAD" by auto
  then show ?thesis
  proof cases
    case 1
    then show ?thesis using first_row_unique [OF 1(2), of k] by auto
  qed (auto simp: CICP_ROWID_BAD_def)
qed

lemma find_row_total:
  assumes "n \<le> length rows" "n < 2 ^ 15"
  shows "\<exists>i. find_row_loop hit is_free rows (int n) 0 = Some i \<and> - 1 \<le> i"
proof -
  have "sint (0 :: u16) = int 0" by simp
  from find_row_found [OF assms this, of hit is_free] show ?thesis by (auto simp: CICP_ROWID_BAD_def)
qed

lemma find_row_wraps:
  fixes i :: u16
  assumes "2 ^ 15 \<le> row_max" "2 ^ 15 \<le> length rows" "sint i = int k" "k < 2 ^ 15"
    "\<forall>j < 2 ^ 15. \<not> hit (rows ! j) \<and> \<not> is_free (rows ! j)"
  shows "find_row_loop hit is_free rows row_max i = None"
  using assms
proof (induction "2 ^ 15 - 1 - k" arbitrary: k i)
  case 0
  then have k: "k = 2 ^ 15 - 1" by simp
  then have "sint (i + 1) < 0" using 0 sint_row_Suc(2) [of i] by simp
  then have "find_row_loop hit is_free rows row_max (i + 1) = None"
    using 0 by (subst find_row_loop.simps) (simp add: row_at_def)
  then show ?case using find_row_step [of i k row_max rows hit is_free] 0 k by simp
next
  case (Suc d)
  have s: "sint (i + 1) = int (Suc k)" using sint_row_Suc(1) [of i] Suc.prems Suc.hyps(2) by simp
  have "d = 2 ^ 15 - 1 - Suc k" "Suc k < 2 ^ 15" using Suc.hyps(2) by simp_all
  from Suc.hyps(1) [OF this(1) Suc.prems(1,2) s this(2) Suc.prems(5)]
  show ?case using find_row_step [of i k row_max rows hit is_free] Suc.prems by simp
qed

section \<open>Masks of ports\<close>

definition lowest :: "u16 \<Rightarrow> nat \<Rightarrow> bool" where
  "lowest w k \<longleftrightarrow> k < 16 \<and> bit w k \<and> (\<forall>j < k. \<not> bit w j)"

lemma lowest_exists: "w \<noteq> 0 \<Longrightarrow> \<exists>k. lowest w k"
proof -
  assume "w \<noteq> 0"
  then have "\<exists>n. bit w n" using bit_word_eqI [of w 0] by auto
  then obtain k where k: "bit w k" "\<forall>j < k. \<not> bit w j" using exists_least_iff [of "bit w"] by blast
  then show ?thesis using bit_imp_le_length [of w k] by (auto simp: lowest_def)
qed

lemma mask_first_lowest: "lowest w k \<Longrightarrow> cp_hwport_mask_first w = of_nat k \<and> unat (of_nat k :: byte) = k \<and> uint (of_nat k :: byte) = int k"
proof -
  assume k: "lowest w k"
  then have "w \<noteq> 0" by (auto simp: lowest_def)
  have "takeWhile (\<lambda>i. \<not> bit w i) [0..<16] = take k [0..<16]"
    by (rule takeWhile_eq_take_P_nth) (use k in \<open>auto simp: lowest_def simp del: upt.simps\<close>)
  then have "ffs w = int k + 1" using k \<open>w \<noteq> 0\<close> by (simp add: ffs_def lowest_def del: upt.simps)
  then have "cp_hwport_mask_first w = of_nat k" by (simp add: cp_hwport_mask_first_def)
  moreover have u: "unat (of_nat k :: byte) = k" using k by (simp add: lowest_def unat_of_nat)
  moreover have "uint (of_nat k :: byte) = int k" by (simp only: uint_nat u)
  ultimately show ?thesis by blast
qed

lemma nat_clear_lowest:
  "bit (push_bit k (2 * q + 1) - 1 :: nat) n \<longleftrightarrow> n < k \<or> k < n \<and> bit (push_bit k (2 * q + 1) :: nat) n"
proof -
  have "push_bit k (2 * q + 1) - 1 = push_bit (Suc k) q + (mask k :: nat)"
    by (simp add: push_bit_eq_mult mask_eq_exp_minus_1 algebra_simps)
  also have "\<dots> = push_bit (Suc k) q OR mask k"
    by (rule disjunctive_add_eq_or) (auto simp: bit_eq_iff bit_and_iff bit_push_bit_iff bit_mask_iff)
  finally have e: "push_bit k (2 * q + 1) - 1 = push_bit (Suc k) q OR (mask k :: nat)" .
  have "bit (push_bit k (2 * q + 1) - 1 :: nat) n \<longleftrightarrow> Suc k \<le> n \<and> bit q (n - Suc k) \<or> n < k"
    unfolding e bit_or_iff bit_push_bit_iff bit_mask_iff by auto
  moreover have "k < n \<Longrightarrow> bit (push_bit k (2 * q + 1) :: nat) n \<longleftrightarrow> bit q (n - Suc k)"
  proof -
    assume "k < n"
    then obtain m where m: "n = Suc (k + m)" using less_iff_Suc_add by blast
    then have "n - k = Suc m" "k \<le> n" "n - Suc k = m" by simp_all
    then show ?thesis unfolding bit_push_bit_iff by (simp add: bit_Suc)
  qed
  ultimately show ?thesis by auto
qed

lemma bit_clear_lowest:
  assumes "lowest w k"
  shows "bit (w AND (w - 1)) n \<longleftrightarrow> bit w n \<and> n \<noteq> k"
proof -
  have k: "bit w k" "\<And>j. j < k \<Longrightarrow> \<not> bit w j" using assms by (auto simp: lowest_def)
  have "2 ^ k dvd unat w"
  proof -
    have "take_bit k (unat w) = 0" using k(2) by (auto simp: bit_eq_iff bit_take_bit_iff bit_unsigned_iff)
    then show ?thesis by (simp add: take_bit_eq_0_iff)
  qed
  then obtain c where c: "unat w = 2 ^ k * c" by blast
  have "bit (unat w) k" using k(1) by (simp add: bit_unsigned_iff bit_imp_le_length)
  then have "odd c" unfolding c by (simp add: bit_iff_odd)
  then obtain q where "c = 2 * q + 1" by (rule oddE)
  then have u: "unat w = push_bit k (2 * q + 1)" using c by (simp add: push_bit_eq_mult mult.commute)
  have "w \<noteq> 0" using k(1) by auto
  have b: "bit v n \<longleftrightarrow> bit (unat v) n" for v :: u16 by (simp add: bit_unsigned_iff)
  have "bit (w - 1) n \<longleftrightarrow> bit (unat w - 1) n" using b [of "w - 1"] \<open>w \<noteq> 0\<close> by (simp add: unat_minus_one)
  moreover have "bit w n \<longleftrightarrow> bit (unat w) n" by (rule b)
  ultimately show ?thesis unfolding bit_and_iff u using nat_clear_lowest [of k q n] k by auto
qed

lemma clear_lowest_induct [consumes 0, case_names zero step]:
  assumes "P 0" "\<And>w k. lowest w k \<Longrightarrow> P (w AND (w - 1)) \<Longrightarrow> P w"
  shows "P (w :: u16)"
proof (induction "unat w" arbitrary: w rule: less_induct)
  case less
  show ?case
  proof (cases "w = 0")
    case False
    then obtain k where "lowest w k" using lowest_exists by blast
    then show ?thesis by (rule assms(2)) (use less and_minus_1_less [OF False] in blast)
  qed (use assms(1) in simp)
qed

lemma make_mask_bit: "k < 16 \<Longrightarrow> unat p = k \<Longrightarrow> bit (cp_hwport_make_mask p) n \<longleftrightarrow> n = k"
  by (auto simp: cp_hwport_make_mask_def bit_push_bit_iff bit_1_iff bit_exp_iff possible_bit_def)

lemma get_hwports_bits:
  assumes "\<forall>n. bit w n \<longrightarrow> n < length (hwport mib)"
  shows "\<exists>r. get_hwports_loop mib w acc = Some r \<and>
    (\<forall>n. bit r n \<longleftrightarrow> bit acc n \<or> bit w n \<and> \<not> cicp_hwport_row_is_free (hwport mib ! n))"
  using assms
proof (induction w arbitrary: acc rule: clear_lowest_induct)
  case zero
  then show ?case by (simp add: get_hwports_loop.simps)
next
  case (step w k)
  let ?row = "hwport mib ! k"
  let ?acc = "if cicp_hwport_row_is_free ?row then acc else acc OR cp_hwport_make_mask (of_nat k)"
  note f = mask_first_lowest [OF step.hyps]
  have k: "k < 16" "bit w k" "w \<noteq> 0" using step.hyps by (auto simp: lowest_def)
  have "get_hwports_loop mib w acc = get_hwports_loop mib (w AND (w - 1)) ?acc"
    using k f step.prems by (subst get_hwports_loop.simps) (simp add: row_at_def Let_def)
  moreover have "\<forall>n. bit (w AND (w - 1)) n \<longrightarrow> n < length (hwport mib)"
    using step.prems by (simp add: bit_clear_lowest [OF step.hyps])
  from step.IH [OF this, of ?acc] obtain r where r: "get_hwports_loop mib (w AND (w - 1)) ?acc = Some r"
    "\<forall>n. bit r n \<longleftrightarrow> bit ?acc n \<or> bit (w AND (w - 1)) n \<and> \<not> cicp_hwport_row_is_free (hwport mib ! n)" by blast
  moreover have "bit ?acc n \<longleftrightarrow> bit acc n \<or> n = k \<and> \<not> cicp_hwport_row_is_free ?row" for n
    using make_mask_bit [OF k(1), of "of_nat k" n] f by (simp add: bit_or_iff)
  ultimately show ?case using k by (auto simp: bit_clear_lowest [OF step.hyps])
qed

section \<open>The ports a bond chooses from\<close>

definition ports_of :: "u16 \<Rightarrow> nat list" where
  "ports_of w = filter (bit w) [0..<16]"

lemma ports_of_step:
  assumes "lowest w k"
  shows "ports_of w = k # ports_of (w AND (w - 1))"
proof -
  have k: "k < 16" "bit w k" "\<forall>j < k. \<not> bit w j" using assms by (auto simp: lowest_def)
  have split: "[0..<16] = [0..<k] @ k # [Suc k..<16]"
    using k(1) upt_add_eq_append [of 0 k "16 - k"] upt_conv_Cons [of k 16] by (simp del: upt.simps)
  have "filter (bit w) [0..<k] = []" "filter (bit (w AND (w - 1))) [0..<k] = []"
    using k(3) by (simp_all add: filter_empty_conv bit_clear_lowest [OF assms])
  moreover have "filter (bit (w AND (w - 1))) [Suc k..<16] = filter (bit w) [Suc k..<16]"
    by (rule filter_cong) (auto simp: bit_clear_lowest [OF assms])
  ultimately show ?thesis unfolding ports_of_def split using k(2) by (simp add: bit_clear_lowest [OF assms])
qed

lemma length_ports_of: "length (ports_of w) \<le> 16"
  unfolding ports_of_def using length_filter_le [of "bit w" "[0..<16]"] by simp

lemma bond_ports_loop_ports:
  assumes "i + length (ports_of w) \<le> length ports"
  shows "bond_ports_loop w ports i =
    Some (take i ports @ map of_nat (ports_of w) @ drop (i + length (ports_of w)) ports, i + length (ports_of w))"
  using assms
proof (induction w arbitrary: ports i rule: clear_lowest_induct)
  case zero
  then show ?case by (simp add: bond_ports_loop.simps ports_of_def)
next
  case (step w k)
  let ?w = "w AND (w - 1)"
  have w: "w \<noteq> 0" using step.hyps by (auto simp: lowest_def)
  have i: "i < length ports" using step.prems by (simp add: ports_of_step [OF step.hyps])
  have st: "store ports i [cp_hwport_mask_first w] = Some (take i ports @ of_nat k # drop (i + 1) ports)"
    using i mask_first_lowest [OF step.hyps] by (simp add: store_def)
  let ?p = "take i ports @ of_nat k # drop (i + 1) ports"
  have "bond_ports_loop w ports i = bond_ports_loop ?w ?p (i + 1)"
    using w st by (subst bond_ports_loop.simps) simp
  also have "\<dots> = Some (take (i + 1) ?p @ map of_nat (ports_of ?w) @ drop (i + 1 + length (ports_of ?w)) ?p, i + 1 + length (ports_of ?w))"
    by (rule step.IH) (use step.prems i in \<open>simp add: ports_of_step [OF step.hyps]\<close>)
  also have "take (i + 1) ?p = take i ports @ [of_nat k]" using i by simp
  also have "drop (i + 1 + length (ports_of ?w)) ?p = drop (i + 1 + length (ports_of ?w)) ports" using i by (simp add: ac_simps)
  finally show ?case by (simp add: ports_of_step [OF step.hyps])
qed

text \<open>The packets whose hash overflows: unfragmented TCP and UDP over IP, hashed with their ports.\<close>

definition hash_overflows :: "u32 \<Rightarrow> cicp_hash_state \<Rightarrow> bool" where
  "hash_overflows encap hs \<longleftrightarrow> encap AND CICP_LLAP_TYPE_XMIT_HASH_LAYER34 \<noteq> 0 \<and>
     hs_flags hs AND CICP_HASH_STATE_FLAGS_IS_IP \<noteq> 0 \<and> hs_flags hs AND CICP_HASH_STATE_FLAGS_IS_FRAG = 0 \<and>
     hs_flags hs AND CICP_HASH_STATE_FLAGS_IS_TCP_UDP \<noteq> 0 \<and> 128 \<le> unat (CI_BSWAP_BE16 (src_port_be16 hs XOR dst_port_be16 hs))"

lemma product_overflows: "2 ^ 31 \<le> uint (p :: u16) * 16777619 \<longleftrightarrow> 128 \<le> unat p"
proof -
  have "int (unat p) = uint p" by simp
  then have "128 \<le> unat p \<longleftrightarrow> 128 \<le> uint p" by linarith
  moreover have "2147483648 \<le> u * 16777619 \<longleftrightarrow> 128 \<le> u" for u :: int by linarith
  ultimately show ?thesis by simp
qed

lemma hash_bound:
  "oo_cp_hwport_hash encap hs n = Some h \<Longrightarrow> n < 2 ^ 16 \<Longrightarrow> h < n"
  "CI_IS_POW2 (encap AND CICP_LLAP_TYPE_USES_HASH) \<Longrightarrow> 0 < n \<Longrightarrow> n < 2 ^ 16 \<Longrightarrow> \<not> hash_overflows encap hs \<Longrightarrow>
     \<exists>h. oo_cp_hwport_hash encap hs n = Some h"
  "hash_overflows encap hs \<Longrightarrow> oo_cp_hwport_hash encap hs n = None"
proof -
  have u: "n < 2 ^ 16 \<Longrightarrow> unat (of_nat n :: u16) = n" by (simp add: unat_of_nat)
  have z: "0 < n \<Longrightarrow> n < 2 ^ 16 \<Longrightarrow> (of_nat n :: u16) \<noteq> 0" using u by fastforce
  have y: "(of_nat n :: u16) \<noteq> 0 \<Longrightarrow> 0 < n" by (cases n) auto
  show "oo_cp_hwport_hash encap hs n = Some h \<Longrightarrow> n < 2 ^ 16 \<Longrightarrow> h < n"
    using u y by (auto simp: oo_cp_hwport_hash_def cicp_layer34_hash_def cicp_layer23_hash_def cicp_layer2_hash_def Let_def
        split: if_splits)
  show "\<exists>h. oo_cp_hwport_hash encap hs n = Some h"
    if "CI_IS_POW2 (encap AND CICP_LLAP_TYPE_USES_HASH)" "0 < n" "n < 2 ^ 16" "\<not> hash_overflows encap hs"
    using that z unfolding hash_overflows_def product_overflows [symmetric]
    by (auto simp: oo_cp_hwport_hash_def cicp_layer34_hash_def cicp_layer23_hash_def cicp_layer2_hash_def Let_def)
  show "oo_cp_hwport_hash encap hs n = None" if "hash_overflows encap hs"
    using that unfolding hash_overflows_def product_overflows [symmetric] by (simp add: oo_cp_hwport_hash_def cicp_layer34_hash_def Let_def)
qed

section \<open>Properties\<close>

text \<open>
  C35. In a table of fewer than 32768 rows the search by interface number returns the first row of
  that interface if no free row precedes it, and the bad row number otherwise.  In a larger
  table whose first 32768 rows are all in use for other interfaces the 16-bit row number wraps
  and the search reads before the table.
\<close>

theorem llap_search_exact:
  assumes "ifindex \<noteq> CI_IFID_BAD" "llap_max (dim mib) = int n" "n \<le> length (llap mib)"
  shows "(n < 2 ^ 15 \<longrightarrow>
      (\<forall>k. cp_llap_find_row mib ifindex = Some (int k) \<longleftrightarrow>
        k < n \<and> llap_ifindex (llap mib ! k) = ifindex \<and>
        (\<forall>j < k. llap_ifindex (llap mib ! j) \<noteq> ifindex \<and> \<not> cicp_llap_row_is_free (llap mib ! j))) \<and>
      (\<exists>i. cp_llap_find_row mib ifindex = Some i \<and> - 1 \<le> i)) \<and>
    (2 ^ 15 \<le> n \<and> (\<forall>j < 2 ^ 15. llap_ifindex (llap mib ! j) \<noteq> ifindex \<and> \<not> cicp_llap_row_is_free (llap mib ! j)) \<longrightarrow>
      cp_llap_find_row mib ifindex = None)"
proof -
  let ?hit = "\<lambda>r. llap_ifindex r = ifindex"
  have eq: "cp_llap_find_row mib ifindex = find_row_loop ?hit cicp_llap_row_is_free (llap mib) (int n) 0"
    using assms(1,2) by (simp add: cp_llap_find_row_def)
  have z: "sint (0 :: u16) = int 0" by simp
  show ?thesis unfolding eq
  proof (intro conjI impI)
    assume n: "n < 2 ^ 15"
    show "\<forall>k. find_row_loop ?hit cicp_llap_row_is_free (llap mib) (int n) 0 = Some (int k) \<longleftrightarrow>
        k < n \<and> llap_ifindex (llap mib ! k) = ifindex \<and>
        (\<forall>j < k. llap_ifindex (llap mib ! j) \<noteq> ifindex \<and> \<not> cicp_llap_row_is_free (llap mib ! j))"
      unfolding find_row_iff [OF assms(3) n] first_row_def by blast
    show "\<exists>i. find_row_loop ?hit cicp_llap_row_is_free (llap mib) (int n) 0 = Some i \<and> - 1 \<le> i"
      by (rule find_row_total [OF assms(3) n])
  next
    assume full: "2 ^ 15 \<le> n \<and> (\<forall>j < 2 ^ 15. llap_ifindex (llap mib ! j) \<noteq> ifindex \<and> \<not> cicp_llap_row_is_free (llap mib ! j))"
    then have "2 ^ 15 \<le> int n" "2 ^ 15 \<le> length (llap mib)" using assms(3) by simp_all
    then show "find_row_loop ?hit cicp_llap_row_is_free (llap mib) (int n) 0 = None"
      by (rule find_row_wraps [OF _ _ z]) (use full in simp_all)
  qed
qed

definition sample_llap :: "u16 \<Rightarrow> cicp_llap_row_t" where
  "sample_llap i = \<lparr>llap_ifindex = i, llap_mtu = 1500, llap_flags = 1, llap_name = ''eth0'', llap_mac = [0, 1, 2, 3, 4, 5],
     llap_encap = \<lparr>encap_type = 0, vlan_id = 0, link_ifindex = 0\<rparr>, tx_hwports = 1, rx_hwports = 1,
     llap_xdp_prog_id = 0, iif_fwd_table_id = 0\<rparr>"

definition sample_mib :: cp_mibs where
  "sample_mib = \<lparr>dim = \<lparr>hwport_max = 2, llap_max = 3, ipif_max = 0, ip6if_max = 0\<rparr>,
     hwport = [\<lparr>hwport_flags = 0x200, nic_flags = 0, hwport_xdp_prog_id = 0\<rparr>, \<lparr>hwport_flags = 0, nic_flags = 0, hwport_xdp_prog_id = 0\<rparr>],
     llap = [sample_llap 2, sample_llap 3, sample_llap 0], ipif = [], ip6if = []\<rparr>"

theorem llap_search_exact_witness: "cp_llap_find_row sample_mib 3 = Some 1"
proof -
  have "(3 :: u16) \<noteq> CI_IFID_BAD" "llap_max (dim sample_mib) = int 3" "3 \<le> length (llap sample_mib)" "3 < (2 :: nat) ^ 15"
    by (simp_all add: CI_IFID_BAD_def sample_mib_def)
  from llap_search_exact [OF this(1-3)] this(4) have "cp_llap_find_row sample_mib 3 = Some (int 1) \<longleftrightarrow>
      1 < (3 :: nat) \<and> llap_ifindex (llap sample_mib ! 1) = 3 \<and>
      (\<forall>j < 1. llap_ifindex (llap sample_mib ! j) \<noteq> 3 \<and> \<not> cicp_llap_row_is_free (llap sample_mib ! j))" by blast
  then show ?thesis by (simp add: sample_mib_def sample_llap_def cicp_llap_row_is_free_def CI_IFID_BAD_def)
qed

text \<open>Of the ports of a mask that stays inside the table, those whose row is in use remain.\<close>

lemma hwports_in_use:
  assumes "\<forall>n. bit w n \<longrightarrow> n < length (hwport mib)"
  shows "\<exists>r. cp_get_hwports mib w = Some r \<and> (\<forall>n. bit r n \<longleftrightarrow> bit w n \<and> \<not> cicp_hwport_row_is_free (hwport mib ! n))"
  using get_hwports_bits [OF assms, of 0] by (simp add: cp_get_hwports_def)

text \<open>Every mode, for every kind of packet, reaches every port: by the source address or by the source MAC.\<close>

lemma hash_reaches:
  assumes "CI_IS_POW2 (encap AND CICP_LLAP_TYPE_USES_HASH)" "i < n" "n \<le> 16"
  shows "\<exists>hs. hs_flags hs = fl \<and> oo_cp_hwport_hash encap hs n = Some i"
proof (cases "(encap AND CICP_LLAP_TYPE_XMIT_HASH_LAYER34 \<noteq> 0 \<or> encap AND CICP_LLAP_TYPE_XMIT_HASH_LAYER23 \<noteq> 0) \<and>
    fl AND CICP_HASH_STATE_FLAGS_IS_IP \<noteq> 0")
  case True
  let ?hs = "\<lparr>hs_flags = fl, hs_src_mac = replicate 6 0, hs_dst_mac = replicate 6 0,
    src_addr_be32 = CI_BSWAP_BE32 (of_nat i), dst_addr_be32 = 0, src_port_be16 = 0, dst_port_be16 = 0\<rparr>"
  have "i \<in> set [0..<16]" using assms by simp
  then have "unat (of_nat i AND 0xffff :: u32) = i" "unat (ucast (of_nat i :: u32) :: u16) = i" by (auto simp: upt_rec)
  moreover have "unat (of_nat n :: u16) = n" using assms by (simp add: unat_of_nat)
  moreover from this have "(of_nat n :: u16) \<noteq> 0" using assms by (metis not_less_zero unat_0)
  moreover have "CI_BSWAP_BE16 0 = 0" by (simp add: CI_BSWAP_BE16_def bswap16_def word_of_le_def le_of_word_def)
  ultimately have "oo_cp_hwport_hash encap ?hs n = Some i"
    using assms True by (auto simp: oo_cp_hwport_hash_def cicp_layer34_hash_def cicp_layer23_hash_def Let_def CI_BSWAP_BE32_def)
  then show ?thesis by (intro exI [of _ ?hs]) simp
next
  case False
  let ?hs = "\<lparr>hs_flags = fl, hs_src_mac = [0, 0, 0, 0, 0, of_nat i], hs_dst_mac = [0, 0, 0, 0, 0, 0],
    src_addr_be32 = 0, dst_addr_be32 = 0, src_port_be16 = 0, dst_port_be16 = 0\<rparr>"
  have "unat (of_nat i :: byte) = i" using assms by (simp add: unat_of_nat)
  then have "oo_cp_hwport_hash encap ?hs n = Some i"
    using assms False by (auto simp: oo_cp_hwport_hash_def cicp_layer34_hash_def cicp_layer23_hash_def cicp_layer2_hash_def)
  then show ?thesis by (intro exI [of _ ?hs]) simp
qed
text \<open>
  C36. With exactly one hash mode a bond with ports chooses one of its ports, whatever the
  uninitialised array holds, for every packet but those whose port numbers differ so that the
  product of the hash overflows.  In each of the three modes, and whatever the flags of the
  packet, there are packets for which it chooses each of the ports; a bond without ports
  gives the bad port.
\<close>

theorem bond_port_chosen:
  assumes "length garbage = 16" "CI_IS_POW2 (encap AND CICP_LLAP_TYPE_USES_HASH)" "w \<noteq> 0"
  shows "(if hash_overflows encap hs then oo_cp_hwport_bond_get garbage encap w hs = None
      else \<exists>p. oo_cp_hwport_bond_get garbage encap w hs = Some p \<and> bit w (unat p)) \<and>
    oo_cp_hwport_bond_get garbage encap 0 hs = Some CI_HWPORT_ID_BAD \<and>
    (\<forall>fl p. bit w p \<longrightarrow> (\<exists>hs. hs_flags hs = fl \<and> oo_cp_hwport_bond_get garbage encap w hs = Some (of_nat p)))"
proof -
  let ?n = "length (ports_of w)"
  obtain ports where st: "store garbage 0 [CI_HWPORT_ID_BAD] = Some ports" "length ports = 16"
    using assms(1) by (simp add: store_def)
  have n: "?n \<le> 16" by (rule length_ports_of)
  obtain k where k: "lowest w k" using lowest_exists [OF assms(3)] by blast
  then have pos: "0 < ?n" by (simp add: ports_of_step)
  have loop: "bond_ports_loop w ports 0 = Some (map of_nat (ports_of w) @ drop ?n ports, ?n)"
    using bond_ports_loop_ports [of 0 w ports] st(2) n by simp
  have get: "oo_cp_hwport_bond_get garbage e w hs = Some (of_nat (ports_of w ! h))"
    if "oo_cp_hwport_hash e hs ?n = Some h" "h < ?n" for e hs h
    using that st loop assms(3) n by (simp add: oo_cp_hwport_bond_get_def nth_append)
  have member: "bit w (ports_of w ! h) \<and> unat (of_nat (ports_of w ! h) :: byte) = ports_of w ! h" if "h < ?n" for h
  proof -
    have "ports_of w ! h \<in> set (ports_of w)" using that by (rule nth_mem)
    then show ?thesis by (simp add: ports_of_def unat_of_nat)
  qed
  have "\<exists>p. oo_cp_hwport_bond_get garbage encap w hs = Some p \<and> bit w (unat p)" if ok: "\<not> hash_overflows encap hs"
  proof -
    obtain h where h: "oo_cp_hwport_hash encap hs ?n = Some h" using hash_bound(2) [OF assms(2) pos _ ok] n by fastforce
    then have "h < ?n" using hash_bound(1) [OF h] n by simp
    then show ?thesis using get [OF h] member [of h] by simp
  qed
  moreover have "oo_cp_hwport_bond_get garbage encap w hs = None" if "hash_overflows encap hs"
    using hash_bound(3) [OF that] st loop assms(3) by (simp add: oo_cp_hwport_bond_get_def)
  moreover have "\<exists>hs. hs_flags hs = fl \<and> oo_cp_hwport_bond_get garbage encap w hs = Some (of_nat p)" if p: "bit w p" for fl p
  proof -
    have "p < 16" using bit_imp_le_length [OF p] by simp
    then have "p \<in> set (ports_of w)" using p by (simp add: ports_of_def)
    then obtain i where i: "i < ?n" "ports_of w ! i = p" by (auto simp: in_set_conv_nth)
    obtain hs where "hs_flags hs = fl" "oo_cp_hwport_hash encap hs ?n = Some i" using hash_reaches [OF assms(2) i(1) n] by blast
    with get [OF this(2) i(1)] i(2) show ?thesis by blast
  qed
  moreover have "oo_cp_hwport_bond_get garbage encap 0 hs = Some CI_HWPORT_ID_BAD" by (simp add: oo_cp_hwport_bond_get_def)
  ultimately show ?thesis by presburger
qed

theorem bond_port_chosen_witness:
  "\<exists>p. oo_cp_hwport_bond_get (replicate 16 7) CICP_LLAP_TYPE_XMIT_HASH_LAYER34 6
      \<lparr>hs_flags = 3, hs_src_mac = [0, 1, 2, 3, 4, 5], hs_dst_mac = [0, 1, 2, 3, 4, 6], src_addr_be32 = 1, dst_addr_be32 = 2,
       src_port_be16 = 0x5000, dst_port_be16 = 0x5100\<rparr> = Some p \<and> bit (6 :: u16) (unat p)"
proof -
  let ?hs = "\<lparr>hs_flags = 3, hs_src_mac = [0, 1, 2, 3, 4, 5], hs_dst_mac = [0, 1, 2, 3, 4, 6], src_addr_be32 = 1, dst_addr_be32 = 2,
    src_port_be16 = 0x5000, dst_port_be16 = 0x5100\<rparr>"
  have h: "length (replicate 16 (7 :: byte)) = 16" "CI_IS_POW2 (CICP_LLAP_TYPE_XMIT_HASH_LAYER34 AND CICP_LLAP_TYPE_USES_HASH)" "(6 :: u16) \<noteq> 0"
    by (simp_all add: CI_IS_POW2_def CICP_LLAP_TYPE_USES_HASH_def CICP_LLAP_TYPE_XMIT_HASH_LAYER2_def
        CICP_LLAP_TYPE_XMIT_HASH_LAYER34_def CICP_LLAP_TYPE_XMIT_HASH_LAYER23_def)
  have "CI_BSWAP_BE16 0x0100 = 1" by (simp add: CI_BSWAP_BE16_def bswap16_def word_of_le_def le_of_word_def)
  then have "\<not> hash_overflows CICP_LLAP_TYPE_XMIT_HASH_LAYER34 ?hs" by (simp add: hash_overflows_def)
  then show ?thesis using conjunct1 [OF bond_port_chosen [OF h, of ?hs]] by simp
qed

end
