(* ===== verification/CpLookup.thy ===== *)
theory CpLookup
  imports CpMib
begin

text \<open>
  Lookups of a control plane client (\<open>cplane/cplane.h\<close>).  The server keeps two copies of the
  tables and a version whose parity says which of them to read; a lookup reads the version,
  searches that copy and starts again when the version has changed.  What a client sees in one
  pass is a record \<open>cp_pass\<close>: the versions it reads before and after, and the tables as
  its reads find them in between, which for a pass the server interferes with may be any.
  A lookup is a function of the list of passes, and \<open>Waiting\<close> when all of them have to be
  repeated.
\<close>

unbundle bit_operations_syntax

section \<open>The version lock\<close>

record cp_pass =
  ver_start :: u32
  mib0 :: cp_mibs
  mib1 :: cp_mibs
  ver_stop :: u32

datatype 's lookup = Undefined | Waiting | Done 's

text \<open>Local variables of a lookup live outside the lock: a repeated pass starts with the values the last one left.\<close>

definition CP_VERLOCK_START :: "cp_pass \<Rightarrow> cp_mibs" where
  "CP_VERLOCK_START p = (if ver_start p AND 1 = 0 then mib0 p else mib1 p)"

definition CP_VERLOCK_STOP :: "cp_pass \<Rightarrow> bool" where
  "CP_VERLOCK_STOP p \<longleftrightarrow> ver_start p = ver_stop p"

fun verlock :: "('s \<Rightarrow> cp_mibs \<Rightarrow> 's option) \<Rightarrow> 's \<Rightarrow> cp_pass list \<Rightarrow> 's lookup" where
  "verlock body s [] = Waiting"
| "verlock body s (p # ps) =
     (case body s (CP_VERLOCK_START p) of
        None \<Rightarrow> Undefined
      | Some s' \<Rightarrow> if CP_VERLOCK_STOP p then Done s' else verlock body s' ps)"

text \<open>A loop over the rows of a table up to the first free row, whose body says whether to leave it.\<close>

function rows_loop :: "('r \<Rightarrow> bool) \<Rightarrow> ('s \<Rightarrow> 'r \<Rightarrow> ('s \<times> bool) option) \<Rightarrow> 'r list \<Rightarrow> int \<Rightarrow> u16 \<Rightarrow> 's \<Rightarrow> 's option" where
  "rows_loop is_free body rows row_max i s =
     (if sint i < row_max
      then do { r \<leftarrow> row_at rows (sint i);
                if is_free r then Some s
                else do { (s, stop) \<leftarrow> body s r;
                          if stop then Some s else rows_loop is_free body rows row_max (i + 1) s } }
      else Some s)"
  by auto

termination
proof (relation "measure (\<lambda>(is_free, body, rows, row_max, i, s). if 0 \<le> sint i then nat (2 ^ 15 - sint i) else 0)", goal_cases)
  case (2 is_free body rows row_max i s r)
  then have i: "0 \<le> sint i" by (auto simp: row_at_def split: if_splits)
  have "sint i < 2 ^ 15" using sint_lt [of i] by simp
  then show ?case using sint_row_Suc [OF i] i by (cases "sint i < 2 ^ 15 - 1") auto
qed simp

declare rows_loop.simps [simp del]

section \<open>Lookups\<close>

definition oo_cp_llap_params_check :: "cicp_llap_row_t \<Rightarrow> byte \<Rightarrow> u16 \<Rightarrow> byte list option \<Rightarrow> bool" where
  "oo_cp_llap_params_check row port vlan mac \<longleftrightarrow>
     rx_hwports row AND cp_hwport_make_mask port \<noteq> 0 \<and>
     encap_type (llap_encap row) AND CICP_LLAP_TYPE_SLAVE = 0 \<and>
     encap_type (llap_encap row) AND CICP_LLAP_TYPE_VLAN = (if vlan \<noteq> 0 then 1 else 0) \<and>
     (encap_type (llap_encap row) AND CICP_LLAP_TYPE_VLAN = 0 \<or> vlan_id (llap_encap row) = vlan) \<and>
     (case mac of None \<Rightarrow> True | Some m \<Rightarrow> take 6 m = take 6 (llap_mac row))"

definition vlan_to_ifindex_pass :: "byte \<Rightarrow> u16 \<Rightarrow> byte list option \<Rightarrow> u16 \<Rightarrow> cp_mibs \<Rightarrow> u16 option" where
  "vlan_to_ifindex_pass port vlan mac ifindex mib =
     rows_loop (\<lambda>r. False)
       (\<lambda>ifindex r. Some (if oo_cp_llap_params_check r port vlan mac then (llap_ifindex r, True)
                          else (ifindex, cicp_llap_row_is_free r)))
       (llap mib) (llap_max (dim mib)) 0 ifindex"

text \<open>The assertions read the number of ports from the first copy before the first pass.\<close>

definition oo_cp_hwport_vlan_to_ifindex :: "int \<Rightarrow> byte \<Rightarrow> u16 \<Rightarrow> byte list option \<Rightarrow> cp_pass list \<Rightarrow> u16 lookup" where
  "oo_cp_hwport_vlan_to_ifindex ports_max port vlan mac ps =
     (if port = CI_HWPORT_ID_BAD \<or> \<not> int (unat port) < ports_max then Undefined
      else verlock (vlan_to_ifindex_pass port vlan mac) 0 ps)"

text \<open>The callback of the caller gets an interface number and its own data.\<close>

definition find_ipif_pass :: "u32 \<Rightarrow> (u16 \<Rightarrow> 'd \<Rightarrow> bool \<times> 'd) \<Rightarrow> bool \<times> 'd \<Rightarrow> cp_mibs \<Rightarrow> (bool \<times> 'd) option" where
  "find_ipif_pass ip check s mib =
     rows_loop cicp_ipif_row_is_free
       (\<lambda>(rc, d) r. Some (if net_ip r = ip
          then case check (ipif_ifindex r) d of (ok, d) \<Rightarrow> ((rc \<or> ok, d), ok) else ((rc, d), False)))
       (ipif mib) (ipif_max (dim mib)) 0 s"

definition oo_cp_find_ipif_by_ip :: "u32 \<Rightarrow> (u16 \<Rightarrow> 'd \<Rightarrow> bool \<times> 'd) \<Rightarrow> 'd \<Rightarrow> cp_pass list \<Rightarrow> (bool \<times> 'd) lookup" where
  "oo_cp_find_ipif_by_ip ip check d ps = verlock (find_ipif_pass ip check) (False, d) ps"

definition CI_IP6_ADDR_EQ :: "byte list \<Rightarrow> byte list \<Rightarrow> bool" where
  "CI_IP6_ADDR_EQ a b \<longleftrightarrow> take 16 a = take 16 b"

definition find_ip6if_pass :: "byte list \<Rightarrow> (u16 \<Rightarrow> 'd \<Rightarrow> bool \<times> 'd) \<Rightarrow> bool \<times> 'd \<Rightarrow> cp_mibs \<Rightarrow> (bool \<times> 'd) option" where
  "find_ip6if_pass ip check s mib =
     rows_loop cicp_ip6if_row_is_free
       (\<lambda>(rc, d) r. Some (if CI_IP6_ADDR_EQ (net_ip6 r) ip
          then case check (ip6if_ifindex r) d of (ok, d) \<Rightarrow> ((rc \<or> ok, d), ok) else ((rc, d), False)))
       (ip6if mib) (ip6if_max (dim mib)) 0 s"

definition oo_cp_find_ipif_by_ip6 :: "byte list \<Rightarrow> (u16 \<Rightarrow> 'd \<Rightarrow> bool \<times> 'd) \<Rightarrow> 'd \<Rightarrow> cp_pass list \<Rightarrow> (bool \<times> 'd) lookup" where
  "oo_cp_find_ipif_by_ip6 ip check d ps = verlock (find_ip6if_pass ip check) (False, d) ps"

text \<open>The body the two searches for a link row share: no link row, go on; else ask the callback.\<close>

definition llap_check :: "cp_mibs \<Rightarrow> u16 \<Rightarrow> (cicp_llap_row_t \<Rightarrow> 'd \<Rightarrow> bool \<times> 'd) \<Rightarrow> bool \<times> 'd \<Rightarrow> ((bool \<times> 'd) \<times> bool) option" where
  "llap_check mib ifindex check s =
     do { i \<leftarrow> cp_llap_find_row mib ifindex;
          if i = CICP_ROWID_BAD then Some (s, False)
          else do { row \<leftarrow> row_at (llap mib) i;
                    case check row (snd s) of (ok, d) \<Rightarrow> Some ((fst s \<or> ok, d), ok) } }"

definition find_llap_by_ip_pass :: "u32 \<Rightarrow> (cicp_llap_row_t \<Rightarrow> 'd \<Rightarrow> bool \<times> 'd) \<Rightarrow> bool \<times> 'd \<Rightarrow> cp_mibs \<Rightarrow> (bool \<times> 'd) option" where
  "find_llap_by_ip_pass ip check s mib =
     rows_loop cicp_ipif_row_is_free
       (\<lambda>s r. if net_ip r = ip then llap_check mib (ipif_ifindex r) check s else Some (s, False))
       (ipif mib) (ipif_max (dim mib)) 0 s"

definition oo_cp_find_llap_by_ip :: "u32 \<Rightarrow> (cicp_llap_row_t \<Rightarrow> 'd \<Rightarrow> bool \<times> 'd) \<Rightarrow> 'd \<Rightarrow> cp_pass list \<Rightarrow> (bool \<times> 'd) lookup" where
  "oo_cp_find_llap_by_ip ip check d ps = verlock (find_llap_by_ip_pass ip check) (False, d) ps"

definition find_llap_by_ip6_pass :: "byte list \<Rightarrow> (cicp_llap_row_t \<Rightarrow> 'd \<Rightarrow> bool \<times> 'd) \<Rightarrow> bool \<times> 'd \<Rightarrow> cp_mibs \<Rightarrow> (bool \<times> 'd) option" where
  "find_llap_by_ip6_pass ip check s mib =
     rows_loop cicp_ip6if_row_is_free
       (\<lambda>s r. if CI_IP6_ADDR_EQ (net_ip6 r) ip then llap_check mib (ip6if_ifindex r) check s else Some (s, False))
       (ip6if mib) (ip6if_max (dim mib)) 0 s"

definition oo_cp_find_llap_by_ip6 :: "byte list \<Rightarrow> (cicp_llap_row_t \<Rightarrow> 'd \<Rightarrow> bool \<times> 'd) \<Rightarrow> 'd \<Rightarrow> cp_pass list \<Rightarrow> (bool \<times> 'd) lookup" where
  "oo_cp_find_llap_by_ip6 ip check d ps = verlock (find_llap_by_ip6_pass ip check) (False, d) ps"

text \<open>Out parameters of the search by interface: absent when the caller passes a null pointer.\<close>

record llap_out =
  out_mtu :: "u16 option"
  out_hwports :: "u16 option"
  out_rx_hwports :: "u16 option"
  out_mac :: "byte list option"
  out_encap :: "cicp_encap_t option"

definition set_out :: "'a option \<Rightarrow> 'a \<Rightarrow> 'a option" where
  "set_out p v = map_option (\<lambda>_. v) p"

definition fill_out :: "cicp_llap_row_t \<Rightarrow> llap_out \<Rightarrow> llap_out" where
  "fill_out row out =
     \<lparr>out_mtu = set_out (out_mtu out) (llap_mtu row), out_hwports = set_out (out_hwports out) (tx_hwports row),
      out_rx_hwports = set_out (out_rx_hwports out) (rx_hwports row), out_mac = set_out (out_mac out) (llap_mac row),
      out_encap = set_out (out_encap out) (llap_encap row)\<rparr>"

abbreviation (input) ENOENT :: int where "ENOENT \<equiv> 2"

definition find_llap_pass :: "u16 \<Rightarrow> int \<times> llap_out \<Rightarrow> cp_mibs \<Rightarrow> (int \<times> llap_out) option" where
  "find_llap_pass ifindex s mib =
     do { i \<leftarrow> cp_llap_find_row mib ifindex;
          if i = CICP_ROWID_BAD then Some (- ENOENT, snd s)
          else do { row \<leftarrow> row_at (llap mib) i; Some (fst s, fill_out row (snd s)) } }"

definition oo_cp_find_llap :: "u16 \<Rightarrow> llap_out \<Rightarrow> cp_pass list \<Rightarrow> (int \<times> llap_out) lookup" where
  "oo_cp_find_llap ifindex out ps = verlock (find_llap_pass ifindex) (0, out) ps"

definition ifindex_to_ip_pass :: "u16 \<Rightarrow> u32 \<Rightarrow> cp_mibs \<Rightarrow> u32 option" where
  "ifindex_to_ip_pass ifindex ip mib =
     rows_loop cicp_ipif_row_is_free
       (\<lambda>ip r. Some (if ipif_ifindex r = ifindex then (net_ip r, True) else (ip, False)))
       (ipif mib) (ipif_max (dim mib)) 0 ip"

definition oo_cp_ifindex_to_ip :: "u16 \<Rightarrow> cp_pass list \<Rightarrow> u32 lookup" where
  "oo_cp_ifindex_to_ip ifindex ps = verlock (ifindex_to_ip_pass ifindex) 0 ps"

section \<open>Loops over rows\<close>

text \<open>The size a table announces is within the rows it has and within the row numbers.\<close>

definition size_ok :: "int \<Rightarrow> 'r list \<Rightarrow> bool" where
  "size_ok row_max rows \<longleftrightarrow> 0 \<le> row_max \<and> row_max < 2 ^ 15 \<and> row_max \<le> int (length rows)"

definition tables_ok :: "cp_mibs \<Rightarrow> bool" where
  "tables_ok m \<longleftrightarrow> size_ok (llap_max (dim m)) (llap m) \<and> size_ok (ipif_max (dim m)) (ipif m) \<and>
     size_ok (ip6if_max (dim m)) (ip6if m)"

fun scan :: "('r \<Rightarrow> bool) \<Rightarrow> ('s \<Rightarrow> 'r \<Rightarrow> ('s \<times> bool) option) \<Rightarrow> 'r list \<Rightarrow> 's \<Rightarrow> 's option" where
  "scan is_free body [] s = Some s"
| "scan is_free body (r # rs) s =
     (if is_free r then Some s
      else do { (s, stop) \<leftarrow> body s r; if stop then Some s else scan is_free body rs s })"

lemma rows_loop_scan:
  fixes i :: u16
  assumes "n < 2 ^ 15" "n \<le> length rows" "sint i = int k" "k \<le> n"
  shows "rows_loop is_free body rows (int n) i s = scan is_free body (drop k (take n rows)) s"
  using assms
proof (induction "n - k" arbitrary: k i s)
  case 0
  then show ?case by (simp add: rows_loop.simps)
next
  case (Suc d)
  then have k: "k < n" "k < length rows" by simp_all
  have s: "sint (i + 1) = int (Suc k)" using sint_row_Suc(1) [of i] Suc.prems k by simp
  have "d = n - Suc k" using Suc.hyps(2) by simp
  from Suc.hyps(1) [OF this Suc.prems(1,2) s] k
  have IH: "rows_loop is_free body rows (int n) (i + 1) s = scan is_free body (drop (Suc k) (take n rows)) s" for s by simp
  have "drop k (take n rows) = rows ! k # drop (Suc k) (take n rows)" using k by (simp add: Cons_nth_drop_Suc [symmetric])
  then show ?case using Suc.prems(3) k
    by (subst rows_loop.simps) (simp add: row_at_def IH cong: if_cong)
qed

lemma rows_loop_rows:
  assumes "size_ok row_max rows"
  shows "rows_loop is_free body rows row_max 0 s = scan is_free body (take (nat row_max) rows) s"
proof -
  from assms obtain n where "row_max = int n" "n < 2 ^ 15" "n \<le> length rows"
    by (auto simp: size_ok_def elim!: nonneg_int_cases)
  then show ?thesis using rows_loop_scan [of n rows 0 0 is_free body s] by simp
qed

lemma scan_find:
  "scan is_free (\<lambda>s r. Some (if P r then (f r, True) else (s, False))) rows s =
     Some (case find P (takeWhile (\<lambda>r. \<not> is_free r) rows) of None \<Rightarrow> s | Some r \<Rightarrow> f r)"
  by (induction rows) auto

text \<open>What a consistent copy of the tables answers.\<close>

definition ip_of :: "u16 \<Rightarrow> cp_mibs \<Rightarrow> u32 option" where
  "ip_of ifindex m = map_option net_ip
     (find (\<lambda>r. ipif_ifindex r = ifindex)
       (takeWhile (\<lambda>r. \<not> cicp_ipif_row_is_free r) (take (nat (ipif_max (dim m))) (ipif m))))"

definition llap_of :: "u16 \<Rightarrow> cp_mibs \<Rightarrow> cicp_llap_row_t option" where
  "llap_of ifindex m =
     find (\<lambda>r. llap_ifindex r = ifindex)
       (takeWhile (\<lambda>r. \<not> cicp_llap_row_is_free r) (take (nat (llap_max (dim m))) (llap m)))"

definition port_ifindex_of :: "byte \<Rightarrow> u16 \<Rightarrow> byte list option \<Rightarrow> cp_mibs \<Rightarrow> u16 option" where
  "port_ifindex_of port vlan mac m = map_option llap_ifindex
     (find (\<lambda>r. oo_cp_llap_params_check r port vlan mac)
       (take (Suc (length (takeWhile (\<lambda>r. \<not> cicp_llap_row_is_free r) (take (nat (llap_max (dim m))) (llap m)))))
         (take (nat (llap_max (dim m))) (llap m))))"

lemma find_hit_nth:
  assumes "k < n" "n \<le> length rows" "first_row hit is_free rows k" "\<And>r. hit r \<Longrightarrow> \<not> is_free r"
  shows "find hit (takeWhile (\<lambda>r. \<not> is_free r) (take n rows)) = Some (rows ! k)"
proof -
  let ?t = "takeWhile (\<lambda>r. \<not> is_free r) (take n rows)"
  have free: "\<not> is_free (rows ! j)" if "j \<le> k" for j
    using that assms(3,4) by (cases "j = k") (auto simp: first_row_def)
  have k: "k < length ?t"
  proof (rule ccontr)
    assume l: "\<not> k < length ?t"
    then have "length ?t < length (take n rows)" using assms(1,2) by simp
    from nth_length_takeWhile [OF this] have "is_free (rows ! length ?t)" using l assms(1,2) by simp
    then show False using free [of "length ?t"] l by simp
  qed
  have nth: "?t ! j = rows ! j" if "j \<le> k" for j using that k assms(1,2) by (simp add: takeWhile_nth)
  show ?thesis unfolding find_Some_iff using k nth assms(3) by (intro exI [of _ k]) (auto simp: first_row_def)
qed

lemma find_miss:
  assumes "n \<le> length rows" "\<forall>k < n. \<not> first_row hit is_free rows k"
  shows "find hit (takeWhile (\<lambda>r. \<not> is_free r) (take n rows)) = None"
proof (rule ccontr)
  let ?t = "takeWhile (\<lambda>r. \<not> is_free r) (take n rows)"
  assume "find hit ?t \<noteq> None"
  then obtain x k where k: "k < length ?t" "hit (?t ! k)" "\<forall>j < k. \<not> hit (?t ! j)" by (auto simp: find_Some_iff)
  have kn: "k < n" using k(1) length_takeWhile_le [of "\<lambda>r. \<not> is_free r" "take n rows"] by simp
  have nth: "?t ! j = rows ! j \<and> \<not> is_free (rows ! j)" if "j \<le> k" for j
  proof -
    have j: "j < length ?t" using that k(1) by simp
    then have "?t ! j = rows ! j" using that kn by (simp add: takeWhile_nth)
    moreover have "?t ! j \<in> set ?t" using j by (rule nth_mem)
    then have "\<not> is_free (?t ! j)" by (auto dest: set_takeWhileD)
    ultimately show ?thesis by simp
  qed
  have "first_row hit is_free rows k" using k nth by (auto simp: first_row_def)
  then show False using assms(2) kn by blast
qed

lemma llap_find_row_of:
  assumes "tables_ok m" "ifindex \<noteq> CI_IFID_BAD"
  shows "\<exists>i. cp_llap_find_row m ifindex = Some i \<and>
    (if i = CICP_ROWID_BAD then llap_of ifindex m = None else row_at (llap m) i = llap_of ifindex m \<and> llap_of ifindex m \<noteq> None)"
proof -
  let ?n = "nat (llap_max (dim m))" and ?hit = "\<lambda>r. llap_ifindex r = ifindex"
  have n: "?n \<le> length (llap m)" "?n < 2 ^ 15" "int ?n = llap_max (dim m)"
    using assms(1) by (auto simp: tables_ok_def size_ok_def)
  have hit: "?hit r \<Longrightarrow> \<not> cicp_llap_row_is_free r" for r using assms(2) by (auto simp: cicp_llap_row_is_free_def)
  have eq: "cp_llap_find_row m ifindex = find_row_loop ?hit cicp_llap_row_is_free (llap m) (int ?n) 0"
    using assms(2) n(3) by (simp add: cp_llap_find_row_def)
  have z: "sint (0 :: u16) = int 0" by simp
  consider k where "k < ?n" "first_row ?hit cicp_llap_row_is_free (llap m) k" "cp_llap_find_row m ifindex = Some (int k)"
    | "\<forall>k < ?n. \<not> first_row ?hit cicp_llap_row_is_free (llap m) k" "cp_llap_find_row m ifindex = Some CICP_ROWID_BAD"
    unfolding eq using find_row_found [OF n(1,2) z, of ?hit cicp_llap_row_is_free] by auto
  then show ?thesis
  proof cases
    case 1
    have "llap_of ifindex m = Some (llap m ! k)"
      unfolding llap_of_def by (rule find_hit_nth [OF 1(1) n(1) 1(2) hit])
    then show ?thesis using 1 n(1) by (simp add: CICP_ROWID_BAD_def row_at_def)
  next
    case 2
    have "llap_of ifindex m = None" unfolding llap_of_def by (rule find_miss [OF n(1) 2(1)])
    then show ?thesis using 2 by simp
  qed
qed

lemma scan_port:
  "scan (\<lambda>r. False) (\<lambda>s r. Some (if P r then (f r, True) else (s, is_free r))) rows s =
     Some (case find P (take (Suc (length (takeWhile (\<lambda>r. \<not> is_free r) rows))) rows) of None \<Rightarrow> s | Some r \<Rightarrow> f r)"
  by (induction rows) auto

section \<open>Lookups under the version lock\<close>

text \<open>
  The contract of a lookup: on tables it can search, a pass changes the local variables as the
  update function says.  The lock then runs the update over the passes up to the first one the
  server did not disturb.
\<close>

locale locked_lookup =
  fixes body :: "'s \<Rightarrow> cp_mibs \<Rightarrow> 's option" and upd :: "'s \<Rightarrow> cp_mibs \<Rightarrow> 's" and good :: "cp_mibs \<Rightarrow> bool"
  assumes body_upd: "good m \<Longrightarrow> body s m = Some (upd s m)"
begin

lemma undisturbed_run:
  assumes "\<forall>q \<in> set qs. good (CP_VERLOCK_START q) \<and> \<not> CP_VERLOCK_STOP q" "good (CP_VERLOCK_START p)" "CP_VERLOCK_STOP p"
  shows "verlock body s (qs @ p # ps) = Done (foldl upd s (map CP_VERLOCK_START (qs @ [p])))"
  using assms(1) by (induction qs arbitrary: s) (simp_all add: body_upd assms(2,3))

lemma returns_iff:
  assumes "\<forall>q \<in> set ps. good (CP_VERLOCK_START q)"
  shows "(\<exists>s'. verlock body s ps = Done s') \<longleftrightarrow> (\<exists>p \<in> set ps. CP_VERLOCK_STOP p)"
  using assms by (induction ps arbitrary: s) (auto simp: body_upd)

end

interpretation ip_lookup: locked_lookup "ifindex_to_ip_pass ifindex"
    "\<lambda>ip m. case ip_of ifindex m of None \<Rightarrow> ip | Some x \<Rightarrow> x" tables_ok for ifindex
  by unfold_locales
    (simp add: ifindex_to_ip_pass_def tables_ok_def rows_loop_rows scan_find ip_of_def option.case_eq_if option.map_sel)

interpretation port_lookup: locked_lookup "vlan_to_ifindex_pass port vlan mac"
    "\<lambda>i m. case port_ifindex_of port vlan mac m of None \<Rightarrow> i | Some x \<Rightarrow> x" tables_ok for port vlan mac
  by unfold_locales
    (simp add: vlan_to_ifindex_pass_def tables_ok_def rows_loop_rows scan_port port_ifindex_of_def option.case_eq_if option.map_sel)

lemma find_llap_pass_upd:
  assumes "tables_ok m \<and> ifindex \<noteq> CI_IFID_BAD"
  shows "find_llap_pass ifindex s m =
    Some (case llap_of ifindex m of None \<Rightarrow> (- ENOENT, snd s) | Some row \<Rightarrow> (fst s, fill_out row (snd s)))"
  using llap_find_row_of [of m ifindex] assms by (auto simp: find_llap_pass_def split: if_splits)

interpretation llap_lookup: locked_lookup "find_llap_pass ifindex"
    "\<lambda>s m. case llap_of ifindex m of None \<Rightarrow> (- ENOENT, snd s) | Some row \<Rightarrow> (fst s, fill_out row (snd s))"
    "\<lambda>m. tables_ok m \<and> ifindex \<noteq> CI_IFID_BAD" for ifindex
  by unfold_locales (rule find_llap_pass_upd)

lemma foldl_llap:
  "fst (foldl (\<lambda>s m. case f m of None \<Rightarrow> (e, snd s) | Some r \<Rightarrow> (fst s, g r (snd s))) s ms) =
     (if \<exists>m \<in> set ms. f m = None then e else fst s)"
  "snd (foldl (\<lambda>s m. case f m of None \<Rightarrow> (e, snd s) | Some r \<Rightarrow> (fst s, g r (snd s))) s ms) =
     foldl (\<lambda>out m. case f m of None \<Rightarrow> out | Some r \<Rightarrow> g r out) (snd s) ms"
  by (induction ms arbitrary: s rule: rev_induct) (auto split: option.splits)

lemma fill_out_fill_out [simp]: "fill_out r (fill_out r' out) = fill_out r out"
  by (simp add: fill_out_def set_out_def option.map_comp comp_def)

lemma foldl_fill_out: "fill_out r (foldl (\<lambda>out m. case f m of None \<Rightarrow> out | Some r \<Rightarrow> fill_out r out) out ms) = fill_out r out"
  by (induction ms rule: rev_induct) (auto split: option.splits)

text \<open>What earlier passes leave behind: the answer of the last one that had any.\<close>

definition stale :: "(cp_mibs \<Rightarrow> 'a option) \<Rightarrow> 'a \<Rightarrow> cp_pass list \<Rightarrow> 'a" where
  "stale answer x qs = (case find (\<lambda>q. answer (CP_VERLOCK_START q) \<noteq> None) (rev qs) of
     None \<Rightarrow> x | Some q \<Rightarrow> the (answer (CP_VERLOCK_START q)))"

lemma foldl_passes:
  "foldl (\<lambda>x m. case answer m of None \<Rightarrow> x | Some y \<Rightarrow> y) x (map CP_VERLOCK_START (qs @ [p])) =
     (case answer (CP_VERLOCK_START p) of Some y \<Rightarrow> y | None \<Rightarrow> stale answer x qs)"
proof -
  have "foldl (\<lambda>x m. case answer m of None \<Rightarrow> x | Some y \<Rightarrow> y) x (map CP_VERLOCK_START qs) = stale answer x qs" for qs
    by (induction qs rule: rev_induct) (auto simp: stale_def split: option.splits)
  then show ?thesis by simp
qed

section \<open>Properties\<close>

text \<open>
  C39. The address of an interface and the interface of a port are those of the pass the server
  did not disturb, if that pass finds one.  Otherwise they are what the last disturbed pass
  found, although no consistent copy of the tables need hold it, since the local variable is not
  reset when a pass is repeated; they are zero only if no pass found anything.
\<close>

theorem ifindex_ip_retry:
  assumes "\<forall>q \<in> set (qs @ [p]). tables_ok (CP_VERLOCK_START q)"
    "\<forall>q \<in> set qs. \<not> CP_VERLOCK_STOP q" "CP_VERLOCK_STOP p"
  shows "oo_cp_ifindex_to_ip ifindex (qs @ p # ps) =
      Done (case ip_of ifindex (CP_VERLOCK_START p) of Some ip \<Rightarrow> ip | None \<Rightarrow> stale (ip_of ifindex) 0 qs) \<and>
    (port \<noteq> CI_HWPORT_ID_BAD \<and> int (unat port) < ports_max \<longrightarrow>
      oo_cp_hwport_vlan_to_ifindex ports_max port vlan mac (qs @ p # ps) =
      Done (case port_ifindex_of port vlan mac (CP_VERLOCK_START p) of
        Some i \<Rightarrow> i | None \<Rightarrow> stale (port_ifindex_of port vlan mac) 0 qs))"
proof -
  have h: "\<forall>q \<in> set qs. tables_ok (CP_VERLOCK_START q) \<and> \<not> CP_VERLOCK_STOP q" "tables_ok (CP_VERLOCK_START p)"
    using assms by simp_all
  show ?thesis
    unfolding oo_cp_ifindex_to_ip_def oo_cp_hwport_vlan_to_ifindex_def
      ip_lookup.undisturbed_run [OF h assms(3)] port_lookup.undisturbed_run [OF h assms(3)] foldl_passes by simp
qed

definition sample_tables :: "cicp_ipif_row_t list \<Rightarrow> cicp_llap_row_t list \<Rightarrow> cp_mibs" where
  "sample_tables ips links = \<lparr>dim = \<lparr>hwport_max = 2, llap_max = int (length links), ipif_max = int (length ips), ip6if_max = 0\<rparr>,
     hwport = [], llap = links, ipif = ips, ip6if = []\<rparr>"

definition sample_ipif :: cicp_ipif_row_t where
  "sample_ipif = \<lparr>net_ip = 0x0100007f, net_ipset = 8, ipif_ifindex = 3, bcast_ip = 0, ipif_scope = 0\<rparr>"

definition torn_pass :: "cp_mibs \<Rightarrow> cp_pass" where
  "torn_pass m = \<lparr>ver_start = 4, mib0 = m, mib1 = m, ver_stop = 5\<rparr>"

definition quiet_pass :: "cp_mibs \<Rightarrow> cp_pass" where
  "quiet_pass m = \<lparr>ver_start = 5, mib0 = m, mib1 = m, ver_stop = 5\<rparr>"

lemma sample_passes:
  "CP_VERLOCK_START (torn_pass m) = m" "CP_VERLOCK_START (quiet_pass m) = m" "\<not> CP_VERLOCK_STOP (torn_pass m)" "CP_VERLOCK_STOP (quiet_pass m)"
  by (simp_all add: CP_VERLOCK_START_def CP_VERLOCK_STOP_def torn_pass_def quiet_pass_def)

lemma sample_tables_ok: "length ips < 2 ^ 15 \<Longrightarrow> length links < 2 ^ 15 \<Longrightarrow> tables_ok (sample_tables ips links)"
  by (simp add: tables_ok_def size_ok_def sample_tables_def)

theorem ifindex_ip_retry_witness:
  "oo_cp_ifindex_to_ip 3 [torn_pass (sample_tables [sample_ipif] []), quiet_pass (sample_tables [] [])] = Done 0x0100007f"
proof -
  let ?q = "torn_pass (sample_tables [sample_ipif] [])" and ?p = "quiet_pass (sample_tables [] [])"
  have "\<forall>q \<in> set ([?q] @ [?p]). tables_ok (CP_VERLOCK_START q)" "\<forall>q \<in> set [?q]. \<not> CP_VERLOCK_STOP q" "CP_VERLOCK_STOP ?p"
    by (simp_all add: sample_passes sample_tables_ok)
  from conjunct1 [OF ifindex_ip_retry [OF this, of 3 "[]"]] show ?thesis
    by (simp add: stale_def ip_of_def sample_passes sample_tables_def sample_ipif_def cicp_ipif_row_is_free_def CI_IP_PREFIXLEN_BAD_def)
qed

text \<open>
  C40. The search for an interface succeeds only if every pass has found it: once a disturbed pass
  has missed it, the search reports that there is no such interface even when the undisturbed
  pass finds the row and the out parameters hold its data.
\<close>

theorem find_llap_retry:
  assumes "ifindex \<noteq> CI_IFID_BAD" "\<forall>q \<in> set (qs @ [p]). tables_ok (CP_VERLOCK_START q)"
    "\<forall>q \<in> set qs. \<not> CP_VERLOCK_STOP q" "CP_VERLOCK_STOP p"
  shows "\<exists>out'. oo_cp_find_llap ifindex out (qs @ p # ps) =
      Done (if \<exists>q \<in> set (qs @ [p]). llap_of ifindex (CP_VERLOCK_START q) = None then - ENOENT else 0, out') \<and>
    (\<forall>row. llap_of ifindex (CP_VERLOCK_START p) = Some row \<longrightarrow> out' = fill_out row out)"
proof -
  let ?ms = "map CP_VERLOCK_START (qs @ [p])"
  let ?upd = "\<lambda>s m. case llap_of ifindex m of None \<Rightarrow> (- ENOENT, snd s) | Some row \<Rightarrow> (fst s, fill_out row (snd s))"
  have h: "\<forall>q \<in> set qs. (tables_ok (CP_VERLOCK_START q) \<and> ifindex \<noteq> CI_IFID_BAD) \<and> \<not> CP_VERLOCK_STOP q"
    "tables_ok (CP_VERLOCK_START p) \<and> ifindex \<noteq> CI_IFID_BAD" using assms by simp_all
  let ?out = "foldl (\<lambda>out m. case llap_of ifindex m of None \<Rightarrow> out | Some r \<Rightarrow> fill_out r out) out ?ms"
  have run: "oo_cp_find_llap ifindex out (qs @ p # ps) = Done (foldl ?upd (0, out) ?ms)"
    unfolding oo_cp_find_llap_def by (rule llap_lookup.undisturbed_run [OF h assms(4)])
  have "foldl ?upd (0, out) ?ms = (if \<exists>q \<in> set (qs @ [p]). llap_of ifindex (CP_VERLOCK_START q) = None then - ENOENT else 0, ?out)"
    by (rule prod_eqI) (simp_all only: foldl_llap fst_conv snd_conv set_map bex_simps)
  moreover have "?out = fill_out row out" if "llap_of ifindex (CP_VERLOCK_START p) = Some row" for row
    using that by (simp add: foldl_fill_out)
  ultimately show ?thesis using run by auto
qed

theorem find_llap_retry_witness:
  "oo_cp_find_llap 3 \<lparr>out_mtu = Some 0, out_hwports = None, out_rx_hwports = None, out_mac = None, out_encap = None\<rparr>
     [torn_pass (sample_tables [] []), quiet_pass (sample_tables [] [sample_llap 3])] =
   Done (- ENOENT, \<lparr>out_mtu = Some 1500, out_hwports = None, out_rx_hwports = None, out_mac = None, out_encap = None\<rparr>)"
proof -
  let ?q = "torn_pass (sample_tables [] [])" and ?p = "quiet_pass (sample_tables [] [sample_llap 3])"
  let ?out = "\<lparr>out_mtu = Some 0, out_hwports = None, out_rx_hwports = None, out_mac = None, out_encap = None\<rparr>"
  have "(3 :: u16) \<noteq> CI_IFID_BAD" "\<forall>q \<in> set ([?q] @ [?p]). tables_ok (CP_VERLOCK_START q)"
    "\<forall>q \<in> set [?q]. \<not> CP_VERLOCK_STOP q" "CP_VERLOCK_STOP ?p"
    by (simp_all add: sample_passes sample_tables_ok CI_IFID_BAD_def)
  from find_llap_retry [OF this, of ?out "[]"]
  obtain out' where out': "oo_cp_find_llap 3 ?out ([?q] @ ?p # []) =
      Done (if \<exists>q \<in> set ([?q] @ [?p]). llap_of 3 (CP_VERLOCK_START q) = None then - ENOENT else 0, out')"
    "\<forall>row. llap_of 3 (CP_VERLOCK_START ?p) = Some row \<longrightarrow> out' = fill_out row ?out" by blast
  have "llap_of 3 (CP_VERLOCK_START ?p) = Some (sample_llap 3)" "llap_of 3 (CP_VERLOCK_START ?q) = None"
    by (simp_all add: sample_passes llap_of_def sample_tables_def sample_llap_def cicp_llap_row_is_free_def CI_IFID_BAD_def)
  with out' show ?thesis by (simp add: fill_out_def set_out_def sample_llap_def)
qed

end
