(* ===== verification/CpPrefix.thy ===== *)
theory CpPrefix
  imports CiHash
begin

text \<open>
  Route keys of the control plane (\<open>cplane/mib.h\<close>, \<open>cplane/hash.h\<close>, \<open>ci/net/ipvx_sh.h\<close>):
  prefix matches of addresses of both families, the 192-bit sets of prefix lengths, the
  weights of multipath routes, the match of a row of the forward table with a request, and
  the hashes a request is looked up with.  A failed assertion and an undefined shift are
  \<^term>\<open>None\<close>.
\<close>

unbundle bit_operations_syntax

section \<open>Prefixes of addresses\<close>

definition bswap64 :: "u64 \<Rightarrow> u64" where
  "bswap64 w = word_of_le (rev (le_of_word 8 w))"

definition CI_BSWAP_BE64 :: "u64 \<Rightarrow> u64" where "CI_BSWAP_BE64 v = bswap64 v"

text \<open>
  The shifted one is an \<open>int\<close>: for a prefix of one bit neither it nor its predecessor is
  representable, and longer prefixes than 32 shift by a negative amount.
\<close>

definition cp_prefixlen2bitmask :: "byte \<Rightarrow> u32 option" where
  "cp_prefixlen2bitmask len =
     (if len = 0 then Some (CI_BSWAP_BE32 (NOT 0xffffffff))
      else if len = 1 \<or> 32 < len then None
      else Some (CI_BSWAP_BE32 (NOT (push_bit (32 - unat len) 1 - 1))))"

definition cp_ip_prefix_match :: "u32 \<Rightarrow> u32 \<Rightarrow> byte \<Rightarrow> bool option" where
  "cp_ip_prefix_match ip1 ip2 len = map_option (\<lambda>m. (ip1 XOR ip2) AND m = 0) (cp_prefixlen2bitmask len)"

definition addr_set_u64 :: "ci_addr_t \<Rightarrow> nat \<Rightarrow> u64 \<Rightarrow> ci_addr_t option" where
  "addr_set_u64 m i v =
     (if i = 0 then Some (m\<lparr>u64_0 := v\<rparr>) else if i = 1 then Some (m\<lparr>u64_1 := v\<rparr>) else None)"

function pfx2mask_loop :: "ci_addr_t \<Rightarrow> nat \<Rightarrow> byte \<Rightarrow> (ci_addr_t \<times> nat \<times> byte) option" where
  "pfx2mask_loop m i pfx =
     (if 64 < pfx
      then do { m \<leftarrow> addr_set_u64 m i 0xffffffffffffffff; pfx2mask_loop m (i + 1) (pfx - 64) }
      else Some (m, i, pfx))"
  by auto

termination
  by (relation "measure (\<lambda>(m, i, pfx). unat pfx)") (auto simp: unat_sub word_le_nat_alt word_less_nat_alt)

declare pfx2mask_loop.simps [simp del]

definition cp_ip6_pfx2mask :: "byte \<Rightarrow> ci_addr_t option" where
  "cp_ip6_pfx2mask pfx =
     (if pfx \<le> 128
      then do {
        (m, i, pfx) \<leftarrow> pfx2mask_loop addr_any 0 pfx;
        (if pfx \<noteq> 0 then addr_set_u64 m i (CI_BSWAP_BE64 (push_bit (64 - unat pfx) 0xffffffffffffffff)) else Some m) }
      else None)"

definition cp_addr_apply_pfx :: "ci_addr_t \<Rightarrow> byte \<Rightarrow> ci_addr_t option" where
  "cp_addr_apply_pfx a pfx =
     map_option (\<lambda>m. \<lparr>u64_0 = u64_0 a AND u64_0 m, u64_1 = u64_1 a AND u64_1 m\<rparr>) (cp_ip6_pfx2mask pfx)"

definition ci_ipx_addr_sh_masked_cmp :: "ci_addr_t \<Rightarrow> ci_addr_t \<Rightarrow> ci_addr_t \<Rightarrow> u64" where
  "ci_ipx_addr_sh_masked_cmp a b m =
     ((u64_0 a XOR u64_0 b) AND u64_0 m) OR ((u64_1 a XOR u64_1 b) AND u64_1 m)"

definition ci_ipx_addr_sh_masked_eq :: "ci_addr_t \<Rightarrow> ci_addr_t \<Rightarrow> ci_addr_t \<Rightarrow> bool" where
  "ci_ipx_addr_sh_masked_eq a b m \<longleftrightarrow> ci_ipx_addr_sh_masked_cmp a b m = 0"

definition cp_ip6_pfx_match :: "ci_addr_t \<Rightarrow> ci_addr_t \<Rightarrow> byte \<Rightarrow> bool option" where
  "cp_ip6_pfx_match a b pfx = map_option (ci_ipx_addr_sh_masked_eq a b) (cp_ip6_pfx2mask pfx)"

section \<open>Sets of prefix lengths\<close>

text \<open>Arrays of three 64-bit words, the most significant first.\<close>

type_synonym ci_ip6_pfx_t = "u64 list"

definition bw_not_192 :: "ci_ip6_pfx_t \<Rightarrow> ci_ip6_pfx_t" where
  "bw_not_192 x = [NOT (x ! 0), NOT (x ! 1), NOT (x ! 2)]"

definition bw_and_192 :: "ci_ip6_pfx_t \<Rightarrow> ci_ip6_pfx_t \<Rightarrow> ci_ip6_pfx_t" where
  "bw_and_192 x y = [x ! 0 AND y ! 0, x ! 1 AND y ! 1, x ! 2 AND y ! 2]"

definition bw_or_192 :: "ci_ip6_pfx_t \<Rightarrow> ci_ip6_pfx_t \<Rightarrow> ci_ip6_pfx_t" where
  "bw_or_192 x y = [x ! 0 OR y ! 0, x ! 1 OR y ! 1, x ! 2 OR y ! 2]"

definition bw_shift_bit_192 :: "byte \<Rightarrow> ci_ip6_pfx_t option" where
  "bw_shift_bit_192 shift =
     (if unat shift div 64 \<le> 2 then Some ([0, 0, 0][2 - unat shift div 64 := push_bit (unat shift mod 64) 1]) else None)"

text \<open>The number of leading zeros of a non-zero word, the compiler's \<open>__builtin_clzll\<close>.\<close>

definition clzll :: "u64 \<Rightarrow> nat" where
  "clzll v = length (takeWhile (\<lambda>i. \<not> bit v (63 - i)) [0..<64])"

fun clz192_loop :: "u64 list \<Rightarrow> nat \<Rightarrow> nat" where
  "clz192_loop [] res = 191"
| "clz192_loop (val # x) res = (if val = 0 then clz192_loop x (res + 64) else res + clzll val)"

definition ci_clz192 :: "ci_ip6_pfx_t \<Rightarrow> nat" where
  "ci_clz192 x = clz192_loop x 0"

definition cp_ip6_get_largest_prefix :: "ci_ip6_pfx_t \<Rightarrow> byte" where
  "cp_ip6_get_largest_prefix prefix_bitmask = word_of_int (191 - int (ci_clz192 prefix_bitmask))"

definition cp_get_largest_prefix :: "ci_ip6_pfx_t \<Rightarrow> byte" where
  "cp_get_largest_prefix prefix_bitmask = cp_ip6_get_largest_prefix prefix_bitmask"

definition cp_get_fwd_pfx_cmp :: "ci_ip6_pfx_t \<Rightarrow> ci_ip6_pfx_t \<Rightarrow> bool" where
  "cp_get_fwd_pfx_cmp a b \<longleftrightarrow> concat (map (le_of_word 8) a) \<noteq> concat (map (le_of_word 8) b)"

section \<open>Weights of multipath routes\<close>

record cp_fwd_multipath_weight =
  w_end :: u32
  w_val :: u16
  w_flag :: u16

definition CP_FWD_MULTIPATH_FLAG_LAST :: u16 where "CP_FWD_MULTIPATH_FLAG_LAST = 1"
definition CP_FWD_MULTIPATH_WEIGHT_NONE :: u32 where "CP_FWD_MULTIPATH_WEIGHT_NONE = - 1"

definition cp_fwd_weight_match :: "u32 \<Rightarrow> cp_fwd_multipath_weight \<Rightarrow> bool" where
  "cp_fwd_weight_match val w \<longleftrightarrow>
     (if val = CP_FWD_MULTIPATH_WEIGHT_NONE
      then w_end w = 0 \<or> w_flag w AND CP_FWD_MULTIPATH_FLAG_LAST \<noteq> 0
      else val < w_end w \<and> w_end w - ucast (w_val w) \<le> val)"

section \<open>Keys and rows of the forward table\<close>

record cp_fwd_key =
  key_src :: ci_addr_t
  key_dst :: ci_addr_t
  key_ifindex :: u16
  key_tos :: byte
  key_iif_ifindex :: u16
  key_flag :: byte

definition CI_IS_ADDR_SH_IP6 :: "ci_addr_t \<Rightarrow> bool" where
  "CI_IS_ADDR_SH_IP6 a \<longleftrightarrow> take 12 (addr_ip6 a) \<noteq> take 12 (addr_ip6 ip4_addr_any)"

definition fwd_key2af :: "cp_fwd_key \<Rightarrow> nat" where
  "fwd_key2af key = (if CI_IS_ADDR_SH_IP6 (key_dst key) then AF_INET6 else AF_INET)"

definition IPTOS_RT_MASK :: byte where "IPTOS_RT_MASK = 0x1E AND NOT 3"
definition CP_FWD_KEY_TRANSPARENT :: byte where "CP_FWD_KEY_TRANSPARENT = 0x20"
definition CICP_FWD_FLAG_OCCUPIED :: u32 where "CICP_FWD_FLAG_OCCUPIED = 0x80"

record cp_fwd_key_ext =
  src_prefix :: byte
  dst_prefix :: byte

text \<open>A row holds two snapshots of its data, as the bytes that clients copy.\<close>

record cp_fwd_row =
  fwd_key :: cp_fwd_key
  fwd_key_ext :: cp_fwd_key_ext
  fwd_data0 :: "byte list"
  fwd_data1 :: "byte list"
  fwd_use :: u32
  fwd_version :: u32
  fwd_flags :: u32
  frc_stale :: u64

definition cp_fwd_key_match :: "cp_fwd_row \<Rightarrow> cp_fwd_key \<Rightarrow> bool option" where
  "cp_fwd_key_match fwd key =
     (let real_fwd_tos = key_tos (fwd_key fwd) AND IPTOS_RT_MASK;
          real_key_tos = key_tos key AND IPTOS_RT_MASK
      in do {
        src_mask \<leftarrow> cp_ip6_pfx2mask (src_prefix (fwd_key_ext fwd));
        dst_mask \<leftarrow> cp_ip6_pfx2mask (dst_prefix (fwd_key_ext fwd));
        let addr_match = (ci_ipx_addr_sh_masked_eq (key_src (fwd_key fwd)) (key_src key) src_mask \<and>
                          ci_ipx_addr_sh_masked_eq (key_dst (fwd_key fwd)) (key_dst key) dst_mask);
        Some (fwd_flags fwd AND CICP_FWD_FLAG_OCCUPIED \<noteq> 0 \<and> addr_match \<and>
              key_ifindex (fwd_key fwd) = key_ifindex key \<and> real_fwd_tos = real_key_tos \<and>
              key_iif_ifindex (fwd_key fwd) = key_iif_ifindex key \<and>
              (key_flag (fwd_key fwd) XOR key_flag key) AND CP_FWD_KEY_TRANSPARENT = 0) })"

text \<open>The last two arguments say which of the two hashes the caller wants.\<close>

definition cp_calc_hash ::
    "u32 \<Rightarrow> ci_addr_t \<Rightarrow> ci_addr_t \<Rightarrow> u32 \<Rightarrow> byte \<Rightarrow> u32 \<Rightarrow> bool \<Rightarrow> bool \<Rightarrow> (u32 option \<times> u32 option) option" where
  "cp_calc_hash size_mask laddr raddr ifindex tos iif_ifindex hash1 hash2 =
     (let real_tos = ucast (tos AND IPTOS_RT_MASK)
      in do {
        h1 \<leftarrow> (if hash1 then map_option Some (onload_hash1 size_mask laddr ifindex raddr real_tos iif_ifindex)
               else Some None);
        Some (h1, if hash2 then Some (cplane_hash2 laddr ifindex raddr real_tos iif_ifindex) else None) })"

definition cp_calc_fwd_hash :: "u32 \<Rightarrow> cp_fwd_key \<Rightarrow> bool \<Rightarrow> bool \<Rightarrow> (u32 option \<times> u32 option) option" where
  "cp_calc_fwd_hash msk key hash1 hash2 =
     cp_calc_hash msk (key_src key) (key_dst key) (ucast (key_ifindex key)) (key_tos key) (ucast (key_iif_ifindex key))
       hash1 hash2"

definition cp_calc_svc_hash :: "u32 \<Rightarrow> ci_addr_t \<Rightarrow> u32 \<Rightarrow> bool \<Rightarrow> bool \<Rightarrow> (u32 option \<times> u32 option) option" where
  "cp_calc_svc_hash size_mask addr port hash1 hash2 = cp_calc_hash size_mask addr addr_any port 0 0 hash1 hash2"

section \<open>Prefix masks select leading bits\<close>

text \<open>Bit \<open>k\<close> of an address in network order, and the place of it in a half of the address.\<close>

definition addr_bit :: "ci_addr_t \<Rightarrow> nat \<Rightarrow> bool" where
  "addr_bit a k \<longleftrightarrow> bit (addr_ip6 a ! (k div 8)) (7 - k mod 8)"

definition netpos :: "nat \<Rightarrow> nat" where
  "netpos k = 8 * (k div 8) + (7 - k mod 8)"

lemma div_mod_8: "r < 8 \<Longrightarrow> (8 * q + r) div 8 = q" "r < 8 \<Longrightarrow> (8 * q + r) mod 8 = r" for q r :: nat
  by simp_all

lemma netpos_parts: "netpos k div 8 = k div 8" "netpos k mod 8 = 7 - k mod 8"
  unfolding netpos_def by (rule div_mod_8, simp)+

lemma netpos_netpos [simp]: "netpos (netpos k) = k"
proof -
  have m: "k mod 8 \<le> 7" using mod_less_divisor [of 8 k] by simp
  have "netpos (netpos k) = 8 * (k div 8) + (7 - (7 - k mod 8))" by (simp only: netpos_def [of "netpos k"] netpos_parts)
  also have "7 - (7 - k mod 8) = k mod 8" by (rule diff_diff_cancel [OF m])
  also have "8 * (k div 8) + k mod 8 = k" by simp
  finally show ?thesis .
qed

lemma netpos_less: "netpos k < 8 * n \<longleftrightarrow> k < 8 * n"
proof -
  have "m < 8 * n \<longleftrightarrow> m div 8 < n" for m :: nat by (simp add: div_less_iff_less_mult mult.commute)
  then show ?thesis by (simp only: netpos_parts)
qed

lemmas netpos_less_words = netpos_less [of _ 8, simplified] netpos_less [of _ 4, simplified]

lemma addr_bit_half:
  "k < 64 \<Longrightarrow> addr_bit a k \<longleftrightarrow> bit (u64_0 a) (netpos k)"
  "k < 64 \<Longrightarrow> addr_bit a (64 + k) \<longleftrightarrow> bit (u64_1 a) (netpos k)"
proof -
  assume k: "k < 64"
  then have d: "k div 8 < 8" by simp
  show "addr_bit a k \<longleftrightarrow> bit (u64_0 a) (netpos k)"
    using d by (simp add: addr_bit_def addr_ip6_def nth_append bit_le_of_word netpos_def)
  have "(64 + k) div 8 = 8 + k div 8" "(64 + k) mod 8 = k mod 8" by presburger+
  then show "addr_bit a (64 + k) \<longleftrightarrow> bit (u64_1 a) (netpos k)"
    using d by (simp add: addr_bit_def addr_ip6_def nth_append bit_le_of_word netpos_def)
qed

lemma bit_bswap64: "bit (bswap64 w) n \<longleftrightarrow> n < 64 \<and> bit w (8 * (7 - n div 8) + n mod 8)"
proof (cases "n < 64")
  case True
  then have "n div 8 < 8" by simp
  then have "rev (le_of_word 8 w) ! (n div 8) = le_of_word 8 w ! (7 - n div 8)" by (simp add: rev_nth)
  with True \<open>n div 8 < 8\<close> show ?thesis by (simp add: bswap64_def bit_word_of_le bit_le_of_word)
qed (simp add: bswap64_def bit_word_of_le)

lemma bit_bswap64_netpos: "k < 64 \<Longrightarrow> bit (bswap64 w) (netpos k) \<longleftrightarrow> bit w (63 - k)"
proof -
  assume k: "k < 64"
  have "8 * (7 - k div 8) + (7 - k mod 8) = 63 - k" using k by presburger
  then show ?thesis using k by (simp only: bit_bswap64 netpos_parts netpos_less_words) simp
qed

text \<open>A mask with the given number of leading ones in network order, and what it compares.\<close>

definition net_mask :: "'a::len word \<Rightarrow> nat \<Rightarrow> bool" where
  "net_mask m p \<longleftrightarrow> (\<forall>k < LENGTH('a). bit m (netpos k) \<longleftrightarrow> k < p)"

lemma net_mask_eq:
  fixes u v m :: "'a::len word"
  assumes "net_mask m p" and len: "LENGTH('a) = 8 * l"
  shows "u AND m = v AND m \<longleftrightarrow> (\<forall>k < LENGTH('a). k < p \<longrightarrow> bit u (netpos k) = bit v (netpos k))"
proof
  assume e: "u AND m = v AND m"
  show "\<forall>k < LENGTH('a). k < p \<longrightarrow> bit u (netpos k) = bit v (netpos k)"
  proof (intro allI impI)
    fix k :: nat assume k: "k < LENGTH('a)" "k < p"
    then have "bit m (netpos k)" using assms(1) by (simp add: net_mask_def)
    moreover have "bit (u AND m) (netpos k) = bit (v AND m) (netpos k)" by (rule arg_cong [OF e])
    ultimately show "bit u (netpos k) = bit v (netpos k)" by (simp add: bit_and_iff)
  qed
next
  assume h: "\<forall>k < LENGTH('a). k < p \<longrightarrow> bit u (netpos k) = bit v (netpos k)"
  show "u AND m = v AND m"
  proof (rule bit_word_eqI)
    fix n assume "n < LENGTH('a)"
    then have n: "netpos n < LENGTH('a)" by (simp only: len netpos_less)
    have m: "bit m n \<longleftrightarrow> netpos n < p" using assms(1) [unfolded net_mask_def, rule_format, OF n] by simp
    have "bit m n \<Longrightarrow> bit u n = bit v n" using h [rule_format, OF n] unfolding m by simp
    then show "bit (u AND m) n = bit (v AND m) n" by (auto simp: bit_and_iff)
  qed
qed

lemma net_mask_prefix:
  assumes "0 < p" "p \<le> 64"
  shows "net_mask (CI_BSWAP_BE64 (push_bit (64 - p) 0xffffffffffffffff)) p"
proof -
  have ones: "(0xffffffffffffffff :: u64) = - 1" by simp
  have "bit (push_bit (64 - p) (0xffffffffffffffff :: u64)) (63 - k) \<longleftrightarrow> k < p" if "k < 64" for k
    using assms that unfolding ones by (auto simp: bit_push_bit_iff bit_not_iff bit_mask_iff possible_bit_def)
  then show ?thesis by (simp add: net_mask_def CI_BSWAP_BE64_def bit_bswap64_netpos)
qed

lemma net_mask_ones: "64 \<le> p \<Longrightarrow> net_mask (0xffffffffffffffff :: u64) p"
proof -
  have ones: "(0xffffffffffffffff :: u64) = - 1" by simp
  show "64 \<le> p \<Longrightarrow> net_mask (0xffffffffffffffff :: u64) p" unfolding net_mask_def ones by (simp add: netpos_less_words)
qed

lemma net_mask_zero: "net_mask 0 0"
  by (simp add: net_mask_def)

lemma pfx2mask_masks:
  assumes "unat pfx \<le> 128"
  shows "\<exists>m. cp_ip6_pfx2mask pfx = Some m \<and> net_mask (u64_0 m) (unat pfx) \<and> net_mask (u64_1 m) (unat pfx - 64)"
proof -
  have le: "pfx \<le> 128" using assms by (simp add: word_le_nat_alt)
  show ?thesis
  proof (cases "64 < pfx")
    case False
    then have p: "unat pfx \<le> 64" by (simp add: word_less_nat_alt)
    have loop: "pfx2mask_loop addr_any 0 pfx = Some (addr_any, 0, pfx)" using False by (simp add: pfx2mask_loop.simps)
    show ?thesis
    proof (cases "pfx = 0")
      case True
      then show ?thesis using loop le net_mask_zero by (simp add: cp_ip6_pfx2mask_def addr_any_def)
    next
      case nz: False
      then have "0 < unat pfx" by (simp add: unat_gt_0)
      with nz loop le p net_mask_prefix [OF this p] net_mask_zero show ?thesis
        by (simp add: cp_ip6_pfx2mask_def addr_set_u64_def addr_any_def)
    qed
  next
    case True
    let ?q = "pfx - 64"
    have q: "unat ?q = unat pfx - 64" using True by (simp add: unat_sub word_le_nat_alt word_less_nat_alt)
    then have q64: "unat ?q \<le> 64" and q0: "0 < unat ?q" using assms True by (simp_all add: word_less_nat_alt)
    have "\<not> 64 < ?q" using q64 by (simp add: word_less_nat_alt)
    then have loop: "pfx2mask_loop addr_any 0 pfx = Some (addr_any\<lparr>u64_0 := 0xffffffffffffffff\<rparr>, 1, ?q)"
      using True by (simp add: pfx2mask_loop.simps [of _ _ pfx] pfx2mask_loop.simps [of _ _ ?q] addr_set_u64_def)
    have "?q \<noteq> 0" using q0 by auto
    with loop le have "cp_ip6_pfx2mask pfx = Some \<lparr>u64_0 = 0xffffffffffffffff,
        u64_1 = CI_BSWAP_BE64 (push_bit (64 - unat ?q) 0xffffffffffffffff)\<rparr>"
      by (simp add: cp_ip6_pfx2mask_def addr_set_u64_def addr_any_def)
    with net_mask_prefix [OF q0 q64] net_mask_ones [of "unat pfx"] True q show ?thesis
      by (simp add: word_less_nat_alt)
  qed
qed

lemma half_split:
  "(\<forall>k < p. P k) \<longleftrightarrow> (\<forall>k < 64. k < p \<longrightarrow> P k) \<and> (\<forall>k < 64. k < p - 64 \<longrightarrow> P (64 + k))"
  if "p \<le> 128" for p :: nat
proof (intro iffI conjI allI impI)
  fix k assume h: "(\<forall>k < 64. k < p \<longrightarrow> P k) \<and> (\<forall>k < 64. k < p - 64 \<longrightarrow> P (64 + k))" and k: "k < p"
  show "P k"
  proof (cases "k < 64")
    case False
    then have "k - 64 < 64" "k - 64 < p - 64" "64 + (k - 64) = k" using k that by simp_all
    then show ?thesis using h by metis
  qed (use h k in blast)
qed simp_all

lemma masked_eq_bits:
  assumes "net_mask (u64_0 m) p" "net_mask (u64_1 m) (p - 64)" "p \<le> 128"
  shows "ci_ipx_addr_sh_masked_eq a b m \<longleftrightarrow> (\<forall>k < p. addr_bit a k = addr_bit b k)"
proof -
  have "ci_ipx_addr_sh_masked_eq a b m \<longleftrightarrow> ci_ipx_addr_masked_eq a b m"
    by (simp add: ci_ipx_addr_sh_masked_eq_def ci_ipx_addr_sh_masked_cmp_def ci_ipx_addr_masked_eq_def ci_ipx_addr_masked_cmp_def)
  also have "\<dots> \<longleftrightarrow> (\<forall>k < 64. k < p \<longrightarrow> addr_bit a k = addr_bit b k) \<and>
      (\<forall>k < 64. k < p - 64 \<longrightarrow> addr_bit a (64 + k) = addr_bit b (64 + k))"
    unfolding ci_ipx_addr_masked_eq_iff net_mask_eq [OF assms(1), of 8, simplified] net_mask_eq [OF assms(2), of 8, simplified]
    by (simp add: addr_bit_half)
  also have "\<dots> \<longleftrightarrow> (\<forall>k < p. addr_bit a k = addr_bit b k)" by (rule half_split [OF assms(3), of "\<lambda>k. addr_bit a k = addr_bit b k", symmetric])
  finally show ?thesis .
qed

lemma pfx_match_bits:
  assumes "unat pfx \<le> 128"
  shows "cp_ip6_pfx_match a b pfx = Some (\<forall>k < unat pfx. addr_bit a k = addr_bit b k)"
proof -
  from pfx2mask_masks [OF assms] obtain m where m: "cp_ip6_pfx2mask pfx = Some m"
    "net_mask (u64_0 m) (unat pfx)" "net_mask (u64_1 m) (unat pfx - 64)" by blast
  from masked_eq_bits [OF m(2,3) assms] m(1) show ?thesis by (simp only: cp_ip6_pfx_match_def option.map)
qed

lemma netpos_add_32: "netpos (32 + k) = 32 + netpos k"
proof -
  have "(32 + k) div 8 = 4 + k div 8" "(32 + k) mod 8 = k mod 8" by presburger+
  then show ?thesis by (simp add: netpos_def)
qed

lemma mapped_half:
  "32 \<le> n \<Longrightarrow> n < 64 \<Longrightarrow> bit (u64_1 (CI_ADDR_FROM_IP4 ip)) n \<longleftrightarrow> bit ip (n - 32)"
  "n < 32 \<Longrightarrow> bit (u64_1 (CI_ADDR_FROM_IP4 ip)) n \<longleftrightarrow> bit (0xffff0000 :: u64) n"
proof -
  have u: "u64_1 (CI_ADDR_FROM_IP4 ip) = push_bit 32 (ucast ip) OR 0xffff0000"
    by (simp only: CI_ADDR_FROM_IP4_def ci_addr_t.simps byteorder_defs)
  have c: "0xffff0000 = take_bit 32 (0xffff0000 :: u64)" by simp
  show "bit (u64_1 (CI_ADDR_FROM_IP4 ip)) n \<longleftrightarrow> bit ip (n - 32)" if "32 \<le> n" "n < 64"
    unfolding u bit_or_iff bit_push_bit_iff using that
    by (subst c) (simp only: bit_take_bit_iff bit_unsigned_iff possible_bit_word; auto)
  show "bit (u64_1 (CI_ADDR_FROM_IP4 ip)) n \<longleftrightarrow> bit (0xffff0000 :: u64) n" if "n < 32"
    unfolding u bit_or_iff bit_push_bit_iff using that by (meson not_less)
qed

lemma addr_bit_ip4:
  "k < 32 \<Longrightarrow> addr_bit (CI_ADDR_FROM_IP4 ip) (96 + k) \<longleftrightarrow> bit ip (netpos k)"
  "k < 96 \<Longrightarrow> addr_bit (CI_ADDR_FROM_IP4 ip) k = addr_bit (CI_ADDR_FROM_IP4 ip') k"
proof -
  assume k: "k < 32"
  then have n: "netpos k < 32" by (simp add: netpos_less_words)
  have "addr_bit (CI_ADDR_FROM_IP4 ip) (64 + (32 + k)) \<longleftrightarrow> bit (u64_1 (CI_ADDR_FROM_IP4 ip)) (netpos (32 + k))"
    using k by (intro addr_bit_half(2)) simp
  also have "\<dots> \<longleftrightarrow> bit ip (netpos k)" unfolding netpos_add_32 using n by (subst mapped_half(1)) simp_all
  finally show "addr_bit (CI_ADDR_FROM_IP4 ip) (96 + k) \<longleftrightarrow> bit ip (netpos k)" by simp
next
  assume k: "k < 96"
  show "addr_bit (CI_ADDR_FROM_IP4 ip) k = addr_bit (CI_ADDR_FROM_IP4 ip') k"
  proof (cases "k < 64")
    case True
    then show ?thesis by (simp add: addr_bit_half CI_ADDR_FROM_IP4_def)
  next
    case False
    define j where "j = k - 64"
    have j: "k = 64 + j" "j < 32" using k False by (simp_all add: j_def)
    then have "j < 64" "netpos j < 32" using netpos_less_words(2) [of j] by simp_all
    then show ?thesis unfolding j(1) by (simp only: addr_bit_half mapped_half)
  qed
qed

lemma bit_bswap32_netpos: "k < 32 \<Longrightarrow> bit (bswap32 w) (netpos k) \<longleftrightarrow> bit w (31 - k)"
proof -
  assume k: "k < 32"
  have "8 * (3 - k div 8) + (7 - k mod 8) = 31 - k" using k by presburger
  then show ?thesis using k by (simp only: bit_bswap32 netpos_parts netpos_less_words) simp
qed

lemma prefixlen2bitmask_mask:
  assumes "unat len \<le> 32" "len \<noteq> 1"
  shows "\<exists>m. cp_prefixlen2bitmask len = Some m \<and> net_mask m (unat len)"
proof (cases "len = 0")
  case True
  have z: "NOT 0xffffffff = (0 :: u32)" by simp
  have "cp_prefixlen2bitmask len = Some (bswap32 0)"
    using True by (simp only: cp_prefixlen2bitmask_def if_True simp_thms byteorder_defs z)
  with True show ?thesis by (simp add: net_mask_def bit_bswap32_netpos)
next
  case False
  let ?n = "32 - unat len"
  have p: "push_bit ?n 1 - 1 = (mask ?n :: u32)" by (simp add: mask_eq_exp_minus_1 push_bit_eq_mult)
  have "\<not> 32 < len" using assms by (simp add: word_less_nat_alt)
  then have "cp_prefixlen2bitmask len = Some (bswap32 (NOT (mask ?n)))"
    using False assms unfolding cp_prefixlen2bitmask_def p by (simp add: byteorder_defs)
  moreover have "0 < unat len" using False by (simp add: unat_gt_0)
  then have "net_mask (bswap32 (NOT (mask ?n))) (unat len)"
    using assms(1) by (auto simp: net_mask_def bit_bswap32_netpos bit_not_iff bit_mask_iff)
  ultimately show ?thesis by blast
qed

lemma ip_prefix_match_bits:
  assumes "unat len \<le> 32" "len \<noteq> 1"
  shows "cp_ip_prefix_match ip1 ip2 len = Some (\<forall>k < unat len. bit ip1 (netpos k) = bit ip2 (netpos k))"
proof -
  from prefixlen2bitmask_mask [OF assms] obtain m where m: "cp_prefixlen2bitmask len = Some m" "net_mask m (unat len)" by blast
  have "(x XOR y) AND z = 0 \<longleftrightarrow> x AND z = y AND z" for x y z :: u32
    by (auto simp: word_eq_bits bit_xor_iff bit_and_iff)
  then have "cp_ip_prefix_match ip1 ip2 len = Some (ip1 AND m = ip2 AND m)" using m(1) by (simp add: cp_ip_prefix_match_def)
  also have "ip1 AND m = ip2 AND m \<longleftrightarrow> (\<forall>k < unat len. bit ip1 (netpos k) = bit ip2 (netpos k))"
    using assms(1) by (subst net_mask_eq [OF m(2), of 4]) auto
  finally show ?thesis .
qed


lemma ip4_match_as_ip6:
  assumes "unat len \<le> 32" "len \<noteq> 1"
  shows "cp_ip_prefix_match ip1 ip2 len = cp_ip6_pfx_match (CI_ADDR_FROM_IP4 ip1) (CI_ADDR_FROM_IP4 ip2) (96 + len)"
proof -
  have u: "unat (96 + len) = 96 + unat len" using assms(1) by (subst unat_add_lem [THEN iffD1]) simp_all
  let ?P = "\<lambda>k. addr_bit (CI_ADDR_FROM_IP4 ip1) k = addr_bit (CI_ADDR_FROM_IP4 ip2) k"
  have "(\<forall>k < 96 + unat len. ?P k) \<longleftrightarrow> (\<forall>k < unat len. bit ip1 (netpos k) = bit ip2 (netpos k))"
  proof
    assume h: "\<forall>k < 96 + unat len. ?P k"
    show "\<forall>k < unat len. bit ip1 (netpos k) = bit ip2 (netpos k)"
    proof (intro allI impI)
      fix k assume k: "k < unat len"
      then have "?P (96 + k)" "k < 32" using h assms(1) by simp_all
      then show "bit ip1 (netpos k) = bit ip2 (netpos k)" by (simp only: addr_bit_ip4)
    qed
  next
    assume h: "\<forall>k < unat len. bit ip1 (netpos k) = bit ip2 (netpos k)"
    show "\<forall>k < 96 + unat len. ?P k"
    proof (intro allI impI)
      fix k assume k: "k < 96 + unat len"
      show "?P k"
      proof (cases "k < 96")
        case True
        then show ?thesis by (rule addr_bit_ip4(2))
      next
        case False
        define j where "j = k - 96"
        have "k = 96 + j" "j < unat len" "j < 32" using k False assms(1) by (simp_all add: j_def)
        then show ?thesis using h by (simp only: addr_bit_ip4)
      qed
    qed
  qed
  then have e: "(\<forall>k < 96 + unat len. ?P k) = (\<forall>k < unat len. bit ip1 (netpos k) = bit ip2 (netpos k))" .
  have le: "unat (96 + len) \<le> 128" using u assms(1) by simp
  show ?thesis unfolding ip_prefix_match_bits [OF assms] pfx_match_bits [OF le] u e by (rule refl)
qed

lemma apply_pfx_eq_iff:
  assumes "unat pfx \<le> 128"
  shows "cp_addr_apply_pfx a pfx = cp_addr_apply_pfx b pfx \<longleftrightarrow> (\<forall>k < unat pfx. addr_bit a k = addr_bit b k)"
proof -
  from pfx2mask_masks [OF assms] obtain m where m: "cp_ip6_pfx2mask pfx = Some m"
    "net_mask (u64_0 m) (unat pfx)" "net_mask (u64_1 m) (unat pfx - 64)" by blast
  have "cp_addr_apply_pfx a pfx = cp_addr_apply_pfx b pfx \<longleftrightarrow> ci_ipx_addr_masked_eq a b m"
    by (simp add: cp_addr_apply_pfx_def m(1) ci_ipx_addr_masked_eq_iff)
  also have "\<dots> \<longleftrightarrow> ci_ipx_addr_sh_masked_eq a b m"
    by (simp add: ci_ipx_addr_sh_masked_eq_def ci_ipx_addr_sh_masked_cmp_def ci_ipx_addr_masked_eq_def ci_ipx_addr_masked_cmp_def)
  also have "\<dots> \<longleftrightarrow> (\<forall>k < unat pfx. addr_bit a k = addr_bit b k)" by (rule masked_eq_bits [OF m(2,3) assms])
  finally show ?thesis .
qed

lemma pfx2mask_None: "128 < unat pfx \<Longrightarrow> cp_ip6_pfx2mask pfx = None"
  by (simp add: cp_ip6_pfx2mask_def word_le_nat_alt)

lemma apply_pfx_total: "unat pfx \<le> 128 \<Longrightarrow> \<exists>a'. cp_addr_apply_pfx a pfx = Some a'"
  using pfx2mask_masks [of pfx] by (auto simp: cp_addr_apply_pfx_def)

lemma key_match_iff:
  assumes "unat (src_prefix (fwd_key_ext fwd)) \<le> 128" "unat (dst_prefix (fwd_key_ext fwd)) \<le> 128"
  shows "cp_fwd_key_match fwd key = Some (fwd_flags fwd AND CICP_FWD_FLAG_OCCUPIED \<noteq> 0 \<and>
    (\<forall>k < unat (src_prefix (fwd_key_ext fwd)). addr_bit (key_src (fwd_key fwd)) k = addr_bit (key_src key) k) \<and>
    (\<forall>k < unat (dst_prefix (fwd_key_ext fwd)). addr_bit (key_dst (fwd_key fwd)) k = addr_bit (key_dst key) k) \<and>
    key_ifindex (fwd_key fwd) = key_ifindex key \<and>
    key_tos (fwd_key fwd) AND IPTOS_RT_MASK = key_tos key AND IPTOS_RT_MASK \<and>
    key_iif_ifindex (fwd_key fwd) = key_iif_ifindex key \<and>
    (key_flag (fwd_key fwd) XOR key_flag key) AND CP_FWD_KEY_TRANSPARENT = 0)"
proof -
  from pfx2mask_masks [OF assms(1)] obtain m where m: "cp_ip6_pfx2mask (src_prefix (fwd_key_ext fwd)) = Some m"
    "net_mask (u64_0 m) (unat (src_prefix (fwd_key_ext fwd)))" "net_mask (u64_1 m) (unat (src_prefix (fwd_key_ext fwd)) - 64)" by blast
  from pfx2mask_masks [OF assms(2)] obtain n where n: "cp_ip6_pfx2mask (dst_prefix (fwd_key_ext fwd)) = Some n"
    "net_mask (u64_0 n) (unat (dst_prefix (fwd_key_ext fwd)))" "net_mask (u64_1 n) (unat (dst_prefix (fwd_key_ext fwd)) - 64)" by blast
  show ?thesis
    unfolding cp_fwd_key_match_def Let_def m(1) n(1) bind.bind_lunit
      masked_eq_bits [OF m(2,3) assms(1)] masked_eq_bits [OF n(2,3) assms(2)] by blast
qed

section \<open>Sets of prefix lengths\<close>

definition pfx_set :: "ci_ip6_pfx_t \<Rightarrow> nat set" where
  "pfx_set x = {p. p < 192 \<and> bit (x ! (2 - p div 64)) (p mod 64)}"

lemma pfx_set_words:
  "pfx_set [a, b, c] = {128 + n | n. bit a n} \<union> {64 + n | n. bit b n} \<union> {n. bit c n}"
proof (rule set_eqI)
  fix p :: nat
  have small: "bit w n \<Longrightarrow> n < 64" for w :: u64 and n using bit_imp_le_length [of w n] by simp
  consider "p < 64" | "64 \<le> p" "p < 128" | "128 \<le> p" "p < 192" | "192 \<le> p" by linarith
  then show "p \<in> pfx_set [a, b, c] \<longleftrightarrow> p \<in> {128 + n | n. bit a n} \<union> {64 + n | n. bit b n} \<union> {n. bit c n}"
  proof cases
    case 1
    then show ?thesis by (auto simp: pfx_set_def)
  next
    case 2
    then have "p div 64 = 1" "p mod 64 = p - 64" by (simp_all add: div_nat_eqI mod_if)
    then show ?thesis using 2 small [of c p] by (auto simp: pfx_set_def intro!: exI [of _ "p - 64"])
  next
    case 3
    then have "p div 64 = 2" "p mod 64 = p - 128" by (simp_all add: div_nat_eqI mod_if)
    then show ?thesis using 3 small [of c p] small [of b "p - 64"] by (auto simp: pfx_set_def intro!: exI [of _ "p - 128"])
  next
    case 4
    then show ?thesis using small [of c p] small [of b "p - 64"] small [of a "p - 128"] by (auto simp: pfx_set_def)
  qed
qed

lemma clzll_top:
  assumes "v \<noteq> 0"
  shows "\<exists>n < 64. bit v n \<and> (\<forall>m. bit v m \<longrightarrow> m \<le> n) \<and> clzll v = 63 - n"
proof -
  have fin: "finite {n. bit v n}" by (rule finite_bit_word)
  have "\<exists>n. bit v n"
  proof (rule ccontr)
    assume "\<nexists>n. bit v n"
    then have "v = 0" by (intro bit_word_eqI) simp
    with assms show False by simp
  qed
  then have ne: "{n. bit v n} \<noteq> {}" by blast
  define n where "n = Max {n. bit v n}"
  have n: "bit v n" "\<And>m. bit v m \<Longrightarrow> m \<le> n" using Max_in [OF fin ne] Max_ge [OF fin] by (simp_all add: n_def)
  then have "n < 64" using bit_imp_le_length [of v n] by simp
  have "takeWhile (\<lambda>i. \<not> bit v (63 - i)) [0..<64] = take (63 - n) [0..<64]"
    by (rule takeWhile_eq_take_P_nth) (use n \<open>n < 64\<close> in \<open>auto simp del: upt.simps dest!: n(2)\<close>)
  then have "clzll v = 63 - n" by (simp add: clzll_def)
  with n \<open>n < 64\<close> show ?thesis by blast
qed

lemma largest_prefix:
  assumes "length x = 3"
  shows "unat (cp_get_largest_prefix x) = (if pfx_set x = {} then 0 else Max (pfx_set x))"
proof -
  from assms obtain a b c where x: "x = [a, b, c]" by (auto simp: numeral_3_eq_3 length_Suc_conv)
  have fin: "finite (pfx_set x)" by (rule finite_subset [of _ "{..<192}"]) (auto simp: pfx_set_def)
  have le: "k \<le> 191 \<Longrightarrow> unat (word_of_int (191 - int k) :: byte) = 191 - k" for k
  proof -
    assume k: "k \<le> 191"
    then have "(word_of_int (191 - int k) :: byte) = of_nat (191 - k)" by (simp add: of_nat_diff)
    also have "unat \<dots> = 191 - k" using k by (simp only: unat_of_nat) simp
    finally show ?thesis .
  qed
  have small: "bit w n \<Longrightarrow> n < 64" for w :: u64 and n using bit_imp_le_length [of w n] by simp
  have goal: "ci_clz192 x \<le> 191 \<and> 191 - ci_clz192 x = (if pfx_set x = {} then 0 else Max (pfx_set x))"
  proof -
    consider "a \<noteq> 0" | "a = 0" "b \<noteq> 0" | "a = 0" "b = 0" "c \<noteq> 0" | "a = 0" "b = 0" "c = 0" by blast
    then show ?thesis
    proof cases
      case 1
      from clzll_top [OF 1] obtain n where n: "n < 64" "bit a n" "\<And>m. bit a m \<Longrightarrow> m \<le> n" "clzll a = 63 - n" by blast
      have "y \<le> 128 + n" if "y \<in> pfx_set x" for y
        using that n(3) small [of b] small [of c] unfolding x pfx_set_words by fastforce
      then have "Max (pfx_set x) = 128 + n" by (rule Max_eqI [OF fin]) (use n in \<open>auto simp: x pfx_set_words\<close>)
      moreover have "pfx_set x \<noteq> {}" using n(2) by (auto simp: x pfx_set_words)
      ultimately show ?thesis using n 1 by (simp add: x ci_clz192_def)
    next
      case 2
      from clzll_top [OF 2(2)] obtain n where n: "n < 64" "bit b n" "\<And>m. bit b m \<Longrightarrow> m \<le> n" "clzll b = 63 - n" by blast
      have "y \<le> 64 + n" if "y \<in> pfx_set x" for y
        using that 2(1) n(3) small [of b] small [of c] unfolding x pfx_set_words by fastforce
      then have "Max (pfx_set x) = 64 + n" by (rule Max_eqI [OF fin]) (use n 2 in \<open>auto simp: x pfx_set_words\<close>)
      moreover have "pfx_set x \<noteq> {}" using n(2) by (auto simp: x pfx_set_words)
      ultimately show ?thesis using n 2 by (simp add: x ci_clz192_def)
    next
      case 3
      from clzll_top [OF 3(3)] obtain n where n: "n < 64" "bit c n" "\<And>m. bit c m \<Longrightarrow> m \<le> n" "clzll c = 63 - n" by blast
      have "Max (pfx_set x) = n"
        by (rule Max_eqI [OF fin]) (use n 3 in \<open>auto simp: x pfx_set_words\<close>)
      moreover have "pfx_set x \<noteq> {}" using n(2) by (auto simp: x pfx_set_words)
      ultimately show ?thesis using n 3 by (simp add: x ci_clz192_def)
    next
      case 4
      then show ?thesis by (simp add: x ci_clz192_def pfx_set_words)
    qed
  qed
  then show ?thesis using le [of "ci_clz192 x"] by (simp only: cp_get_largest_prefix_def cp_ip6_get_largest_prefix_def)
qed

lemma pfx_set_ops:
  assumes "length x = 3" "length y = 3"
  shows "pfx_set (bw_or_192 x y) = pfx_set x \<union> pfx_set y" "pfx_set (bw_and_192 x y) = pfx_set x \<inter> pfx_set y"
    "pfx_set (bw_not_192 x) = {..<192} - pfx_set x"
proof -
  have nth: "i < 3 \<Longrightarrow> bw_or_192 x y ! i = x ! i OR y ! i" "i < 3 \<Longrightarrow> bw_and_192 x y ! i = x ! i AND y ! i"
    "i < 3 \<Longrightarrow> bw_not_192 x ! i = NOT (x ! i)" for i
    by (auto simp: bw_or_192_def bw_and_192_def bw_not_192_def less_Suc_eq numeral_3_eq_3 numeral_2_eq_2)
  show "pfx_set (bw_or_192 x y) = pfx_set x \<union> pfx_set y" "pfx_set (bw_and_192 x y) = pfx_set x \<inter> pfx_set y"
    by (auto simp: pfx_set_def nth bit_or_iff bit_and_iff)
  show "pfx_set (bw_not_192 x) = {..<192} - pfx_set x"
    by (auto simp: pfx_set_def nth bit_not_iff)
qed

lemma pfx_set_single:
  "unat shift < 192 \<Longrightarrow> \<exists>x. bw_shift_bit_192 shift = Some x \<and> length x = 3 \<and> pfx_set x = {unat shift}"
  "192 \<le> unat shift \<Longrightarrow> bw_shift_bit_192 shift = None"
proof -
  assume s: "unat shift < 192"
  let ?s = "unat shift" and ?x = "[0, 0, 0][2 - unat shift div 64 := push_bit (unat shift mod 64) (1 :: u64)]"
  have "?s div 64 \<le> 2" using s by simp
  have "pfx_set ?x = {?s}"
  proof (rule set_eqI)
    fix p
    have nth: "p < 192 \<Longrightarrow> bit (?x ! (2 - p div 64)) (p mod 64) \<longleftrightarrow> p div 64 = ?s div 64 \<and> p mod 64 = ?s mod 64"
    proof -
      assume "p < 192"
      then have "p div 64 \<le> 2" by simp
      then show ?thesis using \<open>?s div 64 \<le> 2\<close>
        by (auto simp: nth_list_update nth_Cons bit_push_bit_iff bit_1_iff bit_exp_iff possible_bit_def split: nat.splits) linarith
    qed
    have "p div 64 = ?s div 64 \<and> p mod 64 = ?s mod 64 \<longleftrightarrow> p = ?s" by (metis div_mult_mod_eq)
    with nth s show "p \<in> pfx_set ?x \<longleftrightarrow> p \<in> {?s}" by (auto simp: pfx_set_def)
  qed
  moreover have "bw_shift_bit_192 shift = Some ?x" using \<open>?s div 64 \<le> 2\<close> by (simp only: bw_shift_bit_192_def if_True)
  moreover have "length ?x = 3" by (simp only: length_list_update) simp
  ultimately show "\<exists>x. bw_shift_bit_192 shift = Some x \<and> length x = 3 \<and> pfx_set x = {?s}" by blast
next
  assume "192 \<le> unat shift"
  then show "bw_shift_bit_192 shift = None" by (simp add: bw_shift_bit_192_def)
qed

section \<open>Weights\<close>

text \<open>The paths of a route, laid out one after another from the given start; only the last has the flag.\<close>

fun weights_from :: "nat \<Rightarrow> cp_fwd_multipath_weight list \<Rightarrow> bool" where
  "weights_from s [] \<longleftrightarrow> True"
| "weights_from s (w # ws) \<longleftrightarrow>
     0 < unat (w_val w) \<and> unat (w_end w) = s + unat (w_val w) \<and>
     (w_flag w AND CP_FWD_MULTIPATH_FLAG_LAST \<noteq> 0 \<longleftrightarrow> ws = []) \<and> weights_from (unat (w_end w)) ws"

lemma weight_match_range:
  assumes "unat (w_end w) = s + unat (w_val w)" "val \<noteq> CP_FWD_MULTIPATH_WEIGHT_NONE"
  shows "cp_fwd_weight_match val w \<longleftrightarrow> s \<le> unat val \<and> unat val < unat (w_end w)"
proof -
  have "unat (w_val w) < 2 ^ 16" using unsigned_less [where w = "w_val w"] by simp
  then have u: "unat (ucast (w_val w) :: u32) = unat (w_val w)" by (simp add: unsigned_ucast_eq take_bit_nat_eq_self)
  have "unat (w_end w - ucast (w_val w)) = s" using assms(1) u by (simp add: unat_sub word_le_nat_alt)
  then show ?thesis using assms(2) by (auto simp: cp_fwd_weight_match_def word_less_nat_alt word_le_nat_alt)
qed

lemma weights_last: "weights_from s ws \<Longrightarrow> ws \<noteq> [] \<Longrightarrow> s < unat (w_end (last ws))"
  by (induction ws arbitrary: s) (auto, fastforce)

lemma weights_step:
  assumes "weights_from s (w # ws)" "val \<noteq> CP_FWD_MULTIPATH_WEIGHT_NONE"
  shows "weights_from (unat (w_end w)) ws" "s < unat (w_end w)"
    "cp_fwd_weight_match val w \<longleftrightarrow> s \<le> unat val \<and> unat val < unat (w_end w)"
  using assms weight_match_range [of w s val] by auto

lemma weights_match_range:
  assumes "weights_from s ws" "val \<noteq> CP_FWD_MULTIPATH_WEIGHT_NONE" "i < length ws" "cp_fwd_weight_match val (ws ! i)"
  shows "s \<le> unat val \<and> unat val < unat (w_end (last ws))"
  using assms
proof (induction ws arbitrary: s i)
  case (Cons w ws)
  note st = weights_step [OF Cons.prems(1,2)]
  show ?case
  proof (cases i)
    case 0
    then have v: "s \<le> unat val" "unat val < unat (w_end w)" using Cons.prems(4) st(3) by simp_all
    show ?thesis
    proof (cases "ws = []")
      case False
      from weights_last [OF st(1) False] v False show ?thesis by simp
    qed (use v in simp)
  next
    case (Suc j)
    then have "j < length ws" "cp_fwd_weight_match val (ws ! j)" using Cons.prems by simp_all
    moreover from this have "ws \<noteq> []" by auto
    ultimately show ?thesis using Cons.IH [OF st(1) Cons.prems(2)] st(2) by fastforce
  qed
qed simp

lemma weights_match_exists:
  assumes "weights_from s ws" "val \<noteq> CP_FWD_MULTIPATH_WEIGHT_NONE" "ws \<noteq> []"
    "s \<le> unat val" "unat val < unat (w_end (last ws))"
  shows "\<exists>i < length ws. cp_fwd_weight_match val (ws ! i)"
  using assms
proof (induction ws arbitrary: s)
  case (Cons w ws)
  note st = weights_step [OF Cons.prems(1,2)]
  show ?case
  proof (cases "unat val < unat (w_end w)")
    case True
    then have "cp_fwd_weight_match val ((w # ws) ! 0)" using st(3) Cons.prems(4) by simp
    then show ?thesis by blast
  next
    case False
    then have "ws \<noteq> []" using Cons.prems(5) by auto
    with Cons.IH [OF st(1) Cons.prems(2) this] False Cons.prems(5)
    obtain i where "i < length ws" "cp_fwd_weight_match val (ws ! i)" by auto
    then have "Suc i < length (w # ws)" "cp_fwd_weight_match val ((w # ws) ! Suc i)" by simp_all
    then show ?thesis by blast
  qed
qed simp

lemma weights_match_unique:
  assumes "weights_from s ws" "val \<noteq> CP_FWD_MULTIPATH_WEIGHT_NONE" "i < j" "j < length ws"
    "cp_fwd_weight_match val (ws ! i)"
  shows "\<not> cp_fwd_weight_match val (ws ! j)"
  using assms
proof (induction ws arbitrary: s i j)
  case (Cons w ws)
  note st = weights_step [OF Cons.prems(1,2)]
  from Cons.prems(3) obtain k where j: "j = Suc k" by (cases j) auto
  then have k: "k < length ws" using Cons.prems(4) by simp
  show ?case
  proof (cases i)
    case 0
    then have "unat val < unat (w_end w)" using Cons.prems(5) st(3) by simp
    then show ?thesis using weights_match_range [OF st(1) Cons.prems(2) k] j by auto
  next
    case (Suc l)
    then show ?thesis using Cons.IH [OF st(1) Cons.prems(2), of l k] Cons.prems(3,5) j k by simp
  qed
qed simp

lemma weights_none:
  assumes "weights_from s ws" "ws \<noteq> []" "i < length ws"
  shows "cp_fwd_weight_match CP_FWD_MULTIPATH_WEIGHT_NONE (ws ! i) \<longleftrightarrow> i = length ws - 1"
  using assms
proof (induction ws arbitrary: s i)
  case (Cons w ws)
  have "w_end w \<noteq> 0" using Cons.prems(1) by (auto simp: unat_eq_0 [symmetric] simp del: unat_eq_0)
  then have w: "cp_fwd_weight_match CP_FWD_MULTIPATH_WEIGHT_NONE w \<longleftrightarrow> ws = []"
    using Cons.prems(1) by (simp add: cp_fwd_weight_match_def)
  show ?case
  proof (cases i)
    case 0
    then show ?thesis using w by simp
  next
    case (Suc j)
    then have "ws \<noteq> []" "j < length ws" using Cons.prems by auto
    then show ?thesis using Cons.IH [of "unat (w_end w)" j] Cons.prems(1) Suc by (cases ws) auto
  qed
qed simp

lemma masked_key_hash:
  assumes "key_src k = key_src k'" "key_dst k = key_dst k'" "key_ifindex k = key_ifindex k'"
    "key_tos k AND IPTOS_RT_MASK = key_tos k' AND IPTOS_RT_MASK" "key_iif_ifindex k = key_iif_ifindex k'"
  shows "cp_calc_fwd_hash msk k hash1 hash2 = cp_calc_fwd_hash msk k' hash1 hash2"
  by (simp only: cp_calc_fwd_hash_def cp_calc_hash_def assms)

section \<open>Properties\<close>

text \<open>
  C31. Two addresses match under a prefix of up to 128 bits exactly when their leading bits in
  network order agree, which is also when clearing the other bits makes them equal; a longer
  prefix fails the assertion.  The IPv4 match is the match of the mapped addresses under a
  prefix longer by 96, except for a prefix of one bit, where it computes an unrepresentable
  \<open>int\<close>.
\<close>

theorem prefix_match_exact:
  "cp_ip6_pfx_match a b pfx =
     (if unat pfx \<le> 128 then Some (\<forall>k < unat pfx. addr_bit a k = addr_bit b k) else None) \<and>
   (unat pfx \<le> 128 \<longrightarrow> cp_ip6_pfx_match a b pfx = Some (cp_addr_apply_pfx a pfx = cp_addr_apply_pfx b pfx)) \<and>
   cp_ip_prefix_match ip1 ip2 len =
     (if unat len \<le> 32 \<and> len \<noteq> 1
      then cp_ip6_pfx_match (CI_ADDR_FROM_IP4 ip1) (CI_ADDR_FROM_IP4 ip2) (96 + len) else None)"
proof (intro conjI impI)
  have "\<not> unat pfx \<le> 128 \<Longrightarrow> cp_ip6_pfx_match a b pfx = None" by (simp add: cp_ip6_pfx_match_def pfx2mask_None)
  then show "cp_ip6_pfx_match a b pfx =
      (if unat pfx \<le> 128 then Some (\<forall>k < unat pfx. addr_bit a k = addr_bit b k) else None)"
    by (cases "unat pfx \<le> 128") (simp_all only: pfx_match_bits if_True if_False simp_thms)
next
  assume p: "unat pfx \<le> 128"
  show "cp_ip6_pfx_match a b pfx = Some (cp_addr_apply_pfx a pfx = cp_addr_apply_pfx b pfx)"
    unfolding pfx_match_bits [OF p] apply_pfx_eq_iff [OF p] by (rule refl)
next
  have "\<not> unat len \<le> 32 \<Longrightarrow> 32 < len" by (simp add: word_less_nat_alt)
  then have "\<not> (unat len \<le> 32 \<and> len \<noteq> 1) \<Longrightarrow> cp_ip_prefix_match ip1 ip2 len = None"
    by (auto simp: cp_ip_prefix_match_def cp_prefixlen2bitmask_def)
  then show "cp_ip_prefix_match ip1 ip2 len =
      (if unat len \<le> 32 \<and> len \<noteq> 1
       then cp_ip6_pfx_match (CI_ADDR_FROM_IP4 ip1) (CI_ADDR_FROM_IP4 ip2) (96 + len) else None)"
    using ip4_match_as_ip6 [of len ip1 ip2] by (cases "unat len \<le> 32 \<and> len \<noteq> 1") (simp_all only: if_True if_False simp_thms)
qed

theorem prefix_match_exact_witness:
  "cp_ip6_pfx_match ip6_addr_loop addr_any 127 = Some (cp_addr_apply_pfx ip6_addr_loop 127 = cp_addr_apply_pfx addr_any 127) \<and>
   cp_ip_prefix_match 0x0100007f 0x0200007f 8 =
     cp_ip6_pfx_match (CI_ADDR_FROM_IP4 0x0100007f) (CI_ADDR_FROM_IP4 0x0200007f) (96 + 8)"
proof -
  have h: "unat (127 :: byte) \<le> 128" "unat (8 :: byte) \<le> 32 \<and> (8 :: byte) \<noteq> 1" by simp_all
  note p = prefix_match_exact [of ip6_addr_loop addr_any 127 "0x0100007f" "0x0200007f" 8]
  from mp [OF conjunct1 [OF conjunct2 [OF p]] h(1)] conjunct2 [OF conjunct2 [OF p], unfolded if_P [OF h(2)]] show ?thesis
    by (rule conjI)
qed

text \<open>A key with both addresses cut to the prefixes of a row.\<close>

definition fwd_cut_key :: "cp_fwd_key_ext \<Rightarrow> cp_fwd_key \<Rightarrow> cp_fwd_key option" where
  "fwd_cut_key ext key =
     do { s \<leftarrow> cp_addr_apply_pfx (key_src key) (src_prefix ext);
          d \<leftarrow> cp_addr_apply_pfx (key_dst key) (dst_prefix ext);
          Some (key\<lparr>key_src := s, key_dst := d\<rparr>) }"

text \<open>
  C32. When a row of the forward table answers a request, the row and the request have the same
  hashes once both addresses are cut to the prefixes of the row, so that a probe with the cut
  request starts at the bucket of the row, whatever the size of the table.
\<close>

theorem fwd_match_hash:
  assumes "cp_fwd_key_match fwd key = Some True"
  shows "\<exists>k k'. fwd_cut_key (fwd_key_ext fwd) (fwd_key fwd) = Some k \<and> fwd_cut_key (fwd_key_ext fwd) key = Some k' \<and>
    (\<forall>msk hash1 hash2. cp_calc_fwd_hash msk k hash1 hash2 = cp_calc_fwd_hash msk k' hash1 hash2)"
proof -
  let ?s = "src_prefix (fwd_key_ext fwd)" and ?d = "dst_prefix (fwd_key_ext fwd)"
  have s: "unat ?s \<le> 128" and d: "unat ?d \<le> 128"
    using assms pfx2mask_None [of ?s] pfx2mask_None [of ?d] by (auto simp: cp_fwd_key_match_def Let_def bind_eq_Some_conv not_less [symmetric])
  note m = assms [unfolded key_match_iff [OF s d], simplified]
  obtain a where a: "cp_addr_apply_pfx (key_src key) ?s = Some a" using apply_pfx_total [OF s] by blast
  obtain b where b: "cp_addr_apply_pfx (key_dst key) ?d = Some b" using apply_pfx_total [OF d] by blast
  have "cp_addr_apply_pfx (key_src (fwd_key fwd)) ?s = Some a" "cp_addr_apply_pfx (key_dst (fwd_key fwd)) ?d = Some b"
    using m a b apply_pfx_eq_iff [OF s, of "key_src (fwd_key fwd)" "key_src key"]
      apply_pfx_eq_iff [OF d, of "key_dst (fwd_key fwd)" "key_dst key"] by simp_all
  then have "fwd_cut_key (fwd_key_ext fwd) (fwd_key fwd) = Some (fwd_key fwd\<lparr>key_src := a, key_dst := b\<rparr>)"
    "fwd_cut_key (fwd_key_ext fwd) key = Some (key\<lparr>key_src := a, key_dst := b\<rparr>)"
    using a b by (simp_all add: fwd_cut_key_def)
  moreover have "cp_calc_fwd_hash msk (fwd_key fwd\<lparr>key_src := a, key_dst := b\<rparr>) hash1 hash2 =
      cp_calc_fwd_hash msk (key\<lparr>key_src := a, key_dst := b\<rparr>) hash1 hash2" for msk hash1 hash2
    using m by (intro masked_key_hash) simp_all
  ultimately show ?thesis by blast
qed

theorem fwd_match_hash_witness:
  "\<exists>k k'. fwd_cut_key \<lparr>src_prefix = 0, dst_prefix = 0\<rparr> \<lparr>key_src = addr_any, key_dst = addr_any, key_ifindex = 2, key_tos = 0, key_iif_ifindex = 0, key_flag = 0\<rparr> = Some k \<and>
     fwd_cut_key \<lparr>src_prefix = 0, dst_prefix = 0\<rparr> \<lparr>key_src = addr_any, key_dst = ip6_addr_loop, key_ifindex = 2, key_tos = 3, key_iif_ifindex = 0, key_flag = 0x80\<rparr> = Some k' \<and>
     (\<forall>msk hash1 hash2. cp_calc_fwd_hash msk k hash1 hash2 = cp_calc_fwd_hash msk k' hash1 hash2)"
proof -
  let ?k = "\<lparr>key_src = addr_any, key_dst = addr_any, key_ifindex = 2, key_tos = 0, key_iif_ifindex = 0, key_flag = 0\<rparr>"
  let ?k' = "\<lparr>key_src = addr_any, key_dst = ip6_addr_loop, key_ifindex = 2, key_tos = 3, key_iif_ifindex = 0, key_flag = 0x80\<rparr>"
  let ?fwd = "\<lparr>fwd_key = ?k, fwd_key_ext = \<lparr>src_prefix = 0, dst_prefix = 0\<rparr>, fwd_data0 = [], fwd_data1 = [],
    fwd_use = 1, fwd_version = 0, fwd_flags = 0x80, frc_stale = 0\<rparr>"
  have "cp_fwd_key_match ?fwd ?k' = Some True"
    by (subst key_match_iff) (simp_all add: CICP_FWD_FLAG_OCCUPIED_def IPTOS_RT_MASK_def CP_FWD_KEY_TRANSPARENT_def)
  from fwd_match_hash [OF this] show ?thesis by simp
qed

text \<open>
  C33. The 192-bit words represent sets of prefix lengths: the bitwise operations are the set
  operations, a single bit is a singleton for every length the words can hold (an array
  access out of range for longer ones), and the largest prefix is the maximum of the set,
  zero for the empty one.
\<close>

theorem prefix_sets_refine:
  assumes "length x = 3" "length y = 3"
  shows "pfx_set (bw_or_192 x y) = pfx_set x \<union> pfx_set y \<and>
    pfx_set (bw_and_192 x y) = pfx_set x \<inter> pfx_set y \<and>
    pfx_set (bw_not_192 x) = {..<192} - pfx_set x \<and>
    map_option pfx_set (bw_shift_bit_192 p) = (if unat p < 192 then Some {unat p} else None) \<and>
    unat (cp_get_largest_prefix x) = (if pfx_set x = {} then 0 else Max (pfx_set x))"
proof -
  have "map_option pfx_set (bw_shift_bit_192 p) = (if unat p < 192 then Some {unat p} else None)"
    using pfx_set_single(1) [of p] pfx_set_single(2) [of p] by (cases "unat p < 192") auto
  then show ?thesis using pfx_set_ops [OF assms] largest_prefix [OF assms(1)] by blast
qed

theorem prefix_sets_refine_witness:
  "pfx_set (bw_or_192 [1, 0, 0] [0, 0, 1]) = pfx_set [1, 0, 0] \<union> pfx_set [0, 0, 1] \<and>
   unat (cp_get_largest_prefix [1, 0, 0]) = (if pfx_set [1, 0, 0] = {} then 0 else Max (pfx_set [1, 0, 0]))"
proof -
  have "length [1, 0, 0 :: u64] = 3" "length [0, 0, 1 :: u64] = 3" by simp_all
  from prefix_sets_refine [OF this] show ?thesis by blast
qed

text \<open>
  C34. When the paths of a route are laid out one after another from zero, every weight below
  the end of the last path is served by exactly one path, no other weight by any, and a
  client without a weight gets exactly the last path.
\<close>

theorem weights_partition:
  assumes "weights_from 0 ws" "ws \<noteq> []"
  shows "(unat val < unat (w_end (last ws)) \<longrightarrow> (\<exists>!i. i < length ws \<and> cp_fwd_weight_match val (ws ! i))) \<and>
    (unat (w_end (last ws)) \<le> unat val \<and> val \<noteq> CP_FWD_MULTIPATH_WEIGHT_NONE \<longrightarrow>
       (\<forall>i < length ws. \<not> cp_fwd_weight_match val (ws ! i))) \<and>
    (\<forall>i < length ws. cp_fwd_weight_match CP_FWD_MULTIPATH_WEIGHT_NONE (ws ! i) \<longleftrightarrow> i = length ws - 1)"
proof (intro conjI allI impI)
  assume v: "unat val < unat (w_end (last ws))"
  then have "val < w_end (last ws)" by (simp only: word_less_nat_alt)
  then have n: "val \<noteq> CP_FWD_MULTIPATH_WEIGHT_NONE"
    using word_n1_ge [of "w_end (last ws)"] by (auto simp: CP_FWD_MULTIPATH_WEIGHT_NONE_def)
  from weights_match_exists [OF assms(1) n assms(2) _ v]
  obtain i where i: "i < length ws" "cp_fwd_weight_match val (ws ! i)" by auto
  have "j = i" if "j < length ws" "cp_fwd_weight_match val (ws ! j)" for j
    using weights_match_unique [OF assms(1) n _ _ i(2), of j] weights_match_unique [OF assms(1) n _ i(1) that(2)] that i
    by (cases j i rule: linorder_cases) auto
  with i show "\<exists>!i. i < length ws \<and> cp_fwd_weight_match val (ws ! i)" by blast
next
  fix i assume "unat (w_end (last ws)) \<le> unat val \<and> val \<noteq> CP_FWD_MULTIPATH_WEIGHT_NONE" "i < length ws"
  then show "\<not> cp_fwd_weight_match val (ws ! i)" using weights_match_range [OF assms(1), of val i] by auto
next
  fix i assume "i < length ws"
  then show "cp_fwd_weight_match CP_FWD_MULTIPATH_WEIGHT_NONE (ws ! i) \<longleftrightarrow> i = length ws - 1"
    by (rule weights_none [OF assms])
qed

theorem weights_partition_witness:
  "\<exists>!i. i < length [\<lparr>w_end = 3, w_val = 3, w_flag = 0\<rparr>, \<lparr>w_end = 5, w_val = 2, w_flag = 1\<rparr>] \<and>
     cp_fwd_weight_match 4 ([\<lparr>w_end = 3, w_val = 3, w_flag = 0\<rparr>, \<lparr>w_end = 5, w_val = 2, w_flag = 1\<rparr>] ! i)"
proof -
  let ?ws = "[\<lparr>w_end = 3, w_val = 3, w_flag = 0\<rparr>, \<lparr>w_end = 5, w_val = 2, w_flag = 1\<rparr>]"
  have "weights_from 0 ?ws" "?ws \<noteq> []" by (simp_all add: CP_FWD_MULTIPATH_FLAG_LAST_def)
  from weights_partition [OF this, of 4] have "unat (4 :: u32) < unat (w_end (last ?ws)) \<longrightarrow>
    (\<exists>!i. i < length ?ws \<and> cp_fwd_weight_match 4 (?ws ! i))" by blast
  moreover have "unat (4 :: u32) < unat (w_end (last ?ws))" by simp
  ultimately show ?thesis by (rule mp)
qed

end
