(* ===== verification/CpFwd.thy ===== *)
theory CpFwd
  imports CpPrefix CpMib
begin

text \<open>
  The forward table as a client uses it (\<open>cplane/mib.h\<close>, \<open>cplane/cplane.h\<close>): rows addressed by a
  handle of row number and version, the marks a client leaves for the server, the requests
  about neighbours, and the fast path of a route lookup, which copies the data of a row while
  the server may be changing it.  A failed assertion and an access outside a table are
  \<^term>\<open>None\<close>.
\<close>

unbundle bit_operations_syntax

section \<open>Rows and handles\<close>

record cp_fwd_rw_row =
  frc_used :: u64
  rw_flags :: u32

record cp_fwd_table =
  fwd_mask :: u32
  fwd_rows :: "cp_fwd_row list"
  fwd_rw_rows :: "cp_fwd_rw_row list"

record cicp_verinfo_t =
  ver_id :: u32
  ver_version :: u32

definition CICP_MAC_ROWID_BAD :: u32 where "CICP_MAC_ROWID_BAD = - 1"
definition CICP_FWD_FLAG_STALE :: u32 where "CICP_FWD_FLAG_STALE = 0x1"
definition CICP_FWD_RW_FLAG_ARP_NEED_REFRESH :: u32 where "CICP_FWD_RW_FLAG_ARP_NEED_REFRESH = 0x1"
definition CICP_FWD_DATA_FLAG_ARP_VALID :: byte where "CICP_FWD_DATA_FLAG_ARP_VALID = 0x1"

definition CICP_MAC_ROWID_IS_VALID :: "u32 \<Rightarrow> bool" where
  "CICP_MAC_ROWID_IS_VALID i \<longleftrightarrow> 0 \<le> sint i"

text \<open>
  The data of a row: two addresses of sixteen bytes, mtu, interface number and hop limit, padded
  to forty bytes; then flags, addresses, ports, encapsulation and weight.
\<close>

definition CP_FWD_DATA_SIZE :: nat where "CP_FWD_DATA_SIZE = 72"

definition data_ifindex :: "byte list \<Rightarrow> u16 option" where "data_ifindex d = load16 d 34"
definition data_flags :: "byte list \<Rightarrow> byte option" where "data_flags d = load8 d 40"

definition fwd_data :: "u32 \<Rightarrow> cp_fwd_row \<Rightarrow> byte list" where
  "fwd_data v r = (if v AND 1 = 0 then fwd_data0 r else fwd_data1 r)"

definition cp_get_fwd_by_id :: "cp_fwd_table \<Rightarrow> u32 \<Rightarrow> cp_fwd_row option" where
  "cp_get_fwd_by_id t i =
     (if i \<noteq> CICP_MAC_ROWID_BAD \<and> CICP_MAC_ROWID_IS_VALID i \<and> sint i \<le> sint (fwd_mask t)
      then row_at (fwd_rows t) (sint i) else None)"

definition cp_get_fwd :: "cp_fwd_table \<Rightarrow> cicp_verinfo_t \<Rightarrow> cp_fwd_row option" where
  "cp_get_fwd t ver = cp_get_fwd_by_id t (ver_id ver)"

definition cp_get_fwd_data :: "cp_fwd_table \<Rightarrow> cicp_verinfo_t \<Rightarrow> byte list option" where
  "cp_get_fwd_data t ver = map_option (fwd_data (ver_version ver)) (cp_get_fwd t ver)"

definition cp_get_fwd_data_current :: "cp_fwd_row \<Rightarrow> byte list" where
  "cp_get_fwd_data_current r = fwd_data (fwd_version r) r"

definition cp_get_fwd_rw :: "cp_fwd_table \<Rightarrow> cicp_verinfo_t \<Rightarrow> cp_fwd_rw_row option" where
  "cp_get_fwd_rw t ver =
     (if ver_id ver \<noteq> CICP_MAC_ROWID_BAD \<and> CICP_MAC_ROWID_IS_VALID (ver_id ver)
      then row_at (fwd_rw_rows t) (sint (ver_id ver)) else None)"

definition set_fwd_rw :: "cp_fwd_table \<Rightarrow> cicp_verinfo_t \<Rightarrow> cp_fwd_rw_row \<Rightarrow> cp_fwd_table" where
  "set_fwd_rw t ver rw = t\<lparr>fwd_rw_rows := (fwd_rw_rows t)[nat (sint (ver_id ver)) := rw]\<rparr>"

text \<open>The clock is an argument: the cycle counter at the moment of the call.\<close>

definition cp_fwd_version_matches :: "u64 \<Rightarrow> cp_fwd_table \<Rightarrow> cicp_verinfo_t \<Rightarrow> (bool \<times> cp_fwd_table) option" where
  "cp_fwd_version_matches now t ver =
     do { fwd \<leftarrow> cp_get_fwd t ver;
          if ver_version ver = fwd_version fwd
          then if fwd_flags fwd AND CICP_FWD_FLAG_STALE \<noteq> 0
               then do { rw \<leftarrow> cp_get_fwd_rw t ver;
                         Some (True, if sint (frc_used rw - frc_stale fwd) < 0
                                     then set_fwd_rw t ver (rw\<lparr>frc_used := now\<rparr>) else t) }
               else Some (True, t)
          else Some (False, t) }"

definition ci_frc64_after :: "u64 \<Rightarrow> u64 \<Rightarrow> bool" where
  "ci_frc64_after old_frc new_frc \<longleftrightarrow> 0 < sint (new_frc - old_frc)"

definition cp_fwd_find_row_found_perfect_match :: "u32 \<Rightarrow> bool" where
  "cp_fwd_find_row_found_perfect_match i \<longleftrightarrow> i \<noteq> CICP_MAC_ROWID_BAD"

definition oo_cp_verinfo_init :: "cicp_verinfo_t \<Rightarrow> cicp_verinfo_t" where
  "oo_cp_verinfo_init ver = ver\<lparr>ver_id := CICP_MAC_ROWID_BAD\<rparr>"

definition oo_cp_verinfo_is_valid :: "u64 \<Rightarrow> cp_fwd_table \<Rightarrow> cicp_verinfo_t \<Rightarrow> (bool \<times> cp_fwd_table) option" where
  "oo_cp_verinfo_is_valid now t ver =
     (if CICP_MAC_ROWID_IS_VALID (ver_id ver) then cp_fwd_version_matches now t ver else Some (False, t))"

section \<open>Requests to the server\<close>

text \<open>The system call leaves its result and \<open>errno\<close>; the caller gets the error and finds \<open>errno\<close> as it was.\<close>

definition cp_ioctl :: "int \<times> int \<Rightarrow> int \<Rightarrow> int \<times> int" where
  "cp_ioctl call saved_errno = (case call of (rc, err) \<Rightarrow> if rc = 0 then (0, err) else (- err, saved_errno))"

datatype cp_request = ARP_CONFIRM cicp_verinfo_t | ARP_RESOLVE cicp_verinfo_t

definition oo_cp_arp_confirm :: "u64 \<Rightarrow> cp_fwd_table \<Rightarrow> cicp_verinfo_t \<Rightarrow> (cp_request list \<times> cp_fwd_table) option" where
  "oo_cp_arp_confirm now t ver =
     do { (ok, t) \<leftarrow> oo_cp_verinfo_is_valid now t ver;
          if \<not> ok then Some ([], t)
          else do { rw \<leftarrow> cp_get_fwd_rw t ver;
                    if rw_flags rw AND CICP_FWD_RW_FLAG_ARP_NEED_REFRESH = 0 then Some ([], t)
                    else Some ([ARP_CONFIRM ver],
                               set_fwd_rw t ver (rw\<lparr>rw_flags := rw_flags rw AND NOT CICP_FWD_RW_FLAG_ARP_NEED_REFRESH\<rparr>)) } }"

text \<open>The assertion for interfaces that carry no traffic holds only if the row has changed meanwhile.\<close>

definition oo_cp_arp_resolve :: "u64 \<Rightarrow> cp_fwd_table \<Rightarrow> cicp_verinfo_t \<Rightarrow> (cp_request list \<times> cp_fwd_table) option" where
  "oo_cp_arp_resolve now t ver =
     do { fwd \<leftarrow> cp_get_fwd t ver;
          let d = fwd_data (ver_version ver) fwd;
          ifindex \<leftarrow> data_ifindex d;
          flags \<leftarrow> data_flags d;
          if (ifindex = 0 \<or> ifindex = 1) \<and> ver_version ver = fwd_version fwd then None
          else if flags AND CICP_FWD_DATA_FLAG_ARP_VALID \<noteq> 0 then Some ([], t)
          else do { (ok, t) \<leftarrow> cp_fwd_version_matches now t ver;
                    Some (if ok then [ARP_RESOLVE ver] else [], t) } }"

section \<open>The fast path of a route lookup\<close>

text \<open>
  The rows are written by the server at any time: \<open>env k\<close> are the rows at the time of the \<open>k\<close>-th
  access.  The copy takes one access per byte.  The lookup either returns with the data, or
  calls the slow path, with the buffer and the table as they are then.
\<close>

datatype resolve = Resolved "byte list" cp_fwd_table | Slow_path "byte list" cp_fwd_table

fun copy_data :: "(nat \<Rightarrow> cp_fwd_row list) \<Rightarrow> cp_fwd_table \<Rightarrow> cicp_verinfo_t \<Rightarrow> nat \<Rightarrow> nat \<Rightarrow> byte list option" where
  "copy_data env t ver k 0 = Some []"
| "copy_data env t ver k (Suc n) =
     do { d \<leftarrow> cp_get_fwd_data (t\<lparr>fwd_rows := env (k + 1)\<rparr>) ver;
          b \<leftarrow> load8 d k;
          bs \<leftarrow> copy_data env t ver (k + 1) n;
          Some (b # bs) }"

definition oo_cp_route_resolve ::
    "(nat \<Rightarrow> cp_fwd_row list) \<Rightarrow> (nat \<Rightarrow> u64) \<Rightarrow> cp_fwd_table \<Rightarrow> cicp_verinfo_t \<Rightarrow> byte list \<Rightarrow> resolve option" where
  "oo_cp_route_resolve env clock t ver data =
     do { (ok, t) \<leftarrow> oo_cp_verinfo_is_valid (clock 0) (t\<lparr>fwd_rows := env 0\<rparr>) ver;
          if ok
          then do {
            rw \<leftarrow> cp_get_fwd_rw t ver;
            let t = set_fwd_rw t ver (rw\<lparr>frc_used := clock 1\<rparr>);
            data \<leftarrow> copy_data env t ver 0 CP_FWD_DATA_SIZE;
            (ok, t) \<leftarrow> cp_fwd_version_matches (clock 2) (t\<lparr>fwd_rows := env (CP_FWD_DATA_SIZE + 1)\<rparr>) ver;
            Some (if ok then Resolved data t else Slow_path data t) }
          else Some (Slow_path data t) }"

section \<open>What the server may do to a row\<close>

text \<open>
  The protocol the table documents: clients of an even version read the first snapshot and
  clients of an odd one the second, and the server writes the other one before it advances
  the version.  The number counts the advances.
\<close>

inductive server_run :: "nat \<Rightarrow> cp_fwd_row \<Rightarrow> cp_fwd_row \<Rightarrow> bool" where
  idle: "server_run 0 r r"
| write0: "server_run n r r' \<Longrightarrow> fwd_version r' AND 1 \<noteq> 0 \<Longrightarrow> server_run n r (r'\<lparr>fwd_data0 := d\<rparr>)"
| write1: "server_run n r r' \<Longrightarrow> fwd_version r' AND 1 = 0 \<Longrightarrow> server_run n r (r'\<lparr>fwd_data1 := d\<rparr>)"
| advance: "server_run n r r' \<Longrightarrow> server_run (Suc n) r (r'\<lparr>fwd_version := fwd_version r' + 1\<rparr>)"
| mark: "server_run n r r' \<Longrightarrow> server_run n r (r'\<lparr>fwd_flags := f, frc_stale := s, fwd_use := u\<rparr>)"

lemma server_run_version: "server_run n r r' \<Longrightarrow> fwd_version r' = fwd_version r + of_nat n"
  by (induction rule: server_run.induct) simp_all

lemma server_run_quiet: "server_run n r r' \<Longrightarrow> n = 0 \<Longrightarrow> fwd_data (fwd_version r) r' = fwd_data (fwd_version r) r"
proof (induction rule: server_run.induct)
  case (write0 n r r' d)
  then show ?case using server_run_version [OF write0.hyps(1)] by (simp add: fwd_data_def)
next
  case (write1 n r r' d)
  then show ?case using server_run_version [OF write1.hyps(1)] by (simp add: fwd_data_def)
qed (auto simp: fwd_data_def split: if_splits)

lemma server_versions:
  assumes "\<forall>k < m. server_run (steps k) (row k) (row (Suc k))" "j \<le> m"
  shows "fwd_version (row j) = fwd_version (row 0) + of_nat (\<Sum>k < j. steps k)"
  using assms(2)
proof (induction j)
  case (Suc j)
  then have "server_run (steps j) (row j) (row (Suc j))" using assms(1) by simp
  from server_run_version [OF this] Suc show ?case by simp
qed simp

lemma server_unchanged:
  assumes "\<forall>k < m. server_run (steps k) (row k) (row (Suc k))" "(\<Sum>k < m. steps k) = 0" "j \<le> m"
  shows "fwd_version (row j) = fwd_version (row 0) \<and> fwd_data (fwd_version (row 0)) (row j) = fwd_data (fwd_version (row 0)) (row 0)"
  using assms(3)
proof (induction j)
  case (Suc j)
  then have "server_run (steps j) (row j) (row (Suc j))" "steps j = 0" using assms(1,2) by simp_all
  with server_run_version [of 0 "row j"] server_run_quiet [of 0 "row j"] Suc show ?case by simp
qed simp

lemma version_returns:
  assumes "\<forall>k < m. server_run (steps k) (row k) (row (Suc k))" "(\<Sum>k < m. steps k) < 2 ^ 32"
    "fwd_version (row m) = fwd_version (row 0)"
  shows "(\<Sum>k < m. steps k) = 0"
proof -
  let ?n = "\<Sum>k < m. steps k"
  have "fwd_version (row 0) + of_nat ?n = fwd_version (row 0)"
    using server_versions [OF assms(1) order_refl] assms(3) by (rule subst)
  then have "(of_nat ?n :: u32) = 0" by (simp only: add_cancel_left_right)
  then have "2 ^ LENGTH(32) dvd ?n" by (simp only: word_of_nat_eq_0_iff)
  then show ?thesis using assms(2) by (auto dest: dvd_imp_le)
qed

section \<open>Reading a row\<close>

lemma get_fwd_row: "cp_get_fwd (t\<lparr>fwd_rows := rs\<rparr>) ver = Some r \<Longrightarrow> row_at rs (sint (ver_id ver)) = Some r"
  by (simp add: cp_get_fwd_def cp_get_fwd_by_id_def split: if_splits)

lemma version_matches_version:
  "cp_fwd_version_matches now t ver = Some (ok, t') \<Longrightarrow> \<exists>r. cp_get_fwd t ver = Some r \<and> (ok \<longleftrightarrow> ver_version ver = fwd_version r)"
  by (auto simp: cp_fwd_version_matches_def bind_eq_Some_conv split: if_splits)

lemma copy_data_same:
  assumes "copy_data env t ver k n = Some bs" "\<forall>j < n. row_at (env (k + j + 1)) (sint (ver_id ver)) = Some (row (k + j + 1)) \<and>
      fwd_data (ver_version ver) (row (k + j + 1)) = d"
  shows "bs = take n (drop k d) \<and> length bs = n"
  using assms
proof (induction n arbitrary: k bs)
  case (Suc n)
  from Suc.prems(1) obtain d' b bs' where p: "cp_get_fwd_data (t\<lparr>fwd_rows := env (k + 1)\<rparr>) ver = Some d'" "load8 d' k = Some b"
    "copy_data env t ver (k + 1) n = Some bs'" "bs = b # bs'" by (auto simp: bind_eq_Some_conv)
  have "d' = d"
    using p(1) Suc.prems(2) [rule_format, of 0] by (auto simp: cp_get_fwd_data_def dest!: get_fwd_row)
  then have kd: "k < length d" "b = d ! k" using p(2) by (auto simp: load8_def load_def hd_drop_conv_nth split: if_splits)
  have "\<forall>j < n. row_at (env (k + 1 + j + 1)) (sint (ver_id ver)) = Some (row (k + 1 + j + 1)) \<and>
      fwd_data (ver_version ver) (row (k + 1 + j + 1)) = d"
  proof (intro allI impI)
    fix j assume "j < n"
    then show "row_at (env (k + 1 + j + 1)) (sint (ver_id ver)) = Some (row (k + 1 + j + 1)) \<and>
        fwd_data (ver_version ver) (row (k + 1 + j + 1)) = d" using Suc.prems(2) [rule_format, of "Suc j"] by simp
  qed
  from Suc.IH [OF p(3) this] have e: "bs' = take n (drop (k + 1) d)" and l: "length bs' = n" by blast+
  have "length bs = Suc n" using l p(4) by simp
  moreover have "bs = take (Suc n) (drop k d)" using e kd p(4) by (simp add: Cons_nth_drop_Suc [symmetric])
  ultimately show ?case by blast
qed simp

text \<open>Without interference the copy is complete and the second check agrees with the first.\<close>

lemma copy_data_idle:
  assumes "\<forall>k. cp_get_fwd_data (t\<lparr>fwd_rows := env k\<rparr>) ver = Some d" "k + n \<le> length d"
  shows "copy_data env t ver k n = Some (take n (drop k d))"
  using assms(2)
proof (induction n arbitrary: k)
  case (Suc n)
  then have "k < length d" by simp
  with Suc.IH [of "k + 1"] Suc.prems assms(1) show ?case by (simp add: Cons_nth_drop_Suc [symmetric])
qed simp

lemma rw_fields [simp]:
  "fwd_rows (set_fwd_rw t ver rw) = fwd_rows t" "fwd_mask (set_fwd_rw t ver rw) = fwd_mask t"
  "cp_get_fwd (set_fwd_rw t ver rw) ver = cp_get_fwd t ver"
  "set_fwd_rw (t\<lparr>fwd_rows := rs\<rparr>) ver rw = (set_fwd_rw t ver rw)\<lparr>fwd_rows := rs\<rparr>"
  "cp_get_fwd_rw (t\<lparr>fwd_rows := rs\<rparr>) ver = cp_get_fwd_rw t ver"
  by (simp_all add: set_fwd_rw_def cp_get_fwd_def cp_get_fwd_by_id_def cp_get_fwd_rw_def)

lemma get_set_fwd_rw [simp]: "cp_get_fwd_rw t ver = Some rw \<Longrightarrow> cp_get_fwd_rw (set_fwd_rw t ver rw') ver = Some rw'"
  by (auto simp: cp_get_fwd_rw_def set_fwd_rw_def row_at_def split: if_splits)

lemma version_matches_total:
  assumes "cp_get_fwd t ver = Some r" "cp_get_fwd_rw t ver = Some rw"
  shows "\<exists>u. cp_fwd_version_matches now t ver = Some (ver_version ver = fwd_version r, u) \<and> fwd_rows u = fwd_rows t \<and>
    fwd_mask u = fwd_mask t \<and> (\<exists>frc. cp_get_fwd_rw u ver = Some (rw\<lparr>frc_used := frc\<rparr>))"
proof -
  have "\<exists>frc. rw = rw\<lparr>frc_used := frc\<rparr>" by (rule exI [of _ "frc_used rw"]) simp
  then show ?thesis using assms get_set_fwd_rw [OF assms(2)] by (auto simp: cp_fwd_version_matches_def)
qed

lemma get_fwd_rows: "fwd_rows t = fwd_rows u \<Longrightarrow> fwd_mask t = fwd_mask u \<Longrightarrow> cp_get_fwd t ver = cp_get_fwd u ver"
  by (simp add: cp_get_fwd_def cp_get_fwd_by_id_def)

lemma route_resolve_idle:
  assumes "\<forall>k. cp_get_fwd (t\<lparr>fwd_rows := env k\<rparr>) ver = Some (row k)" "cp_get_fwd_rw t ver = Some rw"
    "\<forall>k. fwd_version (row k) = ver_version ver \<and> fwd_data (ver_version ver) (row k) = d" "CP_FWD_DATA_SIZE \<le> length d"
  shows "\<exists>t'. oo_cp_route_resolve env clock t ver data = Some (Resolved (take CP_FWD_DATA_SIZE d) t')"
proof -
  let ?t = "t\<lparr>fwd_rows := env 0\<rparr>"
  have valid: "CICP_MAC_ROWID_IS_VALID (ver_id ver)" using assms(2) by (simp add: cp_get_fwd_rw_def split: if_splits)
  have g: "cp_get_fwd ?t ver = Some (row 0)" "cp_get_fwd_rw ?t ver = Some rw" using assms(1,2) by simp_all
  from version_matches_total [OF g, of "clock 0"] obtain u frc where u: "cp_fwd_version_matches (clock 0) ?t ver = Some (True, u)"
    "fwd_mask u = fwd_mask t" "cp_get_fwd_rw u ver = Some (rw\<lparr>frc_used := frc\<rparr>)" using assms(3) by auto
  define v where "v = set_fwd_rw u ver (rw\<lparr>frc_used := clock 1\<rparr>)"
  have "fwd_mask v = fwd_mask t" using u(2) by (simp add: v_def)
  then have gv: "cp_get_fwd (v\<lparr>fwd_rows := env k\<rparr>) ver = Some (row k)" for k
    using assms(1) get_fwd_rows [of "v\<lparr>fwd_rows := env k\<rparr>" "t\<lparr>fwd_rows := env k\<rparr>" ver] by simp
  then have "cp_get_fwd_data (v\<lparr>fwd_rows := env k\<rparr>) ver = Some d" for k using assms(3) by (simp add: cp_get_fwd_data_def)
  then have c: "copy_data env v ver 0 CP_FWD_DATA_SIZE = Some (take CP_FWD_DATA_SIZE d)"
    using assms(4) copy_data_idle [where t = v and env = env and ver = ver and d = d and k = 0 and n = CP_FWD_DATA_SIZE] by simp
  have "cp_get_fwd_rw (v\<lparr>fwd_rows := env (CP_FWD_DATA_SIZE + 1)\<rparr>) ver = Some (rw\<lparr>frc_used := clock 1\<rparr>)"
    using get_set_fwd_rw [OF u(3)] by (simp add: v_def)
  from version_matches_total [OF gv this, of "clock 2"] obtain w where
    "cp_fwd_version_matches (clock 2) (v\<lparr>fwd_rows := env (CP_FWD_DATA_SIZE + 1)\<rparr>) ver = Some (True, w)" using assms(3) by auto
  then show ?thesis using valid u c unfolding v_def by (simp add: oo_cp_route_resolve_def oo_cp_verinfo_is_valid_def)
qed

section \<open>Properties\<close>

text \<open>
  C37. When the server follows its protocol and advances the version fewer than 2^32 times during
  the call, data that the fast path returns are one snapshot of the row, that of the version of
  the handle, however the accesses interleave; the row was unchanged as long as the copy took.
\<close>

theorem route_resolve_consistent:
  assumes "\<forall>k \<le> CP_FWD_DATA_SIZE + 1. row_at (env k) (sint (ver_id ver)) = Some (row k)"
    "\<forall>k < CP_FWD_DATA_SIZE + 1. server_run (steps k) (row k) (row (Suc k))"
    "(\<Sum>k < CP_FWD_DATA_SIZE + 1. steps k) < 2 ^ 32"
    "oo_cp_route_resolve env clock t ver data = Some (Resolved d t')"
  shows "length d = CP_FWD_DATA_SIZE \<and> d = take CP_FWD_DATA_SIZE (cp_get_fwd_data_current (row 0)) \<and>
    (\<forall>k \<le> CP_FWD_DATA_SIZE + 1. fwd_version (row k) = ver_version ver \<and> cp_get_fwd_data_current (row k) = cp_get_fwd_data_current (row 0))"
proof -
  let ?m = "CP_FWD_DATA_SIZE + 1"
  from assms(4) obtain t1 t2 t3 where p: "oo_cp_verinfo_is_valid (clock 0) (t\<lparr>fwd_rows := env 0\<rparr>) ver = Some (True, t1)"
    "copy_data env t2 ver 0 CP_FWD_DATA_SIZE = Some d"
    "cp_fwd_version_matches (clock 2) (t2\<lparr>fwd_rows := env ?m\<rparr>) ver = Some (True, t3)"
    by (auto simp: oo_cp_route_resolve_def Let_def bind_eq_Some_conv split: if_splits)
  have v0: "fwd_version (row 0) = ver_version ver"
    using p(1) assms(1) by (auto simp: oo_cp_verinfo_is_valid_def split: if_splits dest!: version_matches_version get_fwd_row)
  moreover have "fwd_version (row ?m) = ver_version ver"
    using p(3) assms(1) by (auto dest!: version_matches_version get_fwd_row)
  ultimately have v: "fwd_version (row ?m) = fwd_version (row 0)" by simp
  have "\<forall>k \<le> ?m. fwd_version (row k) = fwd_version (row 0) \<and>
      fwd_data (fwd_version (row 0)) (row k) = fwd_data (fwd_version (row 0)) (row 0)"
    by (intro allI impI) (rule server_unchanged [OF assms(2) version_returns [OF assms(2,3) v]])
  note same = this [unfolded v0]
  have "\<forall>j < CP_FWD_DATA_SIZE. row_at (env (0 + j + 1)) (sint (ver_id ver)) = Some (row (0 + j + 1)) \<and>
      fwd_data (ver_version ver) (row (0 + j + 1)) = fwd_data (ver_version ver) (row 0)"
  proof (intro allI impI)
    fix j assume "j < CP_FWD_DATA_SIZE"
    then have "0 + j + 1 \<le> ?m" by simp
    with same assms(1) show "row_at (env (0 + j + 1)) (sint (ver_id ver)) = Some (row (0 + j + 1)) \<and>
        fwd_data (ver_version ver) (row (0 + j + 1)) = fwd_data (ver_version ver) (row 0)" by blast
  qed
  note c = copy_data_same [OF p(2) this]
  have e: "cp_get_fwd_data_current (row k) = fwd_data (ver_version ver) (row 0)" if "k \<le> ?m" for k
  proof -
    from same that have "fwd_version (row k) = ver_version ver" "fwd_data (ver_version ver) (row k) = fwd_data (ver_version ver) (row 0)"
      by blast+
    then show ?thesis by (simp only: cp_get_fwd_data_current_def)
  qed
  have e0: "cp_get_fwd_data_current (row 0) = fwd_data (ver_version ver) (row 0)" by (rule e) simp
  have "d = take CP_FWD_DATA_SIZE (cp_get_fwd_data_current (row 0))" using conjunct1 [OF c] unfolding e0 drop_0 .
  moreover have "\<forall>k \<le> ?m. cp_get_fwd_data_current (row k) = cp_get_fwd_data_current (row 0)" using e unfolding e0 by blast
  ultimately show ?thesis using conjunct2 [OF c] same by blast
qed

definition sample_row :: cp_fwd_row where
  "sample_row = \<lparr>fwd_key = \<lparr>key_src = addr_any, key_dst = addr_any, key_ifindex = 2, key_tos = 0, key_iif_ifindex = 0, key_flag = 0\<rparr>,
     fwd_key_ext = \<lparr>src_prefix = 0, dst_prefix = 0\<rparr>, fwd_data0 = replicate 72 7, fwd_data1 = replicate 72 9,
     fwd_use = 1, fwd_version = 6, fwd_flags = 0xc0, frc_stale = 0\<rparr>"

definition sample_table :: cp_fwd_table where
  "sample_table = \<lparr>fwd_mask = 0, fwd_rows = [sample_row], fwd_rw_rows = [\<lparr>frc_used = 5, rw_flags = 1\<rparr>]\<rparr>"

text \<open>In the sample the server writes the snapshot that is not in use during the copy.\<close>

theorem route_resolve_consistent_witness:
  "\<exists>d t'. oo_cp_route_resolve (\<lambda>k. [if k = 0 then sample_row else sample_row\<lparr>fwd_data1 := replicate 72 8\<rparr>]) (\<lambda>k. 100)
     sample_table \<lparr>ver_id = 0, ver_version = 6\<rparr> [] = Some (Resolved d t') \<and> d = replicate 72 7"
proof -
  let ?row = "\<lambda>k::nat. if k = 0 then sample_row else sample_row\<lparr>fwd_data1 := replicate 72 8\<rparr>"
  let ?env = "\<lambda>k. [?row k]" and ?ver = "\<lparr>ver_id = 0, ver_version = 6\<rparr>"
  have get: "\<forall>k. cp_get_fwd (sample_table\<lparr>fwd_rows := ?env k\<rparr>) ?ver = Some (?row k)"
    by (simp add: cp_get_fwd_def cp_get_fwd_by_id_def row_at_def sample_table_def CICP_MAC_ROWID_BAD_def CICP_MAC_ROWID_IS_VALID_def)
  have rw: "cp_get_fwd_rw sample_table ?ver = Some \<lparr>frc_used = 5, rw_flags = 1\<rparr>"
    by (simp add: cp_get_fwd_rw_def row_at_def sample_table_def CICP_MAC_ROWID_BAD_def CICP_MAC_ROWID_IS_VALID_def)
  have vs: "\<forall>k. fwd_version (?row k) = ver_version ?ver \<and> fwd_data (ver_version ?ver) (?row k) = replicate 72 7"
    by (simp add: sample_row_def fwd_data_def)
  have "CP_FWD_DATA_SIZE \<le> length (replicate 72 (7 :: byte))" by (simp add: CP_FWD_DATA_SIZE_def)
  from route_resolve_idle [OF get rw vs this, where clock = "\<lambda>k. 100" and data = "[]"]
  obtain d t' where r: "oo_cp_route_resolve ?env (\<lambda>k. 100) sample_table ?ver [] = Some (Resolved d t')" by blast
  have "server_run 0 (?row k) (?row (Suc k))" for k
  proof (cases k)
    case 0
    have "server_run 0 sample_row (sample_row\<lparr>fwd_data1 := replicate 72 8\<rparr>)"
      by (rule server_run.write1 [OF server_run.idle]) (simp add: sample_row_def)
    then show ?thesis using 0 by simp
  qed (simp add: server_run.idle)
  then have "\<forall>k < CP_FWD_DATA_SIZE + 1. server_run 0 (?row k) (?row (Suc k))" by blast
  note run = this
  have rows: "\<forall>k \<le> CP_FWD_DATA_SIZE + 1. row_at (?env k) (sint (ver_id ?ver)) = Some (?row k)" by (simp add: row_at_def)
  have "(\<Sum>k < CP_FWD_DATA_SIZE + 1. 0) < (2 :: nat) ^ 32" by simp
  from route_resolve_consistent [OF rows run this r] have "d = take CP_FWD_DATA_SIZE (cp_get_fwd_data_current (?row 0))" by blast
  also have "\<dots> = replicate 72 7" by (simp add: CP_FWD_DATA_SIZE_def cp_get_fwd_data_current_def fwd_data_def sample_row_def)
  finally show ?thesis using r by blast
qed

text \<open>
  C38. A confirmation asks the server exactly when the handle is current and the entry is marked as
  nearly stale, and takes the mark away: a second confirmation asks nothing.
\<close>

theorem arp_confirm_once:
  assumes "cp_get_fwd t ver = Some r" "cp_get_fwd_rw t ver = Some rw"
  shows "\<exists>t'. oo_cp_arp_confirm now t ver =
      Some (if ver_version ver = fwd_version r \<and> rw_flags rw AND CICP_FWD_RW_FLAG_ARP_NEED_REFRESH \<noteq> 0
            then [ARP_CONFIRM ver] else [], t') \<and>
    (\<exists>t''. oo_cp_arp_confirm now' t' ver = Some ([], t''))"
proof -
  have valid: "CICP_MAC_ROWID_IS_VALID (ver_id ver)" using assms(2) by (simp add: cp_get_fwd_rw_def split: if_splits)
  have quiet: "\<exists>u'. oo_cp_arp_confirm now' u ver = Some ([], u')"
    if "cp_get_fwd u ver = Some r" "cp_get_fwd_rw u ver = Some w"
      "ver_version ver \<noteq> fwd_version r \<or> rw_flags w AND CICP_FWD_RW_FLAG_ARP_NEED_REFRESH = 0" for u w
    using version_matches_total [OF that(1,2), of now'] that(3) valid
    by (auto simp: oo_cp_arp_confirm_def oo_cp_verinfo_is_valid_def)
  from version_matches_total [OF assms, of now] obtain u frc where
    u: "cp_fwd_version_matches now t ver = Some (ver_version ver = fwd_version r, u)" "fwd_rows u = fwd_rows t"
      "fwd_mask u = fwd_mask t" "cp_get_fwd_rw u ver = Some (rw\<lparr>frc_used := frc\<rparr>)" by blast
  have g: "cp_get_fwd u ver = Some r" using get_fwd_rows [OF u(2,3)] assms(1) by simp
  show ?thesis
  proof (cases "ver_version ver = fwd_version r \<and> rw_flags rw AND CICP_FWD_RW_FLAG_ARP_NEED_REFRESH \<noteq> 0")
    case True
    let ?rw = "rw\<lparr>frc_used := frc, rw_flags := rw_flags rw AND NOT CICP_FWD_RW_FLAG_ARP_NEED_REFRESH\<rparr>"
    have "oo_cp_arp_confirm now t ver = Some ([ARP_CONFIRM ver], set_fwd_rw u ver ?rw)"
      using True u valid by (simp add: oo_cp_arp_confirm_def oo_cp_verinfo_is_valid_def)
    moreover have "rw_flags ?rw AND CICP_FWD_RW_FLAG_ARP_NEED_REFRESH = 0"
      by (simp add: and.assoc)
    then have "\<exists>u'. oo_cp_arp_confirm now' (set_fwd_rw u ver ?rw) ver = Some ([], u')"
      using quiet [of "set_fwd_rw u ver ?rw" ?rw] g get_set_fwd_rw [OF u(4)] by simp
    ultimately show ?thesis using True by simp
  next
    case False
    then have "oo_cp_arp_confirm now t ver = Some ([], u)"
      using u valid by (auto simp: oo_cp_arp_confirm_def oo_cp_verinfo_is_valid_def)
    moreover have "\<exists>u'. oo_cp_arp_confirm now' u ver = Some ([], u')" using quiet [OF g u(4)] False by auto
    ultimately show ?thesis using False by simp
  qed
qed

theorem arp_confirm_once_witness:
  "\<exists>t'. oo_cp_arp_confirm 100 sample_table \<lparr>ver_id = 0, ver_version = 6\<rparr> = Some ([ARP_CONFIRM \<lparr>ver_id = 0, ver_version = 6\<rparr>], t') \<and>
     (\<exists>t''. oo_cp_arp_confirm 200 t' \<lparr>ver_id = 0, ver_version = 6\<rparr> = Some ([], t''))"
proof -
  let ?ver = "\<lparr>ver_id = 0, ver_version = 6\<rparr>"
  have "cp_get_fwd sample_table ?ver = Some sample_row" "cp_get_fwd_rw sample_table ?ver = Some \<lparr>frc_used = 5, rw_flags = 1\<rparr>"
    by (simp_all add: cp_get_fwd_def cp_get_fwd_by_id_def cp_get_fwd_rw_def row_at_def sample_table_def
        CICP_MAC_ROWID_BAD_def CICP_MAC_ROWID_IS_VALID_def)
  from arp_confirm_once [OF this, of 100 200] show ?thesis by (simp add: sample_row_def CICP_FWD_RW_FLAG_ARP_NEED_REFRESH_def)
qed

end
