(* ===== verification/Spec2Isabelle.thy ===== *)
theory Spec2Isabelle
  imports RawSub ExanicSub SocketSub McReport CiFifo OoList CiCsum CpLookup CpFwd
begin

text \<open>
  \<^bold>\<open>Verification of the DCE level-1 market data subscribers.\<close>

  \<^bold>\<open>The programs.\<close>  Four programs receive the exchange's multicast feed on 239.239.239.8, hand each
  packet to a decoder, and print one line per message: \<open>dce-sub-socket.c\<close> on a UDP socket,
  \<open>RAWSOCK/dce-sub-raw-socket.c\<close> on a packet socket, \<open>EXANIC/dce-sub-exanic.c\<close> on an ExaNIC adapter and
  \<open>EF_VI/mc_client_efvi.cpp\<close> with \<open>EF_VI/main.cpp\<close> and \<open>EF_VI/utils.cpp\<close> on a Solarflare virtual interface.
  The last one is delivered with the headers of the adapter library (\<open>EF_VI/include\<close>): the virtual
  interface it uses, and the containers, protocol headers, hashes, checksums and control plane tables
  that library is built on.

  \<^bold>\<open>How code becomes definitions.\<close>  Every function of the sources is a HOL function of the same name
  where the name is free; a function called \<open>main\<close> has the program's prefix, as in \<open>raw_main\<close>.  Machine
  integers are words of their width, on a little-endian host with 64-bit pointers.  A buffer is a list of bytes of its
  declared length; objects linked by pointers are a heap of link functions.  Accesses outside a buffer or an
  allocation, null pointers, shifts by the width or more, divisions by zero, the overflow of a signed integer and a
  failed assertion are \<^term>\<open>None\<close>, so a theorem that gives \<^term>\<open>Some\<close> also says the code has none of these;
  \<open>c_int\<close> is the value of an \<open>int\<close> expression.
  Two conventions go beyond the language: words are loaded and stored at any byte address, as the x86-64 hosts
  of these adapters do (the clients read the fields of a packet at whatever offset the adapter's prefix gives
  them), and the links of distinct addresses are distinct objects, so that a list never holds overlapping ones.
  Output is a list of lines, the way a step ends is a value (go on, exit with a code, abort).
  Code that is not part of the sources is an argument: the decoder (\<open>handler\<close>, with \<open>handler_ok\<close>:
  it keeps to the 140 bytes of the longer structure), the system calls (\<open>raw_kernel\<close> and its like), the adapter's
  operations (\<open>vi_ops\<close>, with \<open>driver_ok\<close>) and the calls of the set-up (\<open>env_ok\<close>: a call that succeeds
  delivers what its manual says, memory of the requested size among it; every call may fail).

  \<^bold>\<open>Foundations.\<close>
  \<^item> \<open>Prelude\<close>: bytes and byte order, loads and stores in a buffer, the codec locale of words.
  \<^item> \<open>C_Format\<close>, \<open>C_String\<close>: the conversions of \<open>printf\<close>, comparison of doubles, \<open>strtok\<close>, \<open>atoi\<close> and the
    other string functions the programs call.
  \<^item> \<open>LinkedList\<close>: chains of links and the locale of a stack.

  \<^bold>\<open>The clients.\<close>
  \<^item> \<open>NormalUdp\<close>: the packed structures of \<open>normal_udp.h\<close>, their layout, and the string an identifier of
    eight characters runs on into, having no terminator.
  \<^item> \<open>Report\<close>: dispatch on the decoder's result, the price filter in place and its refinement of a
    filter on structures, the formats of the lines (locale \<open>report_format\<close>, interpreted for each program).
  \<^item> \<open>RxLoop\<close>, \<open>Wire\<close>: the frame filter, the check of IP identifications, the endless loop (locales
    \<open>rx_loop\<close> and \<open>frame_client\<close>), and the frames of the group described by their bytes on the wire.
  \<^item> \<open>RawSub\<close>, \<open>ExanicSub\<close>, \<open>SocketSub\<close>: the three single-threaded programs as a whole: set-up, step, loop and
    \<open>main\<close>.  Safety, one line per frame or datagram in order, gap warnings, exact lines, arguments.
  \<^item> \<open>EfEvent\<close>, \<open>EfVi\<close>: events as 128-bit words with their bit fields; queue states and every inline
    function of \<open>etherfabric/ef_vi.h\<close> on them, with the fill level under wrap-around of the counters.
  \<^item> \<open>EfUtils\<close>: the checking macros, the grammar of filters and the socket helpers of \<open>utils.cpp\<close>.
  \<^item> \<open>McClient\<close>: the client of the virtual interface: pool, refill, event loop, frame handling, set-up.
    \<open>McInvariant\<close> proves that every buffer is free or posted, exactly once, at any moment;
    \<open>McSetup\<close> that the set-up establishes this, or reports the call that failed, or is undefined in exactly the
    cases \<open>init_undefined\<close> lists (the size of the pool overflows an \<open>int\<close>, the greeting has no local time), that the
    ring stays half full, and how the program as a whole can end; \<open>McReport\<close> what it prints for the frames the adapter delivers.

  \<^bold>\<open>The adapter library.\<close>
  \<^item> \<open>CiTools\<close> (\<open>ci/tools/log2.h\<close>, \<open>ci/tools/utils.h\<close>, \<open>ci/compat/utils.h\<close>): logarithms, alignment, sequence numbers.
  \<^item> \<open>CiFifo\<close> (\<open>ci/tools/fifo.h\<close>, \<open>fifos.h\<close>): both rings refine one bounded queue (locale \<open>bounded_queue\<close>).
  \<^item> \<open>CiList\<close> (\<open>ci/tools/dllist.h\<close>, \<open>sllist.h\<close>) and \<open>OoList\<close> (\<open>onload/oo_p_dllist.h\<close>): lists of pointers and of
    offsets refine one deque (locale \<open>deque\<close>); the insertion beside a concurrent traversal.
  \<^item> \<open>NetHdr\<close> (\<open>ci/net/ethernet.h\<close>, \<open>ipv4.h\<close>, \<open>ipv6.h\<close>, \<open>ci/tools/byteorder.h\<close>) and \<open>NetAddr\<close> (\<open>ci/net/ipvx.h\<close>):
    headers and their fields, prefixes, addresses of either family, their tests and their printing.
  \<^item> \<open>CiHash\<close> (\<open>onload/hash.h\<close>, as built with IPv6): the table hashes; probing by the formula its comment
    gives visits every bucket.
  \<^item> \<open>CiCsum\<close> (\<open>ci/tools/ipcsum.h\<close>): the checksum of pieces is the ones-complement sum of the whole.

  \<^bold>\<open>The control plane.\<close>  A server writes tables of interfaces, addresses and routes to memory which clients
  read while it changes them.
  \<^item> \<open>CpPrefix\<close> (\<open>cplane/mib.h\<close>, \<open>cplane/hash.h\<close>, \<open>ci/net/ipvx_sh.h\<close>): prefix matches on bits, sets of prefix
    lengths, weights of multipath routes, the match and the hashes of a request.
  \<^item> \<open>CpMib\<close> (\<open>cplane/mib.h\<close>, \<open>cplane/cplane.h\<close>): rows of the tables and their search, masks of ports, the
    choice of a port of a bond.
  \<^item> \<open>CpLookup\<close> (\<open>cplane/cplane.h\<close>): the lookups that repeat a pass when the version has changed (locale
    \<open>locked_lookup\<close>); what a lookup returns after any number of disturbed passes, which shows that local
    variables are not reset.
  \<^item> \<open>CpFwd\<close> (\<open>cplane/mib.h\<close>, \<open>cplane/cplane.h\<close>): handles of the forward table, requests about neighbours, and
    the fast path of a route lookup, byte by byte beside a server (step relation \<open>server_run\<close>):
    what it returns is one snapshot.

  \<^bold>\<open>Loops and bounds.\<close>  A loop is recursion with a termination proof.  The refill at set-up
  (\<open>fill_rx_ring\<close>) and the loops over linked lists are \<open>partial_function\<close>s, since nothing in the code
  bounds them; the refill is proved to return, the loops on every well-formed list.  The endless receive loops run over
  the list of results of the receive calls, and the main thread of the virtual interface's program, which
  spins beside them, over a list of rounds, so that their theorems hold for every finite run of any
  length; the lookups of \<open>CpLookup\<close> run over the list of passes, and return when one of them is
  undisturbed.  There is no fuel.  The rows of a table are numbered by 16-bit signed integers as in the code,
  and theorems about their search assume fewer than 32768 rows where the number would wrap.
  \<open>route_resolve_consistent\<close> assumes fewer than 2^32 changes of a row during one call, since the version is
  a 32-bit counter.

  \<^bold>\<open>Not modelled.\<close>  The decoder is delivered in binary form only.  The conversion of the greeting's time (\<open>localtime\<close>),
  thread affinity and the like are results of calls.  Of the adapter headers, \<open>ci/efhw\<close>, \<open>ci/driver\<close>, \<open>ci/efrm\<close> and \<open>ci/efch\<close>
  hold register and message layouts and kernel declarations; \<open>ci/internal\<close> and most of \<open>onload\<close> declare a
  TCP/IP stack whose bodies are not part of the sources, together with locks, identifier pools and
  packet queues used by it alone; the other headers of \<open>etherfabric\<close>, \<open>ci/tools\<close>, \<open>ci/app\<close> and \<open>ci/compat\<close> are
  declarations, compiler and platform macros, assembler variants, test helpers, and a few small
  containers the clients do not call.  The slow path of a route lookup, the search through the forward
  table and the server are in libraries the sources only declare.  Memory barriers have no counterpart:
  accesses take effect in program order.
\<close>

section \<open>The line of a best quote\<close>

text \<open>
  C17. An identifier of eight characters has no terminator, and in the line of a best quote it runs on
  into the time that follows it in the structure: where the format asks for the identifier, all four
  programs print the identifier and the time, which is terminated, with nothing between them.  All but the
  packet socket client then print the time again.
\<close>

theorem contract_id_runs_on:
  assumes "best_wf q" "0 \<notin> set (bq_contract_id q)" "cstring (bq_gen_time q) = Some tm"
    "cid = map (\<lambda>b. char_of (unat b)) (bq_contract_id q)" "buf = best_encode q @ rest"
  shows "(\<exists>t. raw_best_line i buf = Some (pad_left 5 (show_nat (unat i)) @ '', '' @ cid @ tm @ '', best, '' @ t)) \<and>
    (\<exists>t. exanic_best_line i buf = Some (cid @ tm @ '', '' @ pad_left 8 tm @ '', best, '' @ t)) \<and>
    (\<exists>t. socket_best_line buf = Some (cid @ tm @ '', '' @ tm @ '', best, '' @ t)) \<and>
    (\<exists>t. efvi_best_line i buf =
       Some (pad_left 5 (show_nat (unat i)) @ '', '' @ cid @ tm @ '', '' @ pad_left 12 tm @ '', best, '' @ t))"
proof -
  have "best_decode buf = Some q" unfolding assms(5) by (rule best_roundtrip [OF assms(1)])
  moreover have "fmt_s buf 0 = Some (cid @ tm)"
    using fmt_s_run_on [OF assms(2,3)] by (simp add: assms(4,5) best_encode_def)
  moreover have "fmt_s buf 8 = Some tm"
    using assms(1) cstring_append [OF assms(3)] by (simp add: assms(5) best_encode_def best_wf_def fmt_s_def)
  ultimately show ?thesis
    by (simp add: raw_best_line_def exanic_best_line_def socket_best_line_def efvi_best_line_def)
qed

theorem contract_id_runs_on_witness:
  "\<exists>t. socket_best_line (best_encode long_id_quote @ []) = Some (''AAAAAAAA9, 9, best, '' @ t)"
proof -
  have "best_wf long_id_quote" "0 \<notin> set (bq_contract_id long_id_quote)" "cstring (bq_gen_time long_id_quote) = Some ''9''"
    by (simp_all add: long_id_quote_def best_wf_def char_of_eq_iff replicate_numeral)
  moreover have "map (\<lambda>b. char_of (unat b)) (bq_contract_id long_id_quote) = ''AAAAAAAA''"
    by (simp add: long_id_quote_def replicate_numeral char_of_eq_iff)
  ultimately show ?thesis using contract_id_runs_on [of long_id_quote "''9''" "''AAAAAAAA''" _ "[]" 7] by (simp only:) simp
qed

end
